(* ===== verification/Prelude.thy ===== *)
theory Prelude
  imports Main "HOL-Library.Word"
begin

text \<open>
  Shared vocabulary of the development: how a C function can stop, sequencing of fallible
  steps, checked array reads, the printf conversions the generator uses, and generic facts on
  lists.  No definition here models a function of the program by itself.
\<close>

named_theorems fmt_simps \<open>facts on the text produced by printf conversions\<close>

subsection \<open>Results\<close>

text \<open>
  A C function either returns or stops the program: \<open>Fatal\<close> is \<open>nasm_fatal\<close> or
  \<open>nasm_panic\<close> (message and exit), \<open>Undefined\<close> is a step the C standard gives no meaning
  (a read outside an array, a null dereference, a division by zero), \<open>Diverges\<close> a loop that
  never ends.
\<close>

datatype stop = Fatal | Undefined | Diverges

type_synonym 'a res = "stop + 'a"

fun bnd :: "'a res \<Rightarrow> ('a \<Rightarrow> 'b res) \<Rightarrow> 'b res" where
  "bnd (Inl e) f = Inl e"
| "bnd (Inr x) f = f x"

lemma bnd_eq_Inr [simp]: "bnd m f = Inr y \<longleftrightarrow> (\<exists>x. m = Inr x \<and> f x = Inr y)"
  by (cases m) auto

lemma bnd_eq_Inl: "bnd m f = Inl e \<longleftrightarrow> m = Inl e \<or> (\<exists>x. m = Inr x \<and> f x = Inl e)"
  by (cases m) auto

lemma bnd_assoc: "bnd (bnd m f) g = bnd m (\<lambda>x. bnd (f x) g)"
  by (cases m) auto

text \<open>
  The congruence rule keeps no fact on the first result: a recursive call may then stand in the
  continuation of another without the definition being nested.  Where termination needs the
  first result, the definitions use a \<open>case\<close> instead.
\<close>

lemma bnd_cong [fundef_cong]:
  "m = m' \<Longrightarrow> (\<And>x. f x = f' x) \<Longrightarrow> bnd m f = bnd m' f'"
  by (cases m') auto

definition guard_res :: "bool \<Rightarrow> stop \<Rightarrow> unit res" where
  "guard_res b e = (if b then Inr () else Inl e)"

lemma guard_res_Inr [simp]: "guard_res b e = Inr u \<longleftrightarrow> b"
  by (simp add: guard_res_def)

definition idx :: "'a list \<Rightarrow> int \<Rightarrow> 'a res" where
  "idx xs i = (if 0 \<le> i \<and> nat i < length xs then Inr (xs ! nat i) else Inl Undefined)"

lemma idx_Inr: "idx xs i = Inr x \<longleftrightarrow> 0 \<le> i \<and> nat i < length xs \<and> x = xs ! nat i"
  by (auto simp: idx_def)

lemma idx_of_nat [simp]: "i < length xs \<Longrightarrow> idx xs (int i) = Inr (xs ! i)"
  by (simp add: idx_def)

definition deref :: "'a option \<Rightarrow> 'a res" where
  "deref p = (case p of None \<Rightarrow> Inl Undefined | Some x \<Rightarrow> Inr x)"

lemma deref_simps [simp]: "deref None = Inl Undefined" "deref (Some x) = Inr x"
  by (simp_all add: deref_def)

lemma deref_eq_Inr [simp]: "deref p = Inr x \<longleftrightarrow> p = Some x"
  by (cases p) auto

text \<open>
  What holds of a result if there is one.  The introduction rules of the collection take a proof
  obligation through the steps of an operation, one rule for each.
\<close>

definition holds :: "('a \<Rightarrow> bool) \<Rightarrow> 'a res \<Rightarrow> bool" where
  "holds Q m \<longleftrightarrow> (\<forall>x. m = Inr x \<longrightarrow> Q x)"

lemma holds_simps [simp]: "holds Q (Inr x) = Q x" "holds Q (Inl e)"
  by (simp_all add: holds_def)

lemma holdsD: "holds Q m \<Longrightarrow> m = Inr x \<Longrightarrow> Q x"
  by (simp add: holds_def)

lemma holds_bnd: "holds R m \<Longrightarrow> (\<And>x. R x \<Longrightarrow> holds Q (f x)) \<Longrightarrow> holds Q (bnd m f)"
  by (auto simp: holds_def)

lemma holds_bnd_pure: "(\<And>x. m = Inr x \<Longrightarrow> holds Q (f x)) \<Longrightarrow> holds Q (bnd m f)"
  by (auto simp: holds_def)

lemma holds_mono: "holds R m \<Longrightarrow> (\<And>x. R x \<Longrightarrow> Q x) \<Longrightarrow> holds Q m"
  by (auto simp: holds_def)

text \<open>Running an operation for every element of a list, stopping with the first that stops.\<close>

fun foldM :: "('a \<Rightarrow> 's \<Rightarrow> 's res) \<Rightarrow> 'a list \<Rightarrow> 's \<Rightarrow> 's res" where
  "foldM f [] s = Inr s"
| "foldM f (x # xs) s = bnd (f x s) (foldM f xs)"

lemma foldM_append: "foldM f (xs @ ys) s = bnd (foldM f xs s) (foldM f ys)"
proof (induction xs arbitrary: s)
  case (Cons x xs)
  then show ?case by (cases "f x s") auto
qed simp

lemma foldM_holds:
  "(\<And>x s. x \<in> set xs \<Longrightarrow> I s \<Longrightarrow> holds I (f x s)) \<Longrightarrow> I s \<Longrightarrow> holds I (foldM f xs s)"
  by (induction xs arbitrary: s) (auto intro!: holds_bnd [where R = I])

lemma foldM_Nil_fun [simp]: "foldM f [] = Inr"
  by (rule ext) simp

lemma bnd_Inr_right [simp]: "bnd m Inr = m"
  by (cases m) auto

lemma foldM_cong [fundef_cong]:
  "xs = ys \<Longrightarrow> s = t \<Longrightarrow> (\<And>x u. x \<in> set ys \<Longrightarrow> f x u = g x u) \<Longrightarrow> foldM f xs s = foldM g ys t"
proof (induction ys arbitrary: xs s t)
  case (Cons y ys)
  then have "f y t = g y t" "foldM f ys = foldM g ys" by auto
  then show ?case using Cons.prems(1,2) by simp
qed simp

subsection \<open>printf conversions\<close>

definition digit_char :: "nat \<Rightarrow> char" where
  "digit_char d = (if d < 10 then char_of (48 + d) else char_of (87 + d))"

fun numeral_string :: "nat \<Rightarrow> nat \<Rightarrow> string" where
  "numeral_string b n =
     (if b < 2 \<or> n < b then [digit_char n]
      else numeral_string b (n div b) @ [digit_char (n mod b)])"

declare numeral_string.simps [simp del]

definition fmt_d :: "int \<Rightarrow> string" where
  "fmt_d i = (if i < 0 then ''-'' @ numeral_string 10 (nat (- i)) else numeral_string 10 (nat i))"

definition fmt_x :: "32 word \<Rightarrow> string" where
  "fmt_x w = numeral_string 16 (unat w)"

text \<open>The inverse reading, used to state that the printed numbers can be read back.\<close>

definition digit_val :: "char \<Rightarrow> nat" where
  "digit_val c = (if of_char c < (58::nat) then of_char c - 48 else of_char c - 87)"

definition read_numeral :: "nat \<Rightarrow> string \<Rightarrow> nat" where
  "read_numeral b s = foldl (\<lambda>a c. a * b + digit_val c) 0 s"

lemma digit_val_digit_char: "d < 36 \<Longrightarrow> digit_val (digit_char d) = d"
  by (auto simp: digit_val_def digit_char_def of_char_of)

lemma read_numeral_string:
  assumes "2 \<le> b" "b \<le> 36"
  shows "read_numeral b (numeral_string b n) = n"
  using assms
proof (induction b n rule: numeral_string.induct)
  case (1 b n)
  show ?case
  proof (cases "n < b")
    case True
    with 1 show ?thesis
      by (simp add: numeral_string.simps [of b n] read_numeral_def digit_val_digit_char)
  next
    case False
    with 1 have "read_numeral b (numeral_string b (n div b)) = n div b" by simp
    moreover have "n mod b < 36" using 1(2,3) by (meson le_trans less_le_trans mod_less_divisor zero_less_numeral)
    ultimately show ?thesis using False 1(2)
      by (simp add: numeral_string.simps [of b n] read_numeral_def digit_val_digit_char)
  qed
qed

lemma numeral_string_inject:
  "2 \<le> b \<Longrightarrow> b \<le> 36 \<Longrightarrow> numeral_string b m = numeral_string b n \<longleftrightarrow> m = n"
  by (metis read_numeral_string)

definition is_dec :: "char \<Rightarrow> bool" where
  "is_dec c \<longleftrightarrow> (48::nat) \<le> of_char c \<and> of_char c \<le> (57::nat)"

lemma is_dec_digit_char: "d < 10 \<Longrightarrow> is_dec (digit_char d)"
  by (auto simp: is_dec_def digit_char_def of_char_of)

lemma numeral_string_dec: "\<forall>c \<in> set (numeral_string 10 n). is_dec c"
proof (induction "10::nat" n rule: numeral_string.induct)
  case (1 n)
  show ?case
  proof (cases "n < 10")
    case True
    then show ?thesis by (simp add: numeral_string.simps [of 10 n] is_dec_digit_char)
  next
    case False
    then have "\<forall>c \<in> set (numeral_string 10 (n div 10)). is_dec c" using 1 by simp
    with False show ?thesis by (simp add: numeral_string.simps [of 10 n] is_dec_digit_char)
  qed
qed

lemma numeral_string_nonempty [simp]: "numeral_string b n \<noteq> []"
  by (subst numeral_string.simps) simp

lemma fmt_d_inject [fmt_simps]: "0 \<le> i \<Longrightarrow> 0 \<le> j \<Longrightarrow> fmt_d i = fmt_d j \<longleftrightarrow> i = j"
  by (auto simp: fmt_d_def numeral_string_inject)

lemma fmt_d_nonempty [simp]: "fmt_d i \<noteq> []"
  by (simp add: fmt_d_def)

lemma fmt_d_dec: "0 \<le> i \<Longrightarrow> \<forall>c \<in> set (fmt_d i). is_dec c"
  by (simp add: fmt_d_def numeral_string_dec)

lemma fmt_x_inject [fmt_simps]: "fmt_x v = fmt_x w \<longleftrightarrow> v = w"
  by (simp add: fmt_x_def numeral_string_inject word_unat_eq_iff)

subsection \<open>Lists\<close>

lemma concat_concat_map: "concat (concat (map f xs)) = concat (map (\<lambda>x. concat (f x)) xs)"
  by (induction xs) auto

text \<open>Insertion next to a given element, the abstract view of the linked list operations.\<close>

fun ins_after :: "'a \<Rightarrow> 'a \<Rightarrow> 'a list \<Rightarrow> 'a list" where
  "ins_after p n [] = []"
| "ins_after p n (x # xs) = (if x = p then x # n # xs else x # ins_after p n xs)"

fun ins_before :: "'a \<Rightarrow> 'a \<Rightarrow> 'a list \<Rightarrow> 'a list" where
  "ins_before p n [] = []"
| "ins_before p n (x # xs) = (if x = p then n # x # xs else x # ins_before p n xs)"

lemma set_ins_after [simp]: "p \<in> set xs \<Longrightarrow> set (ins_after p n xs) = insert n (set xs)"
  by (induction xs) auto

lemma set_ins_before [simp]: "p \<in> set xs \<Longrightarrow> set (ins_before p n xs) = insert n (set xs)"
  by (induction xs) auto

lemma length_ins_after [simp]: "p \<in> set xs \<Longrightarrow> length (ins_after p n xs) = Suc (length xs)"
  by (induction xs) auto

lemma length_ins_before [simp]: "p \<in> set xs \<Longrightarrow> length (ins_before p n xs) = Suc (length xs)"
  by (induction xs) auto

lemma ins_after_absent [simp]: "p \<notin> set xs \<Longrightarrow> ins_after p n xs = xs"
  by (induction xs) auto

lemma ins_before_absent [simp]: "p \<notin> set xs \<Longrightarrow> ins_before p n xs = xs"
  by (induction xs) auto

lemma set_ins_after_subset: "set (ins_after p n xs) \<subseteq> insert n (set xs)"
  by (cases "p \<in> set xs") auto

lemma set_ins_before_subset: "set (ins_before p n xs) \<subseteq> insert n (set xs)"
  by (cases "p \<in> set xs") auto

lemma distinct_ins_after: "distinct xs \<Longrightarrow> n \<notin> set xs \<Longrightarrow> distinct (ins_after p n xs)"
proof (induction xs)
  case (Cons x xs)
  then show ?case using set_ins_after_subset [of p n xs] by auto
qed simp

lemma distinct_ins_before: "distinct xs \<Longrightarrow> n \<notin> set xs \<Longrightarrow> distinct (ins_before p n xs)"
proof (induction xs)
  case (Cons x xs)
  then show ?case using set_ins_before_subset [of p n xs] by auto
qed simp

lemma ins_after_split: "p \<notin> set xs \<Longrightarrow> ins_after p n (xs @ p # ys) = xs @ p # n # ys"
  by (induction xs) auto

lemma ins_before_split: "p \<notin> set xs \<Longrightarrow> ins_before p n (xs @ p # ys) = xs @ n # p # ys"
  by (induction xs) auto

text \<open>Inserting a fresh element leaves the relative order of the others as it was.\<close>

lemma filter_ins_after: "n \<notin> set xs \<Longrightarrow> filter (\<lambda>x. x \<noteq> n) (ins_after p n xs) = xs"
  by (induction xs) (auto intro: filter_True)

lemma filter_ins_before: "n \<notin> set xs \<Longrightarrow> filter (\<lambda>x. x \<noteq> n) (ins_before p n xs) = xs"
  by (induction xs) (auto intro: filter_True)

end
