(* ===== verification/InsnList.thy ===== *)
theory InsnList
  imports Prelude
begin

text \<open>
  The instruction list of \<open>nasmlib/insnlist.c\<close> over the intrusive queue macros of
  \<open>include/queue.h\<close>, at the level of the pointers the macros write: an entry holds the address
  of its successor (\<open>le_next\<close>) and the address of the cell that points to it (\<open>le_prev\<close>,
  either the list head or the \<open>le_next\<close> cell of the predecessor).  The lemmas show that each
  insertion refines an insertion in an abstract sequence of addresses.
\<close>

subsection \<open>Entries, cells and the queue macros\<close>

text \<open>The target of a \<open>struct type **\<close> pointer: nothing, the head cell or an entry's next cell.\<close>

datatype ploc = PNull | PHead | PNext nat

record 'i entry =
  e_insn :: 'i
  le_next :: "nat option"
  le_prev :: ploc

text \<open>
  \<open>heap\<close> and \<open>brk\<close> are the allocator's view: \<open>nasm_zalloc\<close> hands out the address \<open>brk\<close>
  and never fails (it stops the program when memory runs out).
\<close>

record 'i insnlist =
  heap :: "nat \<Rightarrow> 'i entry option"
  brk :: nat
  lh_first :: "nat option"
  insn_count :: "32 word"
  tail :: "nat option"

definition upd_entry :: "nat \<Rightarrow> ('i entry \<Rightarrow> 'i entry) \<Rightarrow> 'i insnlist \<Rightarrow> 'i insnlist" where
  "upd_entry a f l = l\<lparr>heap := (heap l)(a := map_option f (heap l a))\<rparr>"

definition store_ptr :: "ploc \<Rightarrow> nat option \<Rightarrow> 'i insnlist \<Rightarrow> 'i insnlist res" where
  "store_ptr c v l = (case c of
      PNull \<Rightarrow> Inl Undefined
    | PHead \<Rightarrow> Inr (l\<lparr>lh_first := v\<rparr>)
    | PNext a \<Rightarrow> (case heap l a of None \<Rightarrow> Inl Undefined
                  | Some _ \<Rightarrow> Inr (upd_entry a (le_next_update (\<lambda>_. v)) l)))"

definition zalloc_entry :: "'i \<Rightarrow> 'i insnlist \<Rightarrow> nat \<times> 'i insnlist" where
  "zalloc_entry i l =
     (brk l, l\<lparr>heap := (heap l)(brk l \<mapsto> \<lparr>e_insn = i, le_next = None, le_prev = PNull\<rparr>),
               brk := Suc (brk l)\<rparr>)"

definition tlist_insert_after :: "nat \<Rightarrow> nat \<Rightarrow> 'i insnlist \<Rightarrow> 'i insnlist res" where
  "tlist_insert_after listelm elm l =
     bnd (deref (heap l listelm)) (\<lambda>p.
     let nx = le_next p;
         l = upd_entry elm (le_next_update (\<lambda>_. nx)) l;
         l = (case nx of None \<Rightarrow> l
                | Some b \<Rightarrow> upd_entry b (le_prev_update (\<lambda>_. PNext elm)) l);
         l = upd_entry listelm (le_next_update (\<lambda>_. Some elm)) l
     in Inr (upd_entry elm (le_prev_update (\<lambda>_. PNext listelm)) l))"

definition tlist_insert_before :: "nat \<Rightarrow> nat \<Rightarrow> 'i insnlist \<Rightarrow> 'i insnlist res" where
  "tlist_insert_before listelm elm l =
     bnd (deref (heap l listelm)) (\<lambda>p.
     let l = upd_entry elm (le_prev_update (\<lambda>_. le_prev p)) l;
         l = upd_entry elm (le_next_update (\<lambda>_. Some listelm)) l
     in bnd (store_ptr (le_prev p) (Some elm) l) (\<lambda>l.
        Inr (upd_entry listelm (le_prev_update (\<lambda>_. PNext elm)) l)))"

definition tlist_insert_head :: "nat \<Rightarrow> 'i insnlist \<Rightarrow> 'i insnlist" where
  "tlist_insert_head elm l =
     (let nx = lh_first l;
          l = upd_entry elm (le_next_update (\<lambda>_. nx)) l;
          l = (case nx of None \<Rightarrow> l
                 | Some b \<Rightarrow> upd_entry b (le_prev_update (\<lambda>_. PNext elm)) l);
          l = l\<lparr>lh_first := Some elm\<rparr>
      in upd_entry elm (le_prev_update (\<lambda>_. PHead)) l)"

definition tlist_remove :: "nat \<Rightarrow> 'i insnlist \<Rightarrow> 'i insnlist res" where
  "tlist_remove elm l =
     bnd (deref (heap l elm)) (\<lambda>e.
     let l = (case le_next e of None \<Rightarrow> l
                | Some b \<Rightarrow> upd_entry b (le_prev_update (\<lambda>_. le_prev e)) l)
     in bnd (store_ptr (le_prev e) (le_next e) l) (\<lambda>l.
        Inr (upd_entry elm (\<lambda>x. x\<lparr>le_next := None, le_prev := PNull\<rparr>) l)))"

subsection \<open>Instruction list operations\<close>

definition insnlist_create :: "'i insnlist" where
  "insnlist_create = \<lparr>heap = Map.empty, brk = 0, lh_first = None, insn_count = 0, tail = None\<rparr>"

definition insnlist_insert_before ::
  "'i insnlist \<Rightarrow> nat option \<Rightarrow> 'i \<Rightarrow> (nat option \<times> 'i insnlist) res" where
  "insnlist_insert_before l pos inst =
     (if pos = None \<and> tail l \<noteq> None then Inr (None, l) else
      let (entry, l) = zalloc_entry inst l in
      bnd (case pos of
             None \<Rightarrow> (let l = tlist_insert_head entry l in Inr (l\<lparr>tail := lh_first l\<rparr>))
           | Some p \<Rightarrow> tlist_insert_before p entry l)
        (\<lambda>l. Inr (Some entry, l\<lparr>insn_count := insn_count l + 1\<rparr>)))"

definition insnlist_insert_after ::
  "'i insnlist \<Rightarrow> nat option \<Rightarrow> 'i \<Rightarrow> (nat option \<times> 'i insnlist) res" where
  "insnlist_insert_after l pos inst =
     (if pos = None \<and> tail l \<noteq> None then Inr (None, l) else
      let (entry, l) = zalloc_entry inst l in
      bnd (case pos of
             None \<Rightarrow> (let l = tlist_insert_head entry l in Inr (l\<lparr>tail := lh_first l\<rparr>))
           | Some p \<Rightarrow> bnd (tlist_insert_after p entry l) (\<lambda>l.
               Inr (if tail l = Some p then l\<lparr>tail := Some entry\<rparr> else l)))
        (\<lambda>l. Inr (Some entry, l\<lparr>insn_count := insn_count l + 1\<rparr>)))"

definition insnlist_insert_tail :: "'i insnlist \<Rightarrow> 'i \<Rightarrow> (nat option \<times> 'i insnlist) res" where
  "insnlist_insert_tail l inst =
     (let (entry, l) = zalloc_entry inst l in
      bnd (case tail l of
             None \<Rightarrow> (let l = tlist_insert_head entry l in Inr (l\<lparr>tail := lh_first l\<rparr>))
           | Some t \<Rightarrow> bnd (tlist_insert_after t entry l) (\<lambda>l. Inr (l\<lparr>tail := Some entry\<rparr>)))
        (\<lambda>l. Inr (Some entry, l\<lparr>insn_count := insn_count l + 1\<rparr>)))"

text \<open>
  \<open>insnlist_clear\<close> removes the first entry until the list is empty; the bound is the number of
  addresses handed out, and running out of it would be the loop not ending.
\<close>

fun clear_loop :: "nat \<Rightarrow> 'i insnlist \<Rightarrow> 'i insnlist res" where
  "clear_loop fuel l = (case lh_first l of
      None \<Rightarrow> Inr l
    | Some e \<Rightarrow> (case fuel of 0 \<Rightarrow> Inl Undefined
        | Suc k \<Rightarrow> bnd (tlist_remove e l) (\<lambda>l. clear_loop k (l\<lparr>heap := (heap l)(e := None)\<rparr>))))"

declare clear_loop.simps [simp del]

definition insnlist_clear :: "'i insnlist \<Rightarrow> 'i insnlist res" where
  "insnlist_clear l =
     bnd (clear_loop (brk l) l) (\<lambda>l. Inr (l\<lparr>tail := None, insn_count := 0\<rparr>))"

text \<open>The order \<open>TLIST_FOREACH\<close> visits the entries in.\<close>

fun foreach :: "nat \<Rightarrow> (nat \<Rightarrow> 'i entry option) \<Rightarrow> nat option \<Rightarrow> nat list" where
  "foreach fuel h p = (case p of None \<Rightarrow> []
     | Some a \<Rightarrow> (case fuel of 0 \<Rightarrow> [] | Suc k \<Rightarrow>
         (case h a of None \<Rightarrow> [] | Some e \<Rightarrow> a # foreach k h (le_next e))))"

declare foreach.simps [simp del]

definition insnlist_entries :: "'i insnlist \<Rightarrow> nat list" where
  "insnlist_entries l = foreach (brk l) (heap l) (lh_first l)"

definition entry_insn :: "'i insnlist \<Rightarrow> nat \<Rightarrow> 'i" where
  "entry_insn l a = e_insn (the (heap l a))"

definition insnlist_insns :: "'i insnlist \<Rightarrow> 'i list" where
  "insnlist_insns l = map (entry_insn l) (insnlist_entries l)"

subsection \<open>List segments\<close>

text \<open>
  \<open>seg h c p as c' q\<close>: the cell \<open>c\<close> holds \<open>p\<close>, following the next cells from there visits
  exactly \<open>as\<close>, every visited entry points back to the cell that led to it, and the last cell
  \<open>c'\<close> holds \<open>q\<close>.
\<close>

fun seg :: "(nat \<Rightarrow> 'i entry option) \<Rightarrow> ploc \<Rightarrow> nat option \<Rightarrow> nat list \<Rightarrow> ploc \<Rightarrow> nat option \<Rightarrow> bool" where
  "seg h c p [] c' q = (c' = c \<and> q = p)"
| "seg h c p (a # as) c' q =
     (p = Some a \<and> (\<exists>e. h a = Some e \<and> le_prev e = c \<and> seg h (PNext a) (le_next e) as c' q))"

lemma seg_append:
  "seg h c p (xs @ ys) c' q \<longleftrightarrow> (\<exists>d r. seg h c p xs d r \<and> seg h d r ys c' q)"
  by (induction xs arbitrary: c p) auto

lemma seg_frame: "(\<And>a. a \<in> set xs \<Longrightarrow> h' a = h a) \<Longrightarrow> seg h' c p xs d q = seg h c p xs d q"
  by (induction xs arbitrary: c p) auto

lemma seg_dom: "seg h c p xs d q \<Longrightarrow> set xs \<subseteq> dom h"
  by (induction xs arbitrary: c p) auto

lemma seg_end: "seg h c p xs d q \<Longrightarrow> d = (if xs = [] then c else PNext (last xs))"
  by (induction xs arbitrary: c p) auto

lemma seg_first: "seg h c p xs d None \<Longrightarrow> p = (if xs = [] then None else Some (hd xs))"
  by (cases xs) auto

text \<open>Writing the cell a segment hangs from: only its first entry's back pointer changes.\<close>

definition relink :: "nat option \<Rightarrow> ploc \<Rightarrow> (nat \<Rightarrow> 'i entry option) \<Rightarrow> (nat \<Rightarrow> 'i entry option)" where
  "relink nx c h = (case nx of None \<Rightarrow> h
     | Some b \<Rightarrow> h(b := map_option (le_prev_update (\<lambda>_. c)) (h b)))"

lemma seg_relink:
  "seg h c p xs d q \<Longrightarrow> distinct xs \<Longrightarrow> q = None \<Longrightarrow>
   \<exists>d'. seg (relink p c' h) c' p xs d' None"
proof (cases xs)
  case (Cons a as)
  assume s: "seg h c p xs d q" and di: "distinct xs" and q: "q = None"
  then obtain e where p: "p = Some a" and e: "h a = Some e"
    and t: "seg h (PNext a) (le_next e) as d q" and a: "a \<notin> set as"
    using Cons by auto
  have fr: "seg (relink p c' h) (PNext a) (le_next e) as d q"
    using t a by (subst seg_frame [where h = h]) (auto simp: relink_def p)
  show ?thesis
    using Cons fr q by (auto simp: relink_def p e intro!: exI [of _ d])
qed (auto simp: relink_def)

subsection \<open>The representation invariant\<close>

definition rep :: "'i insnlist \<Rightarrow> nat list \<Rightarrow> bool" where
  "rep l as \<longleftrightarrow> (\<exists>d. seg (heap l) PHead (lh_first l) as d None) \<and> distinct as \<and>
     dom (heap l) = set as \<and> (\<forall>a \<in> set as. a < brk l) \<and>
     tail l = (if as = [] then None else Some (last as)) \<and>
     insn_count l = of_nat (length as)"

lemma foreach_seg:
  "seg h c p as d None \<Longrightarrow> length as \<le> k \<Longrightarrow> foreach k h p = as"
proof (induction as arbitrary: c p k)
  case Nil
  then show ?case by (simp add: foreach.simps [of k])
next
  case (Cons a as)
  then obtain j where "k = Suc j" by (cases k) auto
  with Cons show ?case by (auto simp: foreach.simps [of "Suc j"])
qed

lemma rep_entries: "rep l as \<Longrightarrow> insnlist_entries l = as"
proof -
  assume r: "rep l as"
  then have "set as \<subseteq> {..<brk l}" "distinct as" by (auto simp: rep_def)
  then have "length as \<le> brk l"
    using card_mono [of "{..<brk l}" "set as"] by (simp add: distinct_card)
  then show ?thesis
    using r by (auto simp: rep_def insnlist_entries_def intro: foreach_seg)
qed

lemma rep_unique: "rep l as \<Longrightarrow> rep l bs \<Longrightarrow> as = bs"
  using rep_entries by metis

lemma rep_create: "rep insnlist_create []"
  by (simp add: rep_def insnlist_create_def)

lemma entry_insn_frame:
  "map_option e_insn (heap l' a) = map_option e_insn (heap l a) \<Longrightarrow> a \<in> dom (heap l) \<Longrightarrow>
   entry_insn l' a = entry_insn l a"
  by (auto simp: entry_insn_def)

subsection \<open>The insertions refine insertions in the sequence\<close>

lemma tlist_insert_after_heap:
  assumes h: "heap l p = Some e" and n: "n \<noteq> p" "heap l n = Some en" "le_next e \<noteq> Some n" "le_next e \<noteq> Some p"
  shows "tlist_insert_after p n l = Inr (l\<lparr>heap :=
     (relink (le_next e) (PNext n) (heap l))
       (p \<mapsto> e\<lparr>le_next := Some n\<rparr>, n \<mapsto> en\<lparr>le_next := le_next e, le_prev := PNext p\<rparr>)\<rparr>)"
  using assms
  by (cases "le_next e") (auto simp: tlist_insert_after_def upd_entry_def relink_def fun_eq_iff Let_def)

lemma tlist_insert_head_heap:
  assumes n: "heap l n = Some en" "lh_first l \<noteq> Some n"
  shows "tlist_insert_head n l = l\<lparr>heap :=
     (relink (lh_first l) (PNext n) (heap l))(n \<mapsto> en\<lparr>le_next := lh_first l, le_prev := PHead\<rparr>),
     lh_first := Some n\<rparr>"
  using assms
  by (cases "lh_first l") (auto simp: tlist_insert_head_def upd_entry_def relink_def fun_eq_iff Let_def)

lemma seg_insert_after:
  assumes s: "seg h PHead f (xs @ p # ys) d None" and di: "distinct (xs @ p # ys)"
    and n: "n \<notin> set (xs @ p # ys)" and e: "h p = Some e"
  shows "\<exists>d'. seg ((relink (le_next e) (PNext n) h)
       (p \<mapsto> e\<lparr>le_next := Some n\<rparr>, n \<mapsto> \<lparr>e_insn = i, le_next = le_next e, le_prev = PNext p\<rparr>))
     PHead f (xs @ p # n # ys) d' None"
proof -
  let ?h = "(relink (le_next e) (PNext n) h)
       (p \<mapsto> e\<lparr>le_next := Some n\<rparr>, n \<mapsto> \<lparr>e_insn = i, le_next = le_next e, le_prev = PNext p\<rparr>)"
  from s e obtain c where sx: "seg h PHead f xs c (Some p)" and c: "le_prev e = c"
    and sy: "seg h (PNext p) (le_next e) ys d None"
    by (auto simp: seg_append)
  have nx: "le_next e = (if ys = [] then None else Some (hd ys))" using seg_first [OF sy] .
  obtain d' where r: "seg (relink (le_next e) (PNext n) h) (PNext n) (le_next e) ys d' None"
    using seg_relink [OF sy] di by auto
  have "seg ?h (PNext n) (le_next e) ys d' None"
    using r di n by (subst seg_frame [where h = "relink (le_next e) (PNext n) h"]) auto
  moreover have "seg ?h PHead f xs c (Some p)"
    using sx di n nx by (subst seg_frame [where h = h]) (auto simp: relink_def split: if_splits)
  ultimately show ?thesis using n c by (auto simp: seg_append intro!: exI [of _ d'])
qed

lemma rep_fresh: "rep l as \<Longrightarrow> brk l \<notin> set as \<and> heap l (brk l) = None"
  by (force simp: rep_def)

lemma dom_relink [simp]: "dom (relink nx c h) = dom h"
  by (auto simp: relink_def split: option.splits if_splits)

lemma insn_relink [simp]: "map_option e_insn (relink nx c h a) = map_option e_insn (h a)"
  by (auto simp: relink_def option.map_comp comp_def split: option.splits)

lemma refine_insert_after:
  assumes r: "rep l as" and p: "p \<in> set as"
  shows "\<exists>l'. insnlist_insert_after l (Some p) i = Inr (Some (brk l), l') \<and>
     rep l' (ins_after p (brk l) as) \<and> brk l' = Suc (brk l) \<and>
     entry_insn l' (brk l) = i \<and> (\<forall>a \<in> set as. entry_insn l' a = entry_insn l a)"
proof -
  let ?n = "brk l"
  obtain xs ys where as: "as = xs @ p # ys" and pxs: "p \<notin> set xs" using p by (meson split_list_first)
  have ne: "as \<noteq> []" using p by auto
  obtain d where s: "seg (heap l) PHead (lh_first l) as d None" and di: "distinct as"
    and dm: "dom (heap l) = set as" and tl: "tail l = Some (last as)"
    using r ne by (auto simp: rep_def)
  have n: "?n \<notin> set as" and hn: "heap l ?n = None" using rep_fresh [OF r] by auto
  obtain e where e: "heap l p = Some e" using p dm by auto
  have sy: "seg (heap l) (PNext p) (le_next e) ys d None" using s e as by (auto simp: seg_append)
  have nx: "le_next e = (if ys = [] then None else Some (hd ys))" using seg_first [OF sy] .
  let ?l0 = "snd (zalloc_entry i l)"
  let ?new = "\<lparr>e_insn = i, le_next = le_next e, le_prev = PNext p\<rparr>"
  let ?h = "(relink (le_next e) (PNext ?n) (heap l))(p \<mapsto> e\<lparr>le_next := Some ?n\<rparr>, ?n \<mapsto> ?new)"
  have nxn: "le_next e \<noteq> Some ?n" "le_next e \<noteq> Some p"
    using nx n as di by (cases ys; auto)+
  have "relink (le_next e) (PNext ?n) ((heap l)(?n := x)) =
      (relink (le_next e) (PNext ?n) (heap l))(?n := x)" for x
    using nxn by (auto simp: relink_def fun_eq_iff split: option.splits)
  moreover have pn: "p \<noteq> ?n" using n p by auto
  ultimately have t: "tlist_insert_after p ?n ?l0 = Inr (?l0\<lparr>heap := ?h\<rparr>)"
    using e nxn
    by (subst tlist_insert_after_heap [where e = e and en = "\<lparr>e_insn = i, le_next = None, le_prev = PNull\<rparr>"])
       (auto simp: zalloc_entry_def fun_upd_twist)
  obtain d' where s': "seg ?h PHead (lh_first l) (xs @ p # ?n # ys) d' None"
    using seg_insert_after [OF s [unfolded as] di [unfolded as] n [unfolded as] e] by blast
  have ia: "ins_after p ?n as = xs @ p # ?n # ys" using as pxs by (simp add: ins_after_split)
  have lst: "last (xs @ p # ?n # ys) = (if last as = p then ?n else last as)"
    using di as by auto
  let ?l' = "l\<lparr>heap := ?h, brk := Suc ?n, tail := (if tail l = Some p then Some ?n else tail l),
                insn_count := insn_count l + 1\<rparr>"
  have "insnlist_insert_after l (Some p) i = Inr (Some ?n, ?l')"
    using t tl by (simp add: insnlist_insert_after_def zalloc_entry_def)
  moreover have "dom ?h = insert ?n (set as)" using dm p by auto
  then have "rep ?l' (ins_after p ?n as)"
    using s' r tl lst ia di n as dm by (auto simp: rep_def less_Suc_eq)
  moreover have "\<forall>a \<in> set as. entry_insn ?l' a = entry_insn l a"
  proof (intro ballI entry_insn_frame)
    fix a assume a: "a \<in> set as"
    then show "a \<in> dom (heap l)" by (simp only: dm)
    show "map_option e_insn (heap ?l' a) = map_option e_insn (heap l a)"
      using a n e by auto
  qed
  ultimately show ?thesis by (auto simp: entry_insn_def)
qed

text \<open>Inserting at the head, as the code does for an empty list or before the first entry.\<close>

lemma head_rep:
  fixes i :: 'i
  assumes r: "rep l as"
  defines "l' \<equiv> tlist_insert_head (brk l) (snd (zalloc_entry i l))"
  shows "\<exists>d. seg (heap l') PHead (lh_first l') (brk l # as) d None"
    and "dom (heap l') = insert (brk l) (set as)"
    and "lh_first l' = Some (brk l)" and "brk l' = Suc (brk l)"
    and "tail l' = tail l" and "insn_count l' = insn_count l"
    and "entry_insn l' (brk l) = i" and "\<forall>a \<in> set as. entry_insn l' a = entry_insn l a"
proof -
  let ?n = "brk l" and ?l0 = "snd (zalloc_entry i l)"
  let ?en = "\<lparr>e_insn = i, le_next = lh_first l, le_prev = PHead\<rparr>"
  obtain d where s: "seg (heap l) PHead (lh_first l) as d None" and di: "distinct as"
    and dm: "dom (heap l) = set as" using r by (auto simp: rep_def)
  have n: "?n \<notin> set as" and hn: "heap l ?n = None" using rep_fresh [OF r] by auto
  have nx: "lh_first l = (if as = [] then None else Some (hd as))" using seg_first [OF s] .
  then have fn: "lh_first l \<noteq> Some ?n" using n by (cases as) auto
  have "relink (lh_first l) (PNext ?n) ((heap l)(?n := x)) =
      (relink (lh_first l) (PNext ?n) (heap l))(?n := x)" for x
    using fn by (auto simp: relink_def fun_eq_iff split: option.splits)
  then have l': "l' = l\<lparr>heap := (relink (lh_first l) (PNext ?n) (heap l))(?n \<mapsto> ?en),
      brk := Suc ?n, lh_first := Some ?n\<rparr>"
    using fn unfolding l'_def
    by (subst tlist_insert_head_heap [where en = "\<lparr>e_insn = i, le_next = None, le_prev = PNull\<rparr>"])
       (simp_all add: zalloc_entry_def)
  obtain d' where "seg (relink (lh_first l) (PNext ?n) (heap l)) (PNext ?n) (lh_first l) as d' None"
    using seg_relink [OF s di] by auto
  then have "seg (heap l') (PNext ?n) (lh_first l) as d' None"
    using n unfolding l' by (subst seg_frame [where h = "relink (lh_first l) (PNext ?n) (heap l)"]) auto
  then show "\<exists>d. seg (heap l') PHead (lh_first l') (?n # as) d None" by (auto simp: l')
  show "dom (heap l') = insert ?n (set as)" "lh_first l' = Some ?n" "brk l' = Suc ?n"
    "tail l' = tail l" "insn_count l' = insn_count l" "entry_insn l' ?n = i"
    using dm by (auto simp: l' entry_insn_def)
  show "\<forall>a \<in> set as. entry_insn l' a = entry_insn l a"
  proof (intro ballI entry_insn_frame)
    fix a assume a: "a \<in> set as"
    then show "a \<in> dom (heap l)" by (simp only: dm)
    show "map_option e_insn (heap l' a) = map_option e_insn (heap l a)"
      using a n by (auto simp: l')
  qed
qed

lemma refine_insert_first:
  assumes r: "rep l []"
  shows "\<exists>l'. insnlist_insert_after l None i = Inr (Some (brk l), l') \<and>
       insnlist_insert_before l None i = Inr (Some (brk l), l') \<and>
       rep l' [brk l] \<and> brk l' = Suc (brk l) \<and> entry_insn l' (brk l) = i"
proof -
  let ?l1 = "tlist_insert_head (brk l) (snd (zalloc_entry i l))"
  let ?l2 = "?l1\<lparr>tail := lh_first ?l1, insn_count := insn_count ?l1 + 1\<rparr>"
  have t: "tail l = None" "insn_count l = 0" using r by (auto simp: rep_def)
  have "fst (zalloc_entry i l) = brk l" by (simp add: zalloc_entry_def)
  then have "insnlist_insert_after l None i = Inr (Some (brk l), ?l2)"
    "insnlist_insert_before l None i = Inr (Some (brk l), ?l2)"
    using t by (auto simp: insnlist_insert_after_def insnlist_insert_before_def Let_def case_prod_unfold)
  moreover have "rep ?l2 [brk l]" using head_rep [OF r, of i] t by (simp add: rep_def)
  moreover have "entry_insn ?l2 (brk l) = i" using head_rep(7) [OF r, of i] by (simp add: entry_insn_def)
  ultimately show ?thesis using head_rep(4) [OF r, of i] by auto
qed

text \<open>
  Inserting before an entry other than the first writes the same cells as inserting after its
  predecessor.
\<close>

lemma insert_before_is_after:
  assumes "heap l p = Some e" "le_prev e = PNext q" "heap l q = Some eq" "le_next eq = Some p"
    and "p \<noteq> q" "p \<noteq> n" "q \<noteq> n" "heap l n = Some en"
  shows "tlist_insert_before p n l = tlist_insert_after q n l"
  using assms
  by (auto simp: tlist_insert_before_def tlist_insert_after_def upd_entry_def store_ptr_def
      Let_def fun_eq_iff)

lemma refine_insert_before:
  assumes r: "rep l as" and p: "p \<in> set as"
  shows "\<exists>l'. insnlist_insert_before l (Some p) i = Inr (Some (brk l), l') \<and>
     rep l' (ins_before p (brk l) as) \<and> brk l' = Suc (brk l) \<and>
     entry_insn l' (brk l) = i \<and> (\<forall>a \<in> set as. entry_insn l' a = entry_insn l a)"
proof -
  let ?n = "brk l"
  obtain xs ys where as: "as = xs @ p # ys" and pxs: "p \<notin> set xs" using p by (meson split_list_first)
  obtain d where s: "seg (heap l) PHead (lh_first l) as d None" and di: "distinct as"
    using r by (auto simp: rep_def)
  have n: "?n \<notin> set as" and hn: "heap l ?n = None" using rep_fresh [OF r] by auto
  have ne: "p \<noteq> ?n" using n p by auto
  show ?thesis
  proof (cases xs rule: rev_cases)
    case Nil
    let ?l0 = "snd (zalloc_entry i l)"
    let ?l1 = "tlist_insert_head ?n ?l0"
    let ?l2 = "?l1\<lparr>insn_count := insn_count ?l1 + 1\<rparr>"
    obtain e where e: "heap l p = Some e" "le_prev e = PHead" "lh_first l = Some p"
      using s as Nil by auto
    have "tlist_insert_before p ?n ?l0 = Inr ?l1"
      using e ne by (auto simp: tlist_insert_before_def tlist_insert_head_def zalloc_entry_def
          upd_entry_def store_ptr_def Let_def fun_eq_iff)
    then have "insnlist_insert_before l (Some p) i = Inr (Some ?n, ?l2)"
      by (simp add: insnlist_insert_before_def zalloc_entry_def)
    moreover have "rep ?l2 (?n # as)"
      using head_rep(1) [OF r, of i] head_rep(2-6) [OF r, of i] r n p unfolding rep_def
      by (simp add: less_SucI) (use p in auto)
    ultimately show ?thesis
      using head_rep(4,7,8) [OF r, of i] as Nil by (simp add: entry_insn_def)
  next
    case (snoc zs q)
    obtain e eq where h: "heap l p = Some e" "le_prev e = PNext q" "heap l q = Some eq" "le_next eq = Some p"
      using s as snoc by (auto simp: seg_append)
    have q: "q \<noteq> p" "q \<noteq> ?n" "q \<in> set as" using as snoc di n by auto
    have tl: "tail l \<noteq> Some q" using r as snoc di by (auto simp: rep_def)
    have "tlist_insert_before p ?n (snd (zalloc_entry i l)) = tlist_insert_after q ?n (snd (zalloc_entry i l))"
      using h q ne
      by (intro insert_before_is_after
          [where e = e and eq = eq and en = "\<lparr>e_insn = i, le_next = None, le_prev = PNull\<rparr>"])
         (auto simp: zalloc_entry_def)
    moreover have "tail l' = tail l" if "tlist_insert_after q ?n (snd (zalloc_entry i l)) = Inr l'" for l'
      using that by (auto simp: tlist_insert_after_def zalloc_entry_def upd_entry_def Let_def split: option.splits)
    ultimately have "insnlist_insert_before l (Some p) i = insnlist_insert_after l (Some q) i"
      using tl by (cases "tlist_insert_after q ?n (snd (zalloc_entry i l))")
        (auto simp: insnlist_insert_before_def insnlist_insert_after_def zalloc_entry_def)
    moreover have "ins_before p ?n as = ins_after q ?n as"
      using as snoc di ins_before_split [of p "zs @ [q]" ?n ys] by (simp add: ins_after_split)
    ultimately show ?thesis using refine_insert_after [OF r q(3), of i] by simp
  qed
qed

lemma refine_insert_tail:
  assumes r: "rep l as"
  shows "\<exists>l'. insnlist_insert_tail l i = Inr (Some (brk l), l') \<and>
     rep l' (as @ [brk l]) \<and> brk l' = Suc (brk l) \<and>
     entry_insn l' (brk l) = i \<and> (\<forall>a \<in> set as. entry_insn l' a = entry_insn l a)"
proof (cases as rule: rev_cases)
  case Nil
  then have "tail l = None" using r by (simp add: rep_def)
  then have "insnlist_insert_tail l i = insnlist_insert_after l None i"
    by (simp add: insnlist_insert_tail_def insnlist_insert_after_def zalloc_entry_def)
  then show ?thesis using refine_insert_first [OF r [unfolded Nil], of i] Nil by auto
next
  case (snoc zs t)
  then have tl: "tail l = Some t" and di: "distinct as" using r by (auto simp: rep_def)
  have "tail l' = tail l" if "tlist_insert_after t (brk l) (snd (zalloc_entry i l)) = Inr l'" for l'
    using that by (auto simp: tlist_insert_after_def zalloc_entry_def upd_entry_def Let_def split: option.splits)
  then have "insnlist_insert_tail l i = insnlist_insert_after l (Some t) i"
    using tl by (cases "tlist_insert_after t (brk l) (snd (zalloc_entry i l))")
      (auto simp: insnlist_insert_tail_def insnlist_insert_after_def zalloc_entry_def)
  moreover have "ins_after t (brk l) as = as @ [brk l]"
    using snoc di by (simp add: ins_after_split)
  ultimately show ?thesis using refine_insert_after [OF r, of t i] snoc by simp
qed

subsection \<open>Clearing the list\<close>

lemma clear_step:
  assumes s: "seg (heap l) PHead (lh_first l) (a # as) d None" and di: "distinct (a # as)"
    and dm: "dom (heap l) = set (a # as)"
  shows "\<exists>l' d'. tlist_remove a l = Inr l' \<and>
     seg ((heap l')(a := None)) PHead (lh_first l') as d' None \<and>
     dom ((heap l')(a := None)) = set as \<and> brk l' = brk l"
proof -
  obtain e where e: "heap l a = Some e" "le_prev e = PHead" "lh_first l = Some a"
    and t: "seg (heap l) (PNext a) (le_next e) as d None" using s by auto
  have nx: "le_next e = (if as = [] then None else Some (hd as))" using seg_first [OF t] .
  then have na: "le_next e \<noteq> Some a" using di by (cases as) auto
  let ?h = "relink (le_next e) PHead (heap l)"
  have "tlist_remove a l = Inr (l\<lparr>lh_first := le_next e,
      heap := ?h(a \<mapsto> e\<lparr>le_next := None, le_prev := PNull\<rparr>)\<rparr>)"
    using e na by (cases "le_next e")
      (auto simp: tlist_remove_def store_ptr_def upd_entry_def relink_def Let_def fun_eq_iff)
  moreover obtain d' where "seg ?h PHead (le_next e) as d' None"
    using seg_relink [OF t] di by auto
  then have "seg (?h(a := None)) PHead (le_next e) as d' None"
    using di by (subst seg_frame [where h = ?h]) auto
  moreover have "dom (?h(a := None)) = set as" using dm di by auto
  ultimately show ?thesis by auto
qed

lemma clear_loop_empties:
  assumes "seg (heap l) PHead (lh_first l) as d None" "distinct as" "dom (heap l) = set as"
    and "length as \<le> k"
  shows "\<exists>l'. clear_loop k l = Inr l' \<and> lh_first l' = None \<and> heap l' = Map.empty \<and> brk l' = brk l"
  using assms
proof (induction as arbitrary: l d k)
  case Nil
  then show ?case by (simp add: clear_loop.simps [of k])
next
  case (Cons a as)
  obtain j where k: "k = Suc j" using Cons.prems(4) by (cases k) auto
  obtain l' d' where r: "tlist_remove a l = Inr l'"
    and s: "seg ((heap l')(a := None)) PHead (lh_first l') as d' None"
    and dm: "dom ((heap l')(a := None)) = set as" and b: "brk l' = brk l"
    using clear_step [OF Cons.prems(1-3)] by blast
  have "lh_first l = Some a" using Cons.prems(1) by simp
  moreover have "\<exists>l''. clear_loop j (l'\<lparr>heap := (heap l')(a := None)\<rparr>) = Inr l'' \<and>
      lh_first l'' = None \<and> heap l'' = Map.empty \<and> brk l'' = brk l'"
    using Cons.IH [of "l'\<lparr>heap := (heap l')(a := None)\<rparr>" d' j] s dm k Cons.prems(2,4)
    by (simp del: fun_upd_apply dom_fun_upd)
  ultimately show ?case
    using r b k by (auto simp: clear_loop.simps [of "Suc j"])
qed

lemma refine_clear:
  assumes r: "rep l as"
  shows "\<exists>l'. insnlist_clear l = Inr l' \<and> rep l' [] \<and> brk l' = brk l"
proof -
  have "set as \<subseteq> {..<brk l}" "distinct as" using r by (auto simp: rep_def)
  then have "length as \<le> brk l"
    using card_mono [of "{..<brk l}" "set as"] by (simp add: distinct_card)
  then show ?thesis
    using clear_loop_empties [of l as _ "brk l"] r by (fastforce simp: rep_def insnlist_clear_def)
qed

subsection \<open>The interface of an instruction sequence\<close>

text \<open>
  What the rest of the generator relies on: the list denotes a sequence of numbered
  instructions, an insertion puts one new instruction, with a number larger than every number in
  use, at the place asked for, and hands its number back.
\<close>

definition put_after :: "nat \<Rightarrow> nat \<times> 'i \<Rightarrow> (nat \<times> 'i) list \<Rightarrow> (nat \<times> 'i) list" where
  "put_after p x xs = concat (map (\<lambda>y. if fst y = p then [y, x] else [y]) xs)"

definition put_before :: "nat \<Rightarrow> nat \<times> 'i \<Rightarrow> (nat \<times> 'i) list \<Rightarrow> (nat \<times> 'i) list" where
  "put_before p x xs = concat (map (\<lambda>y. if fst y = p then [x, y] else [y]) xs)"

lemma put_absent: "p \<notin> fst ` set xs \<Longrightarrow> put_after p x xs = xs \<and> put_before p x xs = xs"
  by (induction xs) (auto simp: put_after_def put_before_def)

lemma put_after_split:
  "distinct (map fst (ys @ (p, i) # zs)) \<Longrightarrow> put_after p x (ys @ (p, i) # zs) = ys @ (p, i) # x # zs"
  using put_absent [of p ys x] put_absent [of p zs x] by (auto simp: put_after_def)

lemma put_before_split:
  "distinct (map fst (ys @ (p, i) # zs)) \<Longrightarrow> put_before p x (ys @ (p, i) # zs) = ys @ x # (p, i) # zs"
  using put_absent [of p ys x] put_absent [of p zs x] by (auto simp: put_before_def)

locale insn_seq =
  fixes content :: "'l \<Rightarrow> (nat \<times> 'i) list \<Rightarrow> bool"
    and fresh :: "'l \<Rightarrow> nat"
    and ins_aft :: "'l \<Rightarrow> nat option \<Rightarrow> 'i \<Rightarrow> (nat option \<times> 'l) res"
    and ins_bef :: "'l \<Rightarrow> nat option \<Rightarrow> 'i \<Rightarrow> (nat option \<times> 'l) res"
    and ins_tail :: "'l \<Rightarrow> 'i \<Rightarrow> (nat option \<times> 'l) res"
  assumes content_distinct: "content l xs \<Longrightarrow> distinct (map fst xs)"
    and content_fresh: "content l xs \<Longrightarrow> x \<in> set xs \<Longrightarrow> fst x < fresh l"
    and after: "content l xs \<Longrightarrow> p \<in> fst ` set xs \<Longrightarrow>
      \<exists>l'. ins_aft l (Some p) i = Inr (Some (fresh l), l') \<and>
        content l' (put_after p (fresh l, i) xs) \<and> fresh l' = Suc (fresh l)"
    and before: "content l xs \<Longrightarrow> p \<in> fst ` set xs \<Longrightarrow>
      \<exists>l'. ins_bef l (Some p) i = Inr (Some (fresh l), l') \<and>
        content l' (put_before p (fresh l, i) xs) \<and> fresh l' = Suc (fresh l)"
    and first: "content l [] \<Longrightarrow> pos = ins_aft \<or> pos = ins_bef \<Longrightarrow>
      \<exists>l'. pos l None i = Inr (Some (fresh l), l') \<and> content l' [(fresh l, i)] \<and>
        fresh l' = Suc (fresh l)"
    and at_tail: "content l xs \<Longrightarrow>
      \<exists>l'. ins_tail l i = Inr (Some (fresh l), l') \<and> content l' (xs @ [(fresh l, i)]) \<and>
        fresh l' = Suc (fresh l)"
begin

lemma after_split:
  assumes "content l (ys @ (p, j) # zs)"
  obtains l' where "ins_aft l (Some p) i = Inr (Some (fresh l), l')"
    "content l' (ys @ (p, j) # (fresh l, i) # zs)" "fresh l' = Suc (fresh l)"
proof -
  have "p \<in> fst ` set (ys @ (p, j) # zs)" by simp
  from after [OF assms this, of i] that show ?thesis
    using put_after_split [OF content_distinct [OF assms]] by metis
qed

lemma before_split:
  assumes "content l (ys @ (p, j) # zs)"
  obtains l' where "ins_bef l (Some p) i = Inr (Some (fresh l), l')"
    "content l' (ys @ (fresh l, i) # (p, j) # zs)" "fresh l' = Suc (fresh l)"
proof -
  have "p \<in> fst ` set (ys @ (p, j) # zs)" by simp
  from before [OF assms this, of i] that show ?thesis
    using put_before_split [OF content_distinct [OF assms]] by metis
qed

text \<open>
  Inserting one instruction after another, each after the one before, splices the whole run in
  behind the starting point, numbered in order.
\<close>

fun ins_run :: "'l \<Rightarrow> nat option \<Rightarrow> 'i list \<Rightarrow> (nat option \<times> 'l) res" where
  "ins_run l p [] = Inr (p, l)"
| "ins_run l p (i # is) = bnd (ins_aft l p i) (\<lambda>(p, l). ins_run l p is)"

lemma ins_run_splices:
  assumes "content l (ys @ (p, j) # zs)"
  shows "\<exists>l'. ins_run l (Some p) is = Inr (Some (if is = [] then p else fresh l' - 1), l') \<and>
    content l' (ys @ (p, j) # zip [fresh l..<fresh l'] is @ zs) \<and> fresh l' = fresh l + length is"
  using assms
proof (induction "is" arbitrary: l ys p j)
  case Nil
  then show ?case by simp
next
  case (Cons i "is")
  obtain l1 where l1: "ins_aft l (Some p) i = Inr (Some (fresh l), l1)"
    "content l1 (ys @ (p, j) # (fresh l, i) # zs)" "fresh l1 = Suc (fresh l)"
    using after_split [OF Cons.prems] .
  obtain l' where l': "ins_run l1 (Some (fresh l)) is = Inr (Some (if is = [] then fresh l else fresh l' - 1), l')"
    "content l' ((ys @ [(p, j)]) @ (fresh l, i) # zip [fresh l1..<fresh l'] is @ zs)"
    "fresh l' = fresh l1 + length is"
    using Cons.IH [of l1 "ys @ [(p, j)]" "fresh l" i] l1 by auto
  have "[fresh l..<fresh l'] = fresh l # [fresh l1..<fresh l']"
    using l'(3) l1(3) upt_conv_Cons [of "fresh l" "fresh l'"] by simp
  then show ?case using l1 l' by auto
qed

end

text \<open>The list of the program provides the interface.\<close>

definition seq_content :: "'i insnlist \<Rightarrow> (nat \<times> 'i) list \<Rightarrow> bool" where
  "seq_content l xs \<longleftrightarrow> rep l (map fst xs) \<and> (\<forall>x \<in> set xs. entry_insn l (fst x) = snd x)"

lemma seq_content_insns: "seq_content l xs \<Longrightarrow> insnlist_insns l = map snd xs"
  by (auto simp: seq_content_def insnlist_insns_def dest: rep_entries)

lemma map_fst_put:
  "distinct (map fst xs) \<Longrightarrow> map fst (put_after p x xs) = ins_after p (fst x) (map fst xs)"
  "distinct (map fst xs) \<Longrightarrow> map fst (put_before p x xs) = ins_before p (fst x) (map fst xs)"
  using put_absent [of p _ x]
  by (induction xs) (auto simp: put_after_def put_before_def)

lemma set_put: "p \<in> fst ` set xs \<Longrightarrow> set (put_after p x xs) = insert x (set xs) \<and>
    set (put_before p x xs) = insert x (set xs)"
  by (auto simp: put_after_def put_before_def split: if_splits)

interpretation il: insn_seq seq_content brk insnlist_insert_after insnlist_insert_before insnlist_insert_tail
proof (unfold_locales, goal_cases)
  case (1 l xs)
  then show ?case by (simp add: seq_content_def rep_def)
next
  case (2 l xs x)
  then show ?case by (auto simp: seq_content_def rep_def)
next
  case (3 l xs p i)
  then have r: "rep l (map fst xs)" "p \<in> set (map fst xs)" and d: "distinct (map fst xs)"
    by (auto simp: seq_content_def rep_def)
  show ?case using refine_insert_after [OF r, of i] 3 map_fst_put(1) [OF d] set_put [OF 3(2)]
    by (fastforce simp: seq_content_def)
next
  case (4 l xs p i)
  then have r: "rep l (map fst xs)" "p \<in> set (map fst xs)" and d: "distinct (map fst xs)"
    by (auto simp: seq_content_def rep_def)
  show ?case using refine_insert_before [OF r, of i] 4 map_fst_put(2) [OF d] set_put [OF 4(2)]
    by (fastforce simp: seq_content_def)
next
  case (5 l pos i)
  then have "rep l []" by (simp add: seq_content_def)
  from refine_insert_first [OF this, of i] 5(2) show ?case by (auto simp: seq_content_def)
next
  case (6 l xs i)
  then have "rep l (map fst xs)" by (simp add: seq_content_def)
  from refine_insert_tail [OF this, of i] 6 show ?case by (fastforce simp: seq_content_def)
qed

subsection \<open>Properties\<close>

text \<open>
  C17: On a list that represents a sequence of instructions, inserting after or before an entry of
  it, or at the tail, succeeds, hands back a fresh entry, and leaves a list that represents the
  sequence with the new instruction at exactly that place and every other entry, with its
  contents, where it was; the pointers, the tail and the count are consistent again.
\<close>

theorem insert_spec:
  assumes "seq_content l xs" and "p \<in> fst ` set xs"
  shows "(\<exists>l'. insnlist_insert_after l (Some p) i = Inr (Some (brk l), l') \<and>
       seq_content l' (put_after p (brk l, i) xs) \<and> insnlist_insns l' = map snd (put_after p (brk l, i) xs)) \<and>
     (\<exists>l'. insnlist_insert_before l (Some p) i = Inr (Some (brk l), l') \<and>
       seq_content l' (put_before p (brk l, i) xs) \<and> insnlist_insns l' = map snd (put_before p (brk l, i) xs)) \<and>
     (\<exists>l'. insnlist_insert_tail l i = Inr (Some (brk l), l') \<and>
       seq_content l' (xs @ [(brk l, i)]) \<and> insnlist_insns l' = map snd xs @ [i]) \<and>
     brk l \<notin> fst ` set xs"
proof (intro conjI)
  show "brk l \<notin> fst ` set xs" using il.content_fresh [OF assms(1)] by fastforce
qed (use il.after [OF assms, of i] il.before [OF assms, of i] il.at_tail [OF assms(1), of i] in
      \<open>auto dest: seq_content_insns simp: seq_content_insns [of _ "xs @ [(brk l, i)]"]\<close>)

lemma singleton_content:
  "seq_content (snd (projr (insnlist_insert_tail insnlist_create i))) [(0, i)]"
  by (simp add: seq_content_def rep_def insnlist_insert_tail_def insnlist_create_def zalloc_entry_def
      tlist_insert_head_def upd_entry_def entry_insn_def Let_def)

theorem insert_spec_witness:
  "let l = snd (projr (insnlist_insert_tail insnlist_create (7 :: nat))) in
   (\<exists>l'. insnlist_insert_after l (Some 0) 9 = Inr (Some 1, l') \<and> insnlist_insns l' = [7, 9]) \<and>
   (\<exists>l'. insnlist_insert_before l (Some 0) 9 = Inr (Some 1, l') \<and> insnlist_insns l' = [9, 7])"
proof -
  let ?l = "snd (projr (insnlist_insert_tail insnlist_create (7 :: nat)))"
  have "brk ?l = 1"
    by (simp add: insnlist_insert_tail_def insnlist_create_def zalloc_entry_def
      tlist_insert_head_def upd_entry_def Let_def)
  then show ?thesis
    using insert_spec [OF singleton_content [of "7 :: nat"], of 0 9]
    by (auto simp: put_after_def put_before_def Let_def)
qed

text \<open>
  C24: Clearing a list that represents a sequence, however long, ends, releases every entry and
  leaves a list that represents the empty sequence, ready for the next program.
\<close>

theorem clear_spec:
  assumes "seq_content l xs"
  shows "\<exists>l'. insnlist_clear l = Inr l' \<and> seq_content l' [] \<and> heap l' = Map.empty"
  using refine_clear [of l "map fst xs"] assms by (auto simp: seq_content_def rep_def)

theorem clear_spec_witness:
  "\<exists>l'. insnlist_clear (snd (projr (insnlist_insert_tail insnlist_create (7 :: nat)))) = Inr l' \<and>
     seq_content l' []"
  using clear_spec [OF singleton_content [of 7]] by blast

end
