(* ===== verification/Insn.thy ===== *)
theory Insn
  imports Prelude
begin

text \<open>
  The instruction data of \<open>include/nasm.h\<close>.  The enumerations of opcodes, registers and prefixes
  are generated from data files; an element is represented by the name it was generated from
  (\<open>I_JMP\<close> is \<open>I ''jmp''\<close>, \<open>R_ECX\<close> is \<open>R ''ecx''\<close>), so the generated name tables are the
  selectors below.
\<close>

datatype opcode = I_none | I string

datatype reg = R string

datatype prefix = P string

definition nasm_insn_names :: "opcode \<Rightarrow> string" where
  "nasm_insn_names opc = (case opc of I_none \<Rightarrow> '''' | I s \<Rightarrow> s)"

definition nasm_reg_names :: "reg \<Rightarrow> string" where
  "nasm_reg_names r = (case r of R s \<Rightarrow> s)"

type_synonym opflags = "64 word"

datatype eval_hint = EAH_NOHINT | EAH_MAKEBASE | EAH_NOTBASE | EAH_SUMMED

record operand =
  op_type :: opflags
  op_disp_size :: int
  op_basereg :: "reg option"
  op_indexreg :: "reg option"
  op_scale :: "32 word"
  op_hintbase :: "reg option"
  op_hinttype :: eval_hint
  op_segment :: int
  op_offset :: "64 word"
  op_wrt :: int
  op_eaflags :: int
  op_opflags :: "32 word"
  op_decoflags :: "16 word"

text \<open>
  The fields of \<open>insn\<close> that the generator reads or writes; the encoder's scratch fields
  (\<open>rex\<close>, \<open>vexreg\<close>, \<open>evex_p\<close>, \<dots>) are not state of the generator.
\<close>

record insn =
  ctrl :: "string option"
  prefixes :: "prefix option list"
  opcode_of :: opcode
  condition :: int
  operands :: int
  oprs :: "operand list"
  times :: int
  evex_rm :: int
  evex_brerop :: int

definition MAX_OPERANDS :: nat where
  "MAX_OPERANDS = 5"

text \<open>
  An instruction whose fields other than \<open>ctrl\<close> hold nothing of interest, as the automatic
  variable of \<open>one_insn_gen_ctrl\<close>.
\<close>

definition blank_insn :: insn where
  "blank_insn = \<lparr>ctrl = None, prefixes = [], opcode_of = I_none, condition = 0, operands = 0,
     oprs = [], times = 0, evex_rm = 0, evex_brerop = 0\<rparr>"

end
