(* ===== verification/Rng.thy ===== *)
theory Rng
  imports Prelude "HOL-Library.Stream" "HOL-Library.Log_Nat"
begin

text \<open>
  The random choices of \<open>nasmlib/random.c\<close>.  The C library's \<open>rand\<close> is an input of the model:
  a stream of values, each call consuming one and yielding a number in 0..RAND\_MAX with the
  RAND\_MAX of 2 ^ 31 - 1 that \<open>nasm_random64\<close> relies on when it shifts by 31.
\<close>

type_synonym rng = "nat stream"

definition rand :: "rng \<Rightarrow> int \<times> rng" where
  "rand r = (int (shd r mod 2 ^ 31), stl r)"

lemma rand_range: "fst (rand r) \<in> {0..<2 ^ 31}"
proof -
  have "shd r mod 2 ^ 31 < 2 ^ 31" by simp
  then have "int (shd r mod 2 ^ 31) < int (2 ^ 31)" using of_nat_less_iff by blast
  then show ?thesis by (simp add: rand_def)
qed

text \<open>C's remainder by a bound: undefined for 0; the dividends here are never negative.\<close>

definition rem_bound :: "int \<Rightarrow> int \<Rightarrow> int res" where
  "rem_bound x b = (if b = 0 then Inl Undefined else Inr (x mod \<bar>b\<bar>))"

definition nasm_random32 :: "int \<Rightarrow> rng \<Rightarrow> (int \<times> rng) res" where
  "nasm_random32 bound r =
     (let (x, r) = rand r in bnd (rem_bound x bound) (\<lambda>rand32. Inr (rand32, r)))"

definition nasm_random64 :: "int \<Rightarrow> rng \<Rightarrow> (int \<times> rng) res" where
  "nasm_random64 bound r =
     (let (x0, r) = rand r; rand0 = x0 mod 2;
          (rand1, r) = rand r;
          (rand2, r) = rand r
      in bnd (rem_bound (or (or (push_bit 62 rand0) (push_bit 31 rand1)) rand2) bound)
           (\<lambda>rand64. Inr (rand64, r)))"

text \<open>
  A double is the rational it denotes.  The product \<open>precision_bound * p\<close> is rounded to 53
  significant bits, ties to even; below 1 the grid does not matter, because the conversion to
  \<open>int\<close> that follows truncates.
\<close>

type_synonym double = rat

definition round_even :: "rat \<Rightarrow> int" where
  "round_even x = (let f = \<lfloor>x\<rfloor>; d = x - of_int f in
     if d < 1 / 2 then f else if 1 / 2 < d then f + 1 else if even f then f else f + 1)"

definition ulp :: "rat \<Rightarrow> rat" where
  "ulp x = 2 ^ floorlog 2 (nat \<lfloor>x\<rfloor>) / 2 ^ 53"

definition fl_round :: "rat \<Rightarrow> rat" where
  "fl_round x = of_int (round_even (x / ulp x)) * ulp x"

definition pivot_of :: "double \<Rightarrow> int" where
  "pivot_of p = \<lfloor>fl_round (10000 * p)\<rfloor>"

definition likely_happen_p :: "double \<Rightarrow> rng \<Rightarrow> (bool \<times> rng) res" where
  "likely_happen_p p r =
     (if p \<le> 0 then Inr (False, r)
      else if p \<ge> 1 then Inr (True, r)
      else bnd (nasm_random32 10000 r) (\<lambda>(x, r). Inr (x < pivot_of p, r)))"

definition likely_happen_w :: "int \<Rightarrow> int \<Rightarrow> rng \<Rightarrow> (bool \<times> rng) res" where
  "likely_happen_w w total_w r =
     (if w < 0 \<or> w \<ge> 2147483647 \<or> total_w < 0 \<or> total_w > 2147483647 then Inr (False, r)
      else bnd (nasm_random32 total_w r) (\<lambda>(x, r). Inr (x < w, r)))"

subsection \<open>Ranges\<close>

lemma nasm_random32_range:
  assumes "nasm_random32 b r = Inr (x, r')"
  shows "0 \<le> x" and "x < \<bar>b\<bar>" and "r' = stl r"
  using assms by (auto simp: nasm_random32_def rem_bound_def rand_def split: if_splits)

lemma nasm_random32_total: "b \<noteq> 0 \<Longrightarrow> \<exists>x r'. nasm_random32 b r = Inr (x, r')"
  by (simp add: nasm_random32_def rem_bound_def case_prod_unfold Let_def)

lemma nasm_random32_hits:
  assumes "0 < b" "b \<le> 2 ^ 31" "0 \<le> x" "x < b"
  shows "nasm_random32 b (nat x ## r) = Inr (x, r)"
proof -
  have "nat x < nat (2 ^ 31)" using assms by (subst nat_less_eq_zless) auto
  then have "nat x < 2 ^ 31" by simp
  then show ?thesis using assms by (simp add: nasm_random32_def rem_bound_def rand_def)
qed

text \<open>The three draws of \<open>nasm_random64\<close> fill disjoint bit fields.\<close>

lemma or_push_bit_add:
  fixes a b :: int
  assumes "0 \<le> b" "b < 2 ^ n"
  shows "or (push_bit n a) b = push_bit n a + b"
proof -
  have "and (push_bit n a) b = 0"
  proof (rule bit_eqI)
    fix k
    have "\<not> bit b k" if "n \<le> k"
    proof -
      have "take_bit n b = b" using assms by (simp add: take_bit_int_eq_self)
      then have "bit b k \<longleftrightarrow> k < n \<and> bit b k" by (metis bit_take_bit_iff)
      then show ?thesis using that by simp
    qed
    then show "bit (and (push_bit n a) b) k = bit (0 :: int) k"
      by (auto simp: bit_simps not_le)
  qed
  then show ?thesis by (simp add: disjunctive_add_eq_or)
qed

lemma nasm_random64_value:
  assumes "b \<noteq> 0"
  shows "nasm_random64 b r =
    Inr ((int (shd r mod 2 ^ 31) mod 2 * 2 ^ 62 + int (shd (stl r) mod 2 ^ 31) * 2 ^ 31
          + int (shd (stl (stl r)) mod 2 ^ 31)) mod \<bar>b\<bar>, stl (stl (stl r)))"
proof -
  let ?a = "int (shd r mod 2 ^ 31) mod 2" and ?b = "int (shd (stl r) mod 2 ^ 31)"
  let ?c = "int (shd (stl (stl r)) mod 2 ^ 31)"
  have b: "0 \<le> ?b" "?b < 2 ^ 31" and c: "0 \<le> ?c" "?c < 2 ^ 31"
    using rand_range [of "stl r"] rand_range [of "stl (stl r)"] by (auto simp: rand_def)
  have "or (push_bit 62 ?a) (push_bit 31 ?b) = push_bit 62 ?a + push_bit 31 ?b"
    using b by (intro or_push_bit_add) (auto simp: push_bit_eq_mult)
  also have "\<dots> = push_bit 31 (push_bit 31 ?a + ?b)"
    by (simp add: push_bit_eq_mult algebra_simps)
  finally have "or (or (push_bit 62 ?a) (push_bit 31 ?b)) ?c = push_bit 31 (push_bit 31 ?a + ?b) + ?c"
    using c by (simp add: or_push_bit_add)
  then show ?thesis
    using assms by (simp add: nasm_random64_def rand_def rem_bound_def push_bit_eq_mult algebra_simps)
qed

subsection \<open>The pivot of a probability\<close>

lemma round_even_le: "x \<le> of_int n \<Longrightarrow> round_even x \<le> n"
proof -
  assume x: "x \<le> of_int n"
  then have f: "\<lfloor>x\<rfloor> \<le> n" by (simp add: floor_le_iff)
  show ?thesis
  proof (cases "\<lfloor>x\<rfloor> = n")
    case True
    then have "x - of_int \<lfloor>x\<rfloor> \<le> 0" using x by simp
    then show ?thesis using True by (simp add: round_even_def Let_def)
  next
    case False
    then show ?thesis using f by (simp add: round_even_def Let_def)
  qed
qed

lemma round_even_ge: "of_int n \<le> x \<Longrightarrow> n \<le> round_even x"
  using le_floor_iff [of n x] by (auto simp: round_even_def Let_def)

lemma ulp_pos: "0 < ulp x"
  by (simp add: ulp_def)

text \<open>Rounding does not cross a multiple of the rounding grid.\<close>

lemma fl_round_le:
  assumes "x \<le> of_int n" and "of_int n = of_int m * ulp x"
  shows "fl_round x \<le> of_int n"
proof -
  have "x / ulp x \<le> of_int m" using assms ulp_pos [of x] by (simp add: pos_divide_le_eq)
  then have "round_even (x / ulp x) \<le> m" by (rule round_even_le)
  then have "of_int (round_even (x / ulp x)) * ulp x \<le> of_int m * ulp x"
    using ulp_pos [of x] by (intro mult_right_mono) auto
  then show ?thesis using assms(2) by (simp add: fl_round_def)
qed

lemma pivot_of_bounds:
  assumes "0 < p" "p < 1"
  shows "0 \<le> pivot_of p" and "pivot_of p \<le> 10000"
proof -
  let ?x = "10000 * p" and ?k = "floorlog 2 (nat \<lfloor>10000 * p\<rfloor>)"
  have "\<lfloor>?x\<rfloor> < 10000" using assms by (simp add: floor_less_iff)
  then have "nat \<lfloor>?x\<rfloor> < 16384" by arith
  then have k: "?k \<le> 14" using floorlog_le_iff [of 2 "nat \<lfloor>?x\<rfloor>" 14] by simp
  have "(2::rat) ^ 53 = 2 ^ (53 - ?k) * 2 ^ ?k" using k by (simp flip: power_add)
  then have "of_int 10000 = of_int (10000 * 2 ^ (53 - ?k)) * ulp ?x"
    by (simp add: ulp_def field_simps)
  then have "fl_round ?x \<le> of_int 10000"
    using assms by (intro fl_round_le [of ?x 10000 "10000 * 2 ^ (53 - ?k)"]) auto
  then show "pivot_of p \<le> 10000" by (simp add: pivot_of_def floor_le_iff)
  have "0 \<le> round_even (?x / ulp ?x)" using assms ulp_pos [of ?x] by (intro round_even_ge) simp
  then have "0 \<le> fl_round ?x" using ulp_pos [of ?x] by (simp add: fl_round_def)
  then show "0 \<le> pivot_of p" by (simp add: pivot_of_def)
qed

lemma likely_happen_p_draw:
  assumes "0 < p" "p < 1" "0 \<le> x" "x < 10000"
  shows "likely_happen_p p (nat x ## r) = Inr (x < pivot_of p, r)"
  using assms by (simp add: likely_happen_p_def nasm_random32_hits)

lemma likely_happen_p_total: "\<exists>b r'. likely_happen_p p r = Inr (b, r')"
  using nasm_random32_total [of 10000 r] by (fastforce simp: likely_happen_p_def)

subsection \<open>Drawing until a value fits\<close>

text \<open>
  \<open>while (!P(x = nasm_random32(bound)));\<close> is the least solution of its equation: \<open>None\<close> is the
  loop that never ends.
\<close>

partial_function (option) draw_until :: "int \<Rightarrow> (int \<Rightarrow> bool) \<Rightarrow> rng \<Rightarrow> (int \<times> rng) res option" where
  "draw_until b P r = (case nasm_random32 b r of Inl e \<Rightarrow> Some (Inl e)
     | Inr (x, r) \<Rightarrow> if P x then Some (Inr (x, r)) else draw_until b P r)"

definition run_loop :: "'a res option \<Rightarrow> 'a res" where
  "run_loop m = (case m of None \<Rightarrow> Inl Diverges | Some r \<Rightarrow> r)"

lemma run_loop_simps [simp]: "run_loop None = Inl Diverges" "run_loop (Some r) = r"
  by (simp_all add: run_loop_def)

lemma run_loop_Inr: "run_loop m = Inr x \<longleftrightarrow> m = Some (Inr x)"
  by (cases m) auto

text \<open>The value number \<open>n\<close> a loop of draws sees.\<close>

definition draw_no :: "int \<Rightarrow> nat \<Rightarrow> rng \<Rightarrow> int" where
  "draw_no b n r = int (shd (sdrop n r) mod 2 ^ 31) mod \<bar>b\<bar>"

lemma draw_no_stl: "draw_no b n (stl r) = draw_no b (Suc n) r"
  by (simp add: draw_no_def)

lemma nasm_random32_draw: "b \<noteq> 0 \<Longrightarrow> nasm_random32 b r = Inr (draw_no b 0 r, stl r)"
  by (simp add: nasm_random32_def rem_bound_def rand_def draw_no_def)

lemma draw_until_result:
  assumes "draw_until b P r = Some (Inr (x, r'))"
  shows "P x \<and> 0 \<le> x \<and> x < \<bar>b\<bar> \<and> (\<exists>n. P (draw_no b n r) \<and> r' = sdrop (Suc n) r)"
proof -
  let ?Q = "\<lambda>((b, P), r) (y :: (int \<times> rng) res). \<forall>x r'. y = Inr (x, r') \<longrightarrow>
    P x \<and> 0 \<le> x \<and> x < \<bar>b\<bar> \<and> (\<exists>n. P (draw_no b n r) \<and> r' = sdrop (Suc n) r)"
  have "?Q ((b, P), r) (Inr (x, r'))"
  proof (rule draw_until.raw_induct [where Pa = ?Q, OF _ assms])
    fix f :: "int \<Rightarrow> (int \<Rightarrow> bool) \<Rightarrow> rng \<Rightarrow> (int \<times> rng) res option"
      and b :: int and P :: "int \<Rightarrow> bool" and r :: rng and y
    assume IH: "\<And>b P r y. f b P r = Some y \<Longrightarrow> ?Q ((b, P), r) y"
      and eq: "(case nasm_random32 b r of Inl e \<Rightarrow> Some (Inl e)
        | Inr (x, r) \<Rightarrow> if P x then Some (Inr (x, r)) else f b P r) = Some y"
    show "?Q ((b, P), r) y"
    proof (cases "b = 0")
      case True
      with eq show ?thesis by (auto simp: nasm_random32_def rem_bound_def rand_def)
    next
      case False
      note d = nasm_random32_draw [OF False, of r]
      show ?thesis
      proof (cases "P (draw_no b 0 r)")
        case True
        with eq d nasm_random32_range [OF d] show ?thesis by (auto intro!: exI [of _ 0])
      next
        case False
        with eq d have "f b P (stl r) = Some y" by simp
        from IH [OF this] show ?thesis unfolding prod.case draw_no_stl sdrop.simps(2) [symmetric] by blast
      qed
    qed
  qed
  then show ?thesis by simp
qed

lemma draw_until_ends:
  "b \<noteq> 0 \<Longrightarrow> P (draw_no b n r) \<Longrightarrow> \<exists>x r'. draw_until b P r = Some (Inr (x, r'))"
proof (induction n arbitrary: r)
  case 0
  then show ?case by (subst draw_until.simps) (simp add: nasm_random32_draw)
next
  case (Suc n)
  from Suc.prems have "P (draw_no b n (stl r))" by (simp add: draw_no_def)
  with Suc show ?case by (subst draw_until.simps) (auto simp: nasm_random32_draw)
qed

text \<open>The loop ends exactly when some draw fits.\<close>

lemma draw_until_iff:
  assumes "b \<noteq> 0"
  shows "(\<exists>x r'. run_loop (draw_until b P r) = Inr (x, r')) \<longleftrightarrow> (\<exists>n. P (draw_no b n r))"
  using draw_until_result draw_until_ends [OF assms] by (fastforce simp: run_loop_Inr)

lemma draw_no_range: "b \<noteq> 0 \<Longrightarrow> 0 \<le> draw_no b n r \<and> draw_no b n r < \<bar>b\<bar>"
  by (simp add: draw_no_def)

lemma draw_until_never:
  assumes "b \<noteq> 0" "\<forall>n. \<not> P (draw_no b n r)"
  shows "run_loop (draw_until b P r) = Inl Diverges"
proof -
  let ?Q = "\<lambda>((b, P), r) (y :: (int \<times> rng) res). b \<noteq> 0 \<longrightarrow> (\<exists>n. P (draw_no b n r))"
  have "?Q ((b, P), r) y" if y: "draw_until b P r = Some y" for y
  proof (rule draw_until.raw_induct [where Pa = ?Q, OF _ y])
    fix f :: "int \<Rightarrow> (int \<Rightarrow> bool) \<Rightarrow> rng \<Rightarrow> (int \<times> rng) res option"
      and b :: int and P :: "int \<Rightarrow> bool" and r :: rng and y
    assume IH: "\<And>b P r y. f b P r = Some y \<Longrightarrow> ?Q ((b, P), r) y"
      and eq: "(case nasm_random32 b r of Inl e \<Rightarrow> Some (Inl e)
        | Inr (x, r) \<Rightarrow> if P x then Some (Inr (x, r)) else f b P r) = Some y"
    show "?Q ((b, P), r) y" unfolding prod.case
    proof (intro impI)
      assume b: "b \<noteq> 0"
      show "\<exists>n. P (draw_no b n r)"
      proof (cases "P (draw_no b 0 r)")
        case False
        with eq nasm_random32_draw [OF b, of r] have "f b P (stl r) = Some y" by simp
        from IH [OF this] b show ?thesis unfolding prod.case draw_no_stl by blast
      qed blast
    qed
  qed
  then have "draw_until b P r = None" using assms by (cases "draw_until b P r") auto
  then show ?thesis by simp
qed

subsection \<open>Fair sources\<close>

text \<open>A source of random values is fair when every value comes again and again.\<close>

definition fair :: "rng \<Rightarrow> bool" where
  "fair r \<longleftrightarrow> (\<forall>x < 2 ^ 31. \<forall>n. \<exists>m \<ge> n. r !! m mod 2 ^ 31 = x)"

lemma fair_sdrop: "fair r \<Longrightarrow> fair (sdrop k r)"
  unfolding fair_def
proof (intro allI impI)
  fix x :: nat and n assume f: "\<forall>x < 2 ^ 31. \<forall>n. \<exists>m \<ge> n. r !! m mod 2 ^ 31 = x" and x: "x < 2 ^ 31"
  then obtain m where m: "n + k \<le> m" "r !! m mod 2 ^ 31 = x" by blast
  then have "sdrop k r !! (m - k) = r !! m" by (simp add: sdrop_snth)
  then show "\<exists>m \<ge> n. sdrop k r !! m mod 2 ^ 31 = x" using m by (intro exI [of _ "m - k"]) simp
qed

lemma fair_stl: "fair r \<Longrightarrow> fair (stl r)"
  using fair_sdrop [of r 1] by simp

lemma fair_draw:
  assumes "fair r" "0 < b" "b \<le> 2 ^ 31" "0 \<le> x" "x < b"
  shows "\<exists>n. draw_no b n r = x"
proof -
  have "nat x < nat (2 ^ 31)" using assms by (subst nat_less_eq_zless) auto
  then have "nat x < 2 ^ 31" by simp
  then obtain m where "r !! m mod 2 ^ 31 = nat x" using assms(1) unfolding fair_def by blast
  then have "draw_no b m r = x" using assms by (simp add: draw_no_def)
  then show ?thesis ..
qed

lemma draw_until_fair:
  assumes "fair r" "0 < b" "b \<le> 2 ^ 31" "0 \<le> y" "y < b" "P y"
  shows "\<exists>x r'. run_loop (draw_until b P r) = Inr (x, r') \<and> P x \<and> 0 \<le> x \<and> x < b \<and> fair r'"
proof -
  obtain n where "draw_no b n r = y" using fair_draw [OF assms(1-5)] by blast
  then obtain x r' where "draw_until b P r = Some (Inr (x, r'))"
    using draw_until_ends [of b P n r] assms(2,6) by auto
  with draw_until_result [OF this] show ?thesis
    using fair_sdrop [OF fair_stl [OF assms(1)]] assms(2) by (auto simp: run_loop_Inr)
qed

text \<open>Counting up is fair.\<close>

definition counting :: rng where
  "counting = siterate Suc 0"

lemma counting_nth: "counting !! n = n"
proof -
  have "siterate Suc k !! n = k + n" for k by (induction n arbitrary: k) auto
  then show ?thesis by (simp add: counting_def)
qed

lemma counting_fair: "fair counting"
  unfolding fair_def counting_nth
proof (intro allI impI)
  fix x n :: nat assume "x < 2 ^ 31"
  then have "(x + n * 2 ^ 31) mod 2 ^ 31 = x" by simp
  moreover have "n \<le> x + n * 2 ^ 31" by simp
  ultimately show "\<exists>m \<ge> n. m mod 2 ^ 31 = x" by blast
qed

end
