(* ===== verification/WdTree.thy ===== *)
theory WdTree
  imports Rng
begin

text \<open>
  The weighted decision trees of \<open>engine/wdtree.c\<close> and \<open>engine/wdtree.h\<close>: constant nodes,
  inner nodes with weights, and the random selection of a leaf.
\<close>

subsection \<open>Constant nodes\<close>

datatype const_type =
    CONST_IMM8 | CONST_IMM16 | CONST_IMM32 | CONST_IMM64 | CONST_FLOAT
  | CONST_FLOAT32I | CONST_FLOAT32F | CONST_FLOAT64I | CONST_FLOAT64F
  | CONST_BCD | CONST_UNITY | CONST_ASM_OP | CONST_X87ENV

text \<open>
  The numeric members of the union share the 96 bits of \<open>cn_union\<close> (little endian); its pointer
  member is kept apart in \<open>asm_op\<close>, which only nodes of type \<open>CONST_ASM_OP\<close> use.  The
  floating-point members are kept as bit patterns, the x87 environment as its seven words.
\<close>

record const_node =
  cn_type :: const_type
  cn_union :: "96 word"
  asm_op :: string
  float32 :: "32 word"
  float64 :: "64 word"
  float80_low :: "64 word"
  float80_high :: "16 word"
  x87env :: "32 word list"

definition cn_imm8 :: "const_node \<Rightarrow> 8 word" where
  "cn_imm8 n = ucast (cn_union n)"

definition cn_imm16 :: "const_node \<Rightarrow> 16 word" where
  "cn_imm16 n = ucast (cn_union n)"

definition cn_imm32 :: "const_node \<Rightarrow> 32 word" where
  "cn_imm32 n = ucast (cn_union n)"

definition cn_imm64 :: "const_node \<Rightarrow> 64 word" where
  "cn_imm64 n = ucast (cn_union n)"

definition cn_bcd :: "const_node \<Rightarrow> nat \<Rightarrow> 32 word" where
  "cn_bcd n i = ucast (drop_bit (32 * i) (cn_union n))"

subsection \<open>Trees\<close>

text \<open>
  The parsers build the trees bottom up and never change a node afterwards, so a node is a value.
  The three arrays are kept as the code has them, also in a node where they are not used.
\<close>

datatype wd_node = WdNode (isleaf: bool) (wd_size: nat) (weights: "int list")
  (sub_nodes: "wd_node list") (const_nodes: "const_node list")

record wd_root =
  packedn :: int
  root_node :: "wd_node option"

definition wdtree_create :: wd_root where
  "wdtree_create = \<lparr>packedn = 1, root_node = None\<rparr>"

definition wdtree_node_create :: wd_node where
  "wdtree_node_create = WdNode False 0 [] [] []"

subsection \<open>Weighted selection\<close>

function select_loop :: "int list \<Rightarrow> int \<Rightarrow> int \<Rightarrow> int \<Rightarrow> int \<Rightarrow> int res" where
  "select_loop ws len random_chi subtree acc =
     (if subtree < len then
        bnd (idx ws subtree) (\<lambda>w.
        if random_chi < acc + w then Inr subtree
        else select_loop ws len random_chi (subtree + 1) (acc + w))
      else Inr subtree)"
  by pat_completeness auto
termination
  by (relation "measure (\<lambda>(ws, len, chi, i, acc). nat (len - i))") auto

declare select_loop.simps [simp del]

definition select_subtree :: "int list \<Rightarrow> int \<Rightarrow> rng \<Rightarrow> (int \<times> rng) res" where
  "select_subtree ws len r =
     (if ws = [] then nasm_random32 len r
      else bnd (nasm_random32 100 r) (\<lambda>(random_chi, r).
           bnd (select_loop ws len random_chi 0 0) (\<lambda>subtree. Inr (subtree, r))))"

lemma sub_node_size: "s \<in> set (sub_nodes n) \<Longrightarrow> size s < size n"
  by (cases n) (auto dest: size_list_estimation' [where f = size, OF _ le_refl])

function wdtree_select_leaf_node_recursive ::
  "wd_node option \<Rightarrow> rng \<Rightarrow> (const_node option \<times> rng) res" where
  "wdtree_select_leaf_node_recursive None r = Inr (None, r)"
| "wdtree_select_leaf_node_recursive (Some n) r =
     (if wd_size n = 0 then Inr (None, r)
      else bnd (select_subtree (weights n) (int (wd_size n)) r) (\<lambda>(subtree, r).
        if isleaf n then bnd (idx (const_nodes n) subtree) (\<lambda>c. Inr (Some c, r))
        else (case idx (sub_nodes n) subtree of
                Inl e \<Rightarrow> Inl e
              | Inr s \<Rightarrow> wdtree_select_leaf_node_recursive (Some s) r)))"
  by pat_completeness auto

termination
proof (relation "measure (\<lambda>(n, r). case n of None \<Rightarrow> 0 | Some n \<Rightarrow> Suc (size n))", goal_cases)
  case (2 n r x xa y x2)
  then have "x2 \<in> set (sub_nodes n)" by (auto simp: idx_Inr)
  then show ?case using sub_node_size by auto
qed simp

definition wdtree_select_leaf_node :: "wd_root \<Rightarrow> rng \<Rightarrow> (const_node option \<times> rng) res" where
  "wdtree_select_leaf_node tree r = wdtree_select_leaf_node_recursive (root_node tree) r"

subsection \<open>What a weight means\<close>

lemma sum_list_take_Suc: "i < length ws \<Longrightarrow> sum_list (take (Suc i) ws) = sum_list (take i ws) + ws ! i"
  for ws :: "int list"
  by (simp add: take_Suc_conv_app_nth)

lemma sum_list_take_mono:
  fixes ws :: "int list"
  assumes "\<forall>w \<in> set ws. 0 \<le> w" "i \<le> j"
  shows "sum_list (take i ws) \<le> sum_list (take j ws)"
proof -
  have "take j ws = take i ws @ take (j - i) (drop i ws)"
    using assms(2) take_add [of i "j - i" ws] by simp
  moreover have "0 \<le> sum_list (take (j - i) (drop i ws))"
    using assms(1) by (intro sum_list_nonneg) (meson in_set_takeD in_set_dropD)
  ultimately show ?thesis by simp
qed

text \<open>The loop stops at the first index whose prefix sum exceeds the draw, or runs off the end.\<close>

lemma select_loop_spec:
  assumes "i \<le> length ws" "sum_list (take i ws) \<le> chi"
  shows "\<exists>j. select_loop ws (int (length ws)) chi (int i) (sum_list (take i ws)) = Inr (int j) \<and>
     i \<le> j \<and> j \<le> length ws \<and> sum_list (take j ws) \<le> chi \<and>
     (j < length ws \<longrightarrow> chi < sum_list (take (Suc j) ws))"
  using assms
proof (induction "length ws - i" arbitrary: i)
  case 0
  then show ?case by (simp add: select_loop.simps)
next
  case (Suc k)
  then have i: "i < length ws" by simp
  show ?case
  proof (cases "chi < sum_list (take i ws) + ws ! i")
    case True
    then show ?thesis using i Suc.prems
      by (auto simp: select_loop.simps [of ws _ chi] sum_list_take_Suc intro!: exI [of _ i])
  next
    case False
    then have "sum_list (take (Suc i) ws) \<le> chi" using i by (simp add: sum_list_take_Suc)
    then obtain j where "select_loop ws (int (length ws)) chi (int (Suc i)) (sum_list (take (Suc i) ws)) = Inr (int j)"
      "Suc i \<le> j" "j \<le> length ws" "sum_list (take j ws) \<le> chi"
      "j < length ws \<longrightarrow> chi < sum_list (take (Suc j) ws)"
      using Suc.hyps(1) [of "Suc i"] Suc.hyps(2) i by (metis Suc_leI diff_Suc_1' Suc_diff_Suc)
    then show ?thesis using False i
      by (auto simp: select_loop.simps [of ws _ chi "int i"] sum_list_take_Suc add.commute intro!: exI [of _ j])
  qed
qed

lemma select_loop_iff:
  assumes nn: "\<forall>w \<in> set ws. 0 \<le> w" and chi: "0 \<le> chi" and j: "j < length ws"
  shows "select_loop ws (int (length ws)) chi 0 0 = Inr (int j) \<longleftrightarrow>
     sum_list (take j ws) \<le> chi \<and> chi < sum_list (take (Suc j) ws)"
proof -
  obtain k where k: "select_loop ws (int (length ws)) chi 0 0 = Inr (int k)" "k \<le> length ws"
    "sum_list (take k ws) \<le> chi" "k < length ws \<longrightarrow> chi < sum_list (take (Suc k) ws)"
    using select_loop_spec [of 0 ws chi] chi by auto
  have "k = j" if "sum_list (take j ws) \<le> chi" "chi < sum_list (take (Suc j) ws)"
  proof (rule ccontr)
    assume "k \<noteq> j"
    then consider "Suc k \<le> j" | "Suc j \<le> k" by linarith
    then show False
    proof cases
      case 1
      then show False using sum_list_take_mono [OF nn 1] k(4) j that by linarith
    next
      case 2
      then show False using sum_list_take_mono [OF nn 2] k(3) that by linarith
    qed
  qed
  then show ?thesis using k j by auto
qed

lemma select_loop_in_range:
  assumes "\<forall>w \<in> set ws. 0 \<le> w" "sum_list ws = 100" "0 \<le> chi" "chi < 100"
  shows "\<exists>j < length ws. select_loop ws (int (length ws)) chi 0 0 = Inr (int j)"
proof -
  obtain k where k: "select_loop ws (int (length ws)) chi 0 0 = Inr (int k)" "k \<le> length ws"
    "sum_list (take k ws) \<le> chi"
    using select_loop_spec [of 0 ws chi] assms by auto
  have "k \<noteq> length ws" using k(3) assms by auto
  then show ?thesis using k by auto
qed

subsection \<open>Well-formed trees\<close>

text \<open>
  What the selection relies on: arrays as long as the recorded size, and weights that are
  nonnegative and add up to the constant \<open>total_weight = 100\<close> of \<open>select_subtree\<close>.
\<close>

fun wd_ok :: "wd_node \<Rightarrow> bool" where
  "wd_ok (WdNode lf n ws subs cs) \<longleftrightarrow>
     (ws = [] \<or> length ws = n \<and> (\<forall>w \<in> set ws. 0 \<le> w) \<and> sum_list ws = 100) \<and>
     (if lf then length cs = n else length subs = n \<and> list_all wd_ok subs)"

fun leaves :: "wd_node \<Rightarrow> const_node list" where
  "leaves (WdNode lf n ws subs cs) =
     (if n = 0 then [] else if lf then cs else concat (map leaves subs))"

lemma select_subtree_ok:
  assumes "wd_ok n" "wd_size n \<noteq> 0"
  shows "\<exists>j < wd_size n. select_subtree (weights n) (int (wd_size n)) r = Inr (int j, stl r)"
proof (cases n)
  case (WdNode lf k ws subs cs)
  show ?thesis
  proof (cases "ws = []")
    case True
    obtain x r' where x: "nasm_random32 (int k) r = Inr (x, r')"
      using nasm_random32_total [of "int k"] assms WdNode by fastforce
    then have "0 \<le> x" "x < int k" "r' = stl r" using nasm_random32_range [OF x] by auto
    then show ?thesis using x True WdNode
      by (auto simp: select_subtree_def intro!: exI [of _ "nat x"])
  next
    case False
    obtain chi r' where x: "nasm_random32 100 r = Inr (chi, r')"
      using nasm_random32_total [of 100] by fastforce
    have ws: "length ws = k" "\<forall>w \<in> set ws. 0 \<le> w" "sum_list ws = 100"
      using assms False WdNode by auto
    have "0 \<le> chi" "chi < 100" "r' = stl r" using nasm_random32_range [OF x] by auto
    then obtain j where "j < length ws" "select_loop ws (int (length ws)) chi 0 0 = Inr (int j)"
      using select_loop_in_range [OF ws(2,3)] by blast
    then show ?thesis using x False WdNode ws \<open>r' = stl r\<close> by (auto simp: select_subtree_def)
  qed
qed

text \<open>
  On a well-formed tree the selection never leaves an array.  It returns a leaf of the tree, or
  the null pointer when it reached a group with no constants, which the callers read as ``any
  value''.
\<close>

lemma select_leaf_ok:
  "wd_ok n \<Longrightarrow> \<exists>c r'. wdtree_select_leaf_node_recursive (Some n) r = Inr (c, r') \<and>
     (\<forall>x. c = Some x \<longrightarrow> x \<in> set (leaves n))"
proof (induction n arbitrary: r)
  case (WdNode lf k ws subs cs)
  let ?n = "WdNode lf k ws subs cs"
  show ?case
  proof (cases "k = 0")
    case False
    then obtain j where j: "j < k" "select_subtree ws (int k) r = Inr (int j, stl r)"
      using select_subtree_ok [OF WdNode.prems, of r] by auto
    show ?thesis
    proof (cases lf)
      case True
      then have "length cs = k" using WdNode.prems by simp
      then show ?thesis using j True by simp
    next
      case False
      then have l: "length subs = k" "list_all wd_ok subs" using WdNode.prems by auto
      then have s: "subs ! j \<in> set subs" "wd_ok (subs ! j)" using j by (auto simp: list_all_length)
      obtain c r' where "wdtree_select_leaf_node_recursive (Some (subs ! j)) (stl r) = Inr (c, r')"
        "\<forall>x. c = Some x \<longrightarrow> x \<in> set (leaves (subs ! j))"
        using WdNode.IH [OF s, of "stl r"] by blast
      then show ?thesis using j False l s by auto
    qed
  qed simp
qed

subsection \<open>Properties\<close>

text \<open>
  C15: With weights that are nonnegative and add up to 100, of the 100 equally likely draws of
  \<open>select_subtree\<close> exactly as many choose a subtree as its weight says, and every draw chooses
  one.
\<close>

theorem weight_is_number_of_draws:
  assumes "\<forall>w \<in> set ws. 0 \<le> w" "sum_list ws = 100" "j < length ws"
  shows "int (card {x \<in> {0..<100}. select_subtree ws (int (length ws)) (x ## r) = Inr (int j, r)}) = ws ! j \<and>
    (\<forall>x < 100. \<exists>k < length ws. select_subtree ws (int (length ws)) (x ## r) = Inr (int k, r))"
proof
  have ne: "ws \<noteq> []" using assms(3) by auto
  have sel: "select_subtree ws (int (length ws)) (x ## r) =
      bnd (select_loop ws (int (length ws)) (int x) 0 0) (\<lambda>k. Inr (k, r))" if "x < 100" for x
    using nasm_random32_hits [of 100 "int x" r] that ne by (simp add: select_subtree_def)
  have b: "0 \<le> sum_list (take j ws)" "sum_list (take (Suc j) ws) \<le> 100"
    using sum_list_take_mono [OF assms(1), of 0 j] sum_list_take_mono [OF assms(1), of "Suc j" "length ws"] assms
    by auto
  have "{x \<in> {0..<100}. select_subtree ws (int (length ws)) (x ## r) = Inr (int j, r)} =
      {nat (sum_list (take j ws))..<nat (sum_list (take (Suc j) ws))}" (is "?L = ?Rt")
  proof (rule set_eqI)
    fix x
    show "x \<in> ?L \<longleftrightarrow> x \<in> ?Rt"
    proof (cases "x < 100")
      case True
      then show ?thesis
        using sel [OF True] select_loop_iff [of ws "int x" j] assms b by auto
    next
      case False
      then show ?thesis using b by auto
    qed
  qed
  note LR = this
  show "int (card {x \<in> {0..<100}. select_subtree ws (int (length ws)) (x ## r) = Inr (int j, r)}) = ws ! j"
  proof -
    have "0 \<le> ws ! j" using assms(1,3) by simp
      then have "int (nat (sum_list (take j ws) + ws ! j) - nat (sum_list (take j ws))) = ws ! j"
      using b(1) by linarith
    then show ?thesis using sum_list_take_Suc [OF assms(3)]
      LR by simp
  qed
  show "\<forall>x < 100. \<exists>k < length ws. select_subtree ws (int (length ws)) (x ## r) = Inr (int k, r)"
    using sel select_loop_in_range [OF assms(1,2)] by fastforce
qed

theorem weight_is_number_of_draws_witness:
  "int (card {x \<in> {0..<100}. select_subtree [20, 70, 10] 3 (x ## sconst 0) = Inr (1, sconst 0)}) = 70"
  using weight_is_number_of_draws [of "[20, 70, 10]" 1 "sconst 0"] by simp

text \<open>
  C25: Selecting a constant from a well-formed tree ends, stays inside every array, and returns
  a constant of the tree, or the null pointer when the chosen group is empty.
\<close>

theorem select_leaf_in_tree:
  assumes "\<And>n. root_node t = Some n \<Longrightarrow> wd_ok n"
  shows "\<exists>c r'. wdtree_select_leaf_node t r = Inr (c, r') \<and>
    (\<forall>x. c = Some x \<longrightarrow> (\<exists>n. root_node t = Some n \<and> x \<in> set (leaves n)))"
proof (cases "root_node t")
  case None
  then show ?thesis by (simp add: wdtree_select_leaf_node_def)
next
  case (Some n)
  then show ?thesis using select_leaf_ok [OF assms [OF Some], of r]
    by (simp add: wdtree_select_leaf_node_def)
qed

theorem select_leaf_in_tree_witness:
  "let c = \<lparr>cn_type = CONST_IMM8, cn_union = 5, asm_op = '''', float32 = 0, float64 = 0, float80_low = 0,
            float80_high = 0, x87env = []\<rparr>;
       t = \<lparr>packedn = 1, root_node = Some (WdNode True 2 [30, 70] [] [c, c])\<rparr> in
   \<exists>x r'. wdtree_select_leaf_node t (sconst 0) = Inr (x, r') \<and>
    (\<forall>y. x = Some y \<longrightarrow> (\<exists>n. root_node t = Some n \<and> y \<in> set (leaves n)))"
  unfolding Let_def by (rule select_leaf_in_tree) auto

end
