(* ===== verification/X86PG.thy ===== *)
theory X86PG
  imports InsnList Insn WdTree
begin

text \<open>
  The global state of the program generator, \<open>stat/x86pg.c\<close> with \<open>include/x86pg.h\<close>,
  \<open>engine/section.c\<close> and \<open>include/reg.h\<close>: sections, instruction list and insertion position,
  labels, the control lock, the register locks, and the state of the instruction being generated.
\<close>

subsection \<open>Sections\<close>

datatype sec_kind = TEXT_SEC | DATA_SEC | BSS_SEC

record sect =
  sec_type :: sec_kind
  datanum :: nat
  datasizes :: "int list"

definition SECTION_DATA_NUM :: nat where
  "SECTION_DATA_NUM = 5"

definition init_text_sec :: "sect \<Rightarrow> sect" where
  "init_text_sec sec = sec\<lparr>sec_type := TEXT_SEC\<rparr>"

definition init_data_sec :: "sect \<Rightarrow> sect" where
  "init_data_sec sec = sec\<lparr>sec_type := DATA_SEC, datanum := SECTION_DATA_NUM,
     datasizes := replicate SECTION_DATA_NUM 8192 @ drop SECTION_DATA_NUM (datasizes sec)\<rparr>"

definition zero_sec :: sect where
  "zero_sec = \<lparr>sec_type = TEXT_SEC, datanum = 0, datasizes = replicate SECTION_DATA_NUM 0\<rparr>"

subsection \<open>Register families\<close>

definition is_reg_ax :: "reg \<Rightarrow> bool" where
  "is_reg_ax r = (r = R ''al'' \<or> r = R ''ah'' \<or> r = R ''ax'' \<or> r = R ''eax'')"

definition is_reg_bx :: "reg \<Rightarrow> bool" where
  "is_reg_bx r = (r = R ''bl'' \<or> r = R ''bh'' \<or> r = R ''bx'' \<or> r = R ''ebx'')"

definition is_reg_cx :: "reg \<Rightarrow> bool" where
  "is_reg_cx r = (r = R ''cl'' \<or> r = R ''ch'' \<or> r = R ''cx'' \<or> r = R ''ecx'')"

definition is_reg_dx :: "reg \<Rightarrow> bool" where
  "is_reg_dx r = (r = R ''dl'' \<or> r = R ''dh'' \<or> r = R ''dx'' \<or> r = R ''edx'')"

definition is_reg_si :: "reg \<Rightarrow> bool" where
  "is_reg_si r = (r = R ''si'' \<or> r = R ''esi'')"

definition is_reg_di :: "reg \<Rightarrow> bool" where
  "is_reg_di r = (r = R ''di'' \<or> r = R ''edi'')"

subsection \<open>The state\<close>

datatype lock_reg_case = LOCK_REG_CASE_NULL | LOCK_REG_CASE_MEM | LOCK_REG_CASE_LOOP

definition LOCK_REG_NUM :: nat where
  "LOCK_REG_NUM = 6"

text \<open>
  \<open>curr_blk\<close> is the current block, given by the numbers of itself and of its ancestors (the
  chain its \<open>parent\<close> pointers form; the null pointer is the empty list); \<open>labelspos\<close>
  the contents of the reallocated array of label positions; \<open>trv_nodes\<close> the arrays of constants
  chosen by the enclosing traversal, null outside of one.
\<close>

record x86pg =
  text_sec :: sect
  data_sec :: sect
  instlist :: "insn insnlist"
  insertpos :: "nat option"
  labeli :: int
  labelspos :: "nat option list"
  lock_ctrl :: bool
  lock_reg_cases :: "lock_reg_case list"
  curr_blk :: "nat list"
  st_opcode :: opcode
  need_init :: bool
  opi :: int
  has_mem_opnd :: bool
  init_mem_addr :: string
  trv_nodes :: "const_node list list option"

definition zero_x86pgstate :: x86pg where
  "zero_x86pgstate = \<lparr>text_sec = zero_sec, data_sec = zero_sec, instlist = insnlist_create,
     insertpos = None, labeli = 0, labelspos = [], lock_ctrl = False,
     lock_reg_cases = replicate LOCK_REG_NUM LOCK_REG_CASE_NULL, curr_blk = [],
     st_opcode = I_none, need_init = False, opi = 0, has_mem_opnd = False, init_mem_addr = '''',
     trv_nodes = None\<rparr>"

definition reset_x86pgstate :: "x86pg \<Rightarrow> x86pg" where
  "reset_x86pgstate s = s\<lparr>text_sec := init_text_sec (text_sec s),
     data_sec := init_data_sec (data_sec s), labeli := 0, st_opcode := I_none,
     need_init := False, opi := 0, trv_nodes := None, insertpos := None, lock_ctrl := False,
     lock_reg_cases := replicate LOCK_REG_NUM LOCK_REG_CASE_NULL\<rparr>"

definition init_x86pgstate :: "x86pg \<Rightarrow> x86pg" where
  "init_x86pgstate s = s\<lparr>text_sec := init_text_sec (text_sec s),
     data_sec := init_data_sec (data_sec s), labeli := 0, st_opcode := I_none,
     need_init := False, opi := 0, trv_nodes := None, instlist := insnlist_create,
     insertpos := None, lock_ctrl := False,
     lock_reg_cases := replicate LOCK_REG_NUM LOCK_REG_CASE_NULL\<rparr>"

text \<open>
  The one-line accessors \<open>stat_get_x\<close> and \<open>stat_set_x\<close> are the selectors and updates of the
  record; the ones that do more follow.
\<close>

definition stat_inc_labeli :: "x86pg \<Rightarrow> x86pg" where
  "stat_inc_labeli s = s\<lparr>labeli := labeli s + 1\<rparr>"

definition stat_lock_ctrl :: "x86pg \<Rightarrow> x86pg" where
  "stat_lock_ctrl s = s\<lparr>lock_ctrl := True\<rparr>"

definition stat_unlock_ctrl :: "x86pg \<Rightarrow> x86pg" where
  "stat_unlock_ctrl s = s\<lparr>lock_ctrl := False\<rparr>"

text \<open>A register outside the six families gets the index 0, the one of \<open>LOCK_REG_AX\<close>.\<close>

definition get_lock_reg_type :: "reg \<Rightarrow> nat" where
  "get_lock_reg_type r =
     (if is_reg_ax r then 0
      else if is_reg_bx r then 1
      else if is_reg_cx r then 2
      else if is_reg_dx r then 3
      else if is_reg_si r then 4
      else if is_reg_di r then 5
      else 0)"

definition stat_lock_reg :: "reg \<Rightarrow> lock_reg_case \<Rightarrow> x86pg \<Rightarrow> x86pg" where
  "stat_lock_reg r lr_case s =
     s\<lparr>lock_reg_cases := (lock_reg_cases s)[get_lock_reg_type r := lr_case]\<rparr>"

definition stat_unlock_reg :: "lock_reg_case \<Rightarrow> x86pg \<Rightarrow> x86pg" where
  "stat_unlock_reg lr_case s = s\<lparr>lock_reg_cases :=
     map (\<lambda>c. if c = lr_case then LOCK_REG_CASE_NULL else c) (lock_reg_cases s)\<rparr>"

definition stat_reg_locked :: "reg \<Rightarrow> x86pg \<Rightarrow> bool" where
  "stat_reg_locked r s = (lock_reg_cases s ! get_lock_reg_type r \<noteq> LOCK_REG_CASE_NULL)"

datatype position = INSERT_AFTER | INSERT_BEFORE | INSERT_TAIL

definition stat_insert_insn :: "insn \<Rightarrow> position \<Rightarrow> x86pg \<Rightarrow> x86pg res" where
  "stat_insert_insn inst pos s =
     bnd (case pos of
            INSERT_AFTER \<Rightarrow> insnlist_insert_after (instlist s) (insertpos s) inst
          | INSERT_BEFORE \<Rightarrow> insnlist_insert_before (instlist s) (insertpos s) inst
          | INSERT_TAIL \<Rightarrow> insnlist_insert_tail (instlist s) inst)
       (\<lambda>(p, l). Inr (s\<lparr>instlist := l, insertpos := p\<rparr>))"

subsection \<open>Locks\<close>

definition locks_ok :: "x86pg \<Rightarrow> bool" where
  "locks_ok s \<longleftrightarrow> length (lock_reg_cases s) = LOCK_REG_NUM"

lemma get_lock_reg_type_less: "get_lock_reg_type r < LOCK_REG_NUM"
  by (simp add: get_lock_reg_type_def LOCK_REG_NUM_def)

lemma locks_ok_init: "locks_ok (init_x86pgstate s)" "locks_ok (reset_x86pgstate s)"
  by (simp_all add: locks_ok_def init_x86pgstate_def reset_x86pgstate_def)

lemma locks_ok_lock [simp]: "locks_ok (stat_lock_reg r c s) = locks_ok s"
  by (simp add: locks_ok_def stat_lock_reg_def)

lemma locks_ok_unlock [simp]: "locks_ok (stat_unlock_reg c s) = locks_ok s"
  by (simp add: locks_ok_def stat_unlock_reg_def)

lemma stat_reg_locked_lock:
  "locks_ok s \<Longrightarrow> stat_reg_locked q (stat_lock_reg r c s) =
     (if get_lock_reg_type q = get_lock_reg_type r then c \<noteq> LOCK_REG_CASE_NULL else stat_reg_locked q s)"
  using get_lock_reg_type_less [of r]
  by (auto simp: stat_reg_locked_def stat_lock_reg_def locks_ok_def)

lemma stat_reg_locked_unlock:
  "locks_ok s \<Longrightarrow> stat_reg_locked q (stat_unlock_reg c s) =
     (stat_reg_locked q s \<and> lock_reg_cases s ! get_lock_reg_type q \<noteq> c)"
  using get_lock_reg_type_less [of q]
  by (auto simp: stat_reg_locked_def stat_unlock_reg_def locks_ok_def)

text \<open>
  Locking for a memory operand and unlocking again gives back the earlier locks, when nothing
  was locked for a memory operand before and the register was free.
\<close>

lemma lock_unlock_mem:
  assumes "locks_ok s" "\<not> stat_reg_locked r s" "LOCK_REG_CASE_MEM \<notin> set (lock_reg_cases s)"
  shows "stat_unlock_reg LOCK_REG_CASE_MEM (stat_lock_reg r LOCK_REG_CASE_MEM s) = s"
proof -
  let ?k = "get_lock_reg_type r" and ?l = "lock_reg_cases s"
  have k: "?k < length ?l" using assms(1) get_lock_reg_type_less [of r] by (simp add: locks_ok_def)
  have "map (\<lambda>c. if c = LOCK_REG_CASE_MEM then LOCK_REG_CASE_NULL else c) (?l[?k := LOCK_REG_CASE_MEM]) = ?l"
  proof (rule nth_equalityI)
    fix i assume "i < length (map (\<lambda>c. if c = LOCK_REG_CASE_MEM then LOCK_REG_CASE_NULL else c) (?l[?k := LOCK_REG_CASE_MEM]))"
    then show "map (\<lambda>c. if c = LOCK_REG_CASE_MEM then LOCK_REG_CASE_NULL else c) (?l[?k := LOCK_REG_CASE_MEM]) ! i = ?l ! i"
      using k assms(2,3) by (auto simp: nth_list_update stat_reg_locked_def in_set_conv_nth)
  qed simp
  then show ?thesis by (simp add: stat_unlock_reg_def stat_lock_reg_def)
qed

end
