(* ===== verification/Ctrl.thy ===== *)
theory Ctrl
  imports X86PG
begin

text \<open>
  Control transfers: \<open>engine/ctrl.c\<close> and \<open>one_insn_gen_ctrl\<close> of \<open>engine/generator.c\<close>.  Labels
  and jumps are entries of the instruction list that carry text instead of an instruction.  The
  lemmas give the list every operation leaves behind.
\<close>

subsection \<open>Operations\<close>

text \<open>
  The entry that \<open>one_insn_gen_ctrl\<close> inserts has no field set but \<open>ctrl\<close>; with a null pointer
  the entry would be an instruction that was never initialised.
\<close>

definition one_insn_gen_ctrl :: "string option \<Rightarrow> position \<Rightarrow> x86pg \<Rightarrow> x86pg res" where
  "one_insn_gen_ctrl asm_buffer pos s =
     bnd (deref asm_buffer) (\<lambda>text. stat_insert_insn (blank_insn\<lparr>ctrl := Some text\<rparr>) pos s)"

definition gen_label :: "position \<Rightarrow> x86pg \<Rightarrow> (int \<times> x86pg) res" where
  "gen_label pos s =
     (if lock_ctrl s then Inr (-1, s)
      else bnd (one_insn_gen_ctrl (Some (''label'' @ fmt_d (labeli s) @ '':'')) pos s) (\<lambda>s.
        let s = stat_inc_labeli s;
            s = s\<lparr>labelspos := take (nat (labeli s - 1)) (labelspos s) @ [insertpos s]\<rparr>
        in Inr (labeli s - 1, s)))"

definition select_one_label :: "x86pg \<Rightarrow> rng \<Rightarrow> (int \<times> rng) res" where
  "select_one_label s r =
     (if labeli s \<noteq> 0 then nasm_random32 (labeli s) r else Inr (-1, r))"

definition update_insert_pos_to_label :: "int \<Rightarrow> x86pg \<Rightarrow> x86pg res" where
  "update_insert_pos_to_label label s =
     bnd (idx (labelspos s) label) (\<lambda>p. Inr (s\<lparr>insertpos := p\<rparr>))"

definition gen_jmp_to_label :: "int \<Rightarrow> x86pg \<Rightarrow> x86pg res" where
  "gen_jmp_to_label label s =
     bnd (update_insert_pos_to_label label s) (\<lambda>s.
     bnd (one_insn_gen_ctrl (Some (''  jmp label'' @ fmt_d label)) INSERT_BEFORE s) (\<lambda>s.
     bnd (gen_label INSERT_AFTER s) (\<lambda>(_, s). Inr s)))"

definition is_jcc :: "opcode \<Rightarrow> bool" where
  "is_jcc opc \<longleftrightarrow> opc \<in> set (map I
     [''ja'', ''jae'', ''jb'', ''jbe'', ''jc'', ''je'', ''jg'', ''jge'', ''jl'', ''jle'',
      ''jna'', ''jnae'', ''jnb'', ''jnbe'', ''jnc'', ''jne'', ''jng'', ''jnge'', ''jnl'', ''jnle'',
      ''jno'', ''jnp'', ''jns'', ''jnz'', ''jo'', ''jp'', ''js'', ''jz'', ''jpe'', ''jpo'',
      ''jcxz'', ''jecxz''])"

text \<open>The probability 0.01 is the double next to it.\<close>

definition likely_gen_label :: "x86pg \<Rightarrow> rng \<Rightarrow> (x86pg \<times> rng) res" where
  "likely_gen_label s r =
     bnd (likely_happen_p (5764607523034235 / 2 ^ 59) r) (\<lambda>(b, r).
     if b then bnd (gen_label INSERT_AFTER s) (\<lambda>(_, s). Inr (s, r)) else Inr (s, r))"

definition gen_jmp_insns :: "opcode list \<Rightarrow> x86pg \<Rightarrow> x86pg res" where
  "gen_jmp_insns opcs s = foldM (\<lambda>opc s. one_insn_gen_ctrl
     (Some (''  '' @ nasm_insn_names opc @ '' label'' @ fmt_d (labeli s))) INSERT_AFTER s) opcs s"

text \<open>The part the unconditional and the conditional branch share: where the jump lands.\<close>

definition gen_jmp_target :: "x86pg \<Rightarrow> rng \<Rightarrow> (int \<times> x86pg \<times> rng) res" where
  "gen_jmp_target s r =
     bnd (select_one_label s r) (\<lambda>(label, r).
     if label = -1 then bnd (gen_label INSERT_BEFORE s) (\<lambda>(_, s). Inr (label, s, r))
     else bnd (gen_jmp_to_label label s) (\<lambda>s. Inr (label, s, r)))"

definition is_loop :: "opcode \<Rightarrow> bool" where
  "is_loop opc \<longleftrightarrow> opc \<in> set (map I [''loop'', ''loope'', ''loopne'', ''loopnz'', ''loopz''])"

definition gen_control_transfer_insn ::
  "opcode \<Rightarrow> int \<Rightarrow> x86pg \<Rightarrow> rng \<Rightarrow> (int \<times> x86pg \<times> rng) res" where
  "gen_control_transfer_insn opc n s r =
     (if lock_ctrl s then Inr (-1, s, r)
      else if opc = I ''jmp'' then
        bnd (gen_jmp_insns [opc] s) (\<lambda>s. gen_jmp_target s r)
      else if is_jcc opc then
        bnd (gen_jmp_insns [opc, I ''jmp''] s) (\<lambda>s. gen_jmp_target s r)
      else if is_loop opc then
        bnd (gen_label INSERT_AFTER s) (\<lambda>(label, s).
        bnd (one_insn_gen_ctrl
          (Some (''  '' @ nasm_insn_names opc @ '' label'' @ fmt_d (labeli s))) INSERT_BEFORE s) (\<lambda>s.
        bnd (one_insn_gen_ctrl (Some (''  mov ecx,0x'' @ fmt_x (word_of_int n))) INSERT_BEFORE s) (\<lambda>s.
        bnd (gen_label INSERT_AFTER s) (\<lambda>(_, s).
        Inr (label, stat_lock_reg (R ''ecx'') LOCK_REG_CASE_LOOP (stat_lock_ctrl s), r)))))
      else if opc = I ''call'' then
        bnd (one_insn_gen_ctrl (Some (''  jmp label'' @ fmt_d (labeli s + 1))) INSERT_AFTER s) (\<lambda>s.
        bnd (gen_label INSERT_AFTER s) (\<lambda>(callee, s).
        bnd (one_insn_gen_ctrl (Some (''  '' @ nasm_insn_names (I ''ret''))) INSERT_AFTER s) (\<lambda>s.
        bnd (gen_label INSERT_AFTER s) (\<lambda>(_, s).
        bnd (one_insn_gen_ctrl
          (Some (''  '' @ nasm_insn_names opc @ '' label'' @ fmt_d callee)) INSERT_AFTER s) (\<lambda>s.
        bnd (gen_label INSERT_AFTER s) (\<lambda>(label, s).
        bnd (update_insert_pos_to_label callee s) (\<lambda>s.
        Inr (label, stat_lock_ctrl s, r))))))))
      else Inr (-1, s, r))"

definition gen_control_transfer_finish :: "x86pg \<Rightarrow> x86pg res" where
  "gen_control_transfer_finish s =
     bnd (one_insn_gen_ctrl
       (Some (''  '' @ nasm_insn_names (I ''jmp'') @ '' label'' @ fmt_d (labeli s))) INSERT_AFTER s) (\<lambda>s.
     bnd (gen_label INSERT_TAIL s) (\<lambda>(_, s). Inr s))"

subsection \<open>The list an operation leaves behind\<close>

text \<open>
  \<open>gstate s A B labs\<close>: the program is \<open>A\<close> followed by \<open>B\<close>, the next instruction goes between
  them, and label number \<open>k\<close> is the entry \<open>labs ! k\<close>.
\<close>

definition pos_of :: "(nat \<times> insn) list \<Rightarrow> nat option" where
  "pos_of A = (if A = [] then None else Some (fst (last A)))"

lemma pos_of_simps [simp]: "pos_of (A @ [x]) = Some (fst x)" "pos_of [x] = Some (fst x)" "pos_of [] = None"
  "pos_of (A @ [y, x]) = Some (fst x)"
  by (simp_all add: pos_of_def)

definition gstate :: "x86pg \<Rightarrow> (nat \<times> insn) list \<Rightarrow> (nat \<times> insn) list \<Rightarrow> nat list \<Rightarrow> bool" where
  "gstate s A B labs \<longleftrightarrow> seq_content (instlist s) (A @ B) \<and> insertpos s = pos_of A \<and>
     (A = [] \<longrightarrow> B = []) \<and> labeli s = int (length labs) \<and>
     map Some labs = take (length labs) (labelspos s)"

text \<open>The number the next entry gets, and the entries the operations make.\<close>

abbreviation next_no :: "x86pg \<Rightarrow> nat" where
  "next_no s \<equiv> brk (instlist s)"

abbreviation ctl :: "string \<Rightarrow> insn" where
  "ctl t \<equiv> blank_insn\<lparr>ctrl := Some t\<rparr>"

definition label_insn :: "nat \<Rightarrow> insn" where
  "label_insn k = ctl (''label'' @ fmt_d (int k) @ '':'')"

definition branch_insn :: "string \<Rightarrow> nat \<Rightarrow> insn" where
  "branch_insn m k = ctl (''  '' @ m @ '' label'' @ fmt_d (int k))"

text \<open>What an operation that only adds entries leaves alone.\<close>

definition same_frame :: "x86pg \<Rightarrow> x86pg \<Rightarrow> bool" where
  "same_frame s s' \<longleftrightarrow> text_sec s' = text_sec s \<and> data_sec s' = data_sec s \<and>
     lock_ctrl s' = lock_ctrl s \<and> lock_reg_cases s' = lock_reg_cases s \<and>
     curr_blk s' = curr_blk s \<and> st_opcode s' = st_opcode s \<and> need_init s' = need_init s \<and>
     opi s' = opi s \<and> has_mem_opnd s' = has_mem_opnd s \<and> init_mem_addr s' = init_mem_addr s \<and>
     trv_nodes s' = trv_nodes s"

lemma same_frame_refl [simp]: "same_frame s s"
  by (simp add: same_frame_def)

lemma same_frame_trans [trans]: "same_frame s s1 \<Longrightarrow> same_frame s1 s2 \<Longrightarrow> same_frame s s2"
  by (simp add: same_frame_def)

lemma same_frame_lock: "same_frame s s' \<Longrightarrow> lock_ctrl s' = lock_ctrl s"
  by (simp add: same_frame_def)

lemma gstate_distinct: "gstate s A B labs \<Longrightarrow> distinct (map fst (A @ B))"
  unfolding gstate_def using il.content_distinct by blast

lemma gstate_fresh: "gstate s A B labs \<Longrightarrow> x \<in> set (A @ B) \<Longrightarrow> fst x < next_no s"
  unfolding gstate_def using il.content_fresh by blast

lemma insert_after:
  assumes g: "gstate s A B labs"
  shows "\<exists>s'. stat_insert_insn i INSERT_AFTER s = Inr s' \<and> gstate s' (A @ [(next_no s, i)]) B labs \<and>
    same_frame s s' \<and> next_no s' = Suc (next_no s)"
proof (cases A rule: rev_cases)
  case Nil
  then have "seq_content (instlist s) []" "B = []" "insertpos s = None" using g by (auto simp: gstate_def)
  then obtain l' where "insnlist_insert_after (instlist s) None i = Inr (Some (next_no s), l')"
    "seq_content l' [(next_no s, i)]" "brk l' = Suc (next_no s)"
    using il.first [of "instlist s" insnlist_insert_after i] by blast
  then show ?thesis using g Nil \<open>B = []\<close>
    by (auto simp: gstate_def stat_insert_insn_def same_frame_def)
next
  case (snoc A' x)
  then have c: "seq_content (instlist s) (A' @ (fst x, snd x) # B)" and p: "insertpos s = Some (fst x)"
    using g by (auto simp: gstate_def)
  obtain l' where "insnlist_insert_after (instlist s) (Some (fst x)) i = Inr (Some (next_no s), l')"
    "seq_content l' (A' @ (fst x, snd x) # (next_no s, i) # B)" "brk l' = Suc (next_no s)"
    by (rule il.after_split [OF c])
  then show ?thesis using g snoc p
    by (auto simp: gstate_def stat_insert_insn_def same_frame_def)
qed

lemma insert_before:
  assumes g: "gstate s (A @ [x]) B labs"
  shows "\<exists>s'. stat_insert_insn i INSERT_BEFORE s = Inr s' \<and>
    gstate s' (A @ [(next_no s, i)]) (x # B) labs \<and> same_frame s s' \<and> next_no s' = Suc (next_no s)"
proof -
  have c: "seq_content (instlist s) (A @ (fst x, snd x) # B)" and p: "insertpos s = Some (fst x)"
    using g by (auto simp: gstate_def)
  obtain l' where "insnlist_insert_before (instlist s) (Some (fst x)) i = Inr (Some (next_no s), l')"
    "seq_content l' (A @ (next_no s, i) # (fst x, snd x) # B)" "brk l' = Suc (next_no s)"
    by (rule il.before_split [OF c])
  then show ?thesis using g p
    by (auto simp: gstate_def stat_insert_insn_def same_frame_def)
qed

lemma insert_before_none:
  assumes g: "gstate s [] [] labs"
  shows "\<exists>s'. stat_insert_insn i INSERT_BEFORE s = Inr s' \<and>
    gstate s' [(next_no s, i)] [] labs \<and> same_frame s s' \<and> next_no s' = Suc (next_no s)"
proof -
  have "seq_content (instlist s) []" "insertpos s = None" using g by (auto simp: gstate_def)
  then obtain l' where "insnlist_insert_before (instlist s) None i = Inr (Some (next_no s), l')"
    "seq_content l' [(next_no s, i)]" "brk l' = Suc (next_no s)"
    using il.first [of "instlist s" insnlist_insert_before i] by blast
  then show ?thesis using g
    by (auto simp: gstate_def stat_insert_insn_def same_frame_def)
qed

lemma insert_tail:
  assumes g: "gstate s A B labs"
  shows "\<exists>s'. stat_insert_insn i INSERT_TAIL s = Inr s' \<and>
    gstate s' (A @ B @ [(next_no s, i)]) [] labs \<and> same_frame s s' \<and> next_no s' = Suc (next_no s)"
proof -
  have "seq_content (instlist s) (A @ B)" using g by (auto simp: gstate_def)
  then obtain l' where "insnlist_insert_tail (instlist s) i = Inr (Some (next_no s), l')"
    "seq_content l' ((A @ B) @ [(next_no s, i)])" "brk l' = Suc (next_no s)"
    using il.at_tail [of "instlist s" "A @ B" i] by blast
  then show ?thesis using g
    by (auto simp: gstate_def stat_insert_insn_def same_frame_def pos_of_def)
qed

text \<open>A new label is numbered by the labels so far and becomes the last of them.\<close>

lemma gstate_new_label:
  assumes "gstate s A B labs" "pos_of A = Some n"
  shows "gstate (s\<lparr>labeli := labeli s + 1,
      labelspos := take (nat (labeli s)) (labelspos s) @ [insertpos s]\<rparr>) A B (labs @ [n])"
proof -
  have "map Some labs = take (length labs) (labelspos s)" using assms by (simp add: gstate_def)
  then have "length (take (length labs) (labelspos s)) = length labs" by (metis length_map)
  then show ?thesis using assms by (auto simp: gstate_def)
qed

lemma gen_label_by:
  assumes l: "\<not> lock_ctrl s" and k: "labeli s = int (length labs)"
    and ins: "\<exists>s'. stat_insert_insn (label_insn (length labs)) pos s = Inr s' \<and>
      gstate s' (A @ [(next_no s, label_insn (length labs))]) B labs \<and> same_frame s s' \<and>
      next_no s' = Suc (next_no s)"
  shows "\<exists>s'. gen_label pos s = Inr (int (length labs), s') \<and>
    gstate s' (A @ [(next_no s, label_insn (length labs))]) B (labs @ [next_no s]) \<and>
    same_frame s s' \<and> next_no s' = Suc (next_no s)"
proof -
  obtain s1 where s1: "stat_insert_insn (label_insn (length labs)) pos s = Inr s1"
      "gstate s1 (A @ [(next_no s, label_insn (length labs))]) B labs" "same_frame s s1"
      "next_no s1 = Suc (next_no s)" using ins by blast
  let ?s2 = "s1\<lparr>labeli := labeli s1 + 1,
      labelspos := take (nat (labeli s1)) (labelspos s1) @ [insertpos s1]\<rparr>"
  have "labeli s1 = int (length labs)" using s1(2) by (simp add: gstate_def)
  then have "gen_label pos s = Inr (int (length labs), ?s2)"
    using l s1(1) k by (simp add: gen_label_def one_insn_gen_ctrl_def label_insn_def stat_inc_labeli_def)
  moreover have "gstate ?s2 (A @ [(next_no s, label_insn (length labs))]) B (labs @ [next_no s])"
    using gstate_new_label [OF s1(2)] by simp
  moreover have "same_frame s1 ?s2" by (simp add: same_frame_def)
  ultimately show ?thesis using s1 same_frame_trans [OF s1(3)] by auto
qed

lemma gen_label_after:
  assumes "gstate s A B labs" "\<not> lock_ctrl s"
  shows "\<exists>s'. gen_label INSERT_AFTER s = Inr (int (length labs), s') \<and>
    gstate s' (A @ [(next_no s, label_insn (length labs))]) B (labs @ [next_no s]) \<and>
    same_frame s s' \<and> next_no s' = Suc (next_no s)"
  using assms insert_after [OF assms(1)] by (intro gen_label_by) (auto simp: gstate_def)

lemma gen_label_before:
  assumes "gstate s (A @ [x]) B labs" "\<not> lock_ctrl s"
  shows "\<exists>s'. gen_label INSERT_BEFORE s = Inr (int (length labs), s') \<and>
    gstate s' (A @ [(next_no s, label_insn (length labs))]) (x # B) (labs @ [next_no s]) \<and>
    same_frame s s' \<and> next_no s' = Suc (next_no s)"
  using assms insert_before [OF assms(1)] by (intro gen_label_by) (auto simp: gstate_def)

lemma gen_label_tail:
  assumes "gstate s A B labs" "\<not> lock_ctrl s"
  shows "\<exists>s'. gen_label INSERT_TAIL s = Inr (int (length labs), s') \<and>
    gstate s' (A @ B @ [(next_no s, label_insn (length labs))]) [] (labs @ [next_no s]) \<and>
    same_frame s s' \<and> next_no s' = Suc (next_no s)"
  using assms insert_tail [OF assms(1)] gen_label_by [of s labs INSERT_TAIL "A @ B" "[]"]
  by (auto simp: gstate_def)

lemma gen_label_locked: "lock_ctrl s \<Longrightarrow> gen_label pos s = Inr (-1, s)"
  by (simp add: gen_label_def)

text \<open>Moving to a label: the program is split behind the label's entry.\<close>

lemma move_to_label:
  assumes g: "gstate s A B labs" and k: "k < length labs" and sp: "A @ B = A' @ x # B'"
    and x: "fst x = labs ! k"
  shows "\<exists>s'. update_insert_pos_to_label (int k) s = Inr s' \<and> gstate s' (A' @ [x]) B' labs \<and>
    same_frame s s' \<and> next_no s' = next_no s"
proof -
  have m: "map Some labs = take (length labs) (labelspos s)" using g by (simp add: gstate_def)
  then have len: "k < length (labelspos s)" using k
    by (metis length_map length_take min_less_iff_conj)
  moreover have "labelspos s ! k = Some (labs ! k)" using m k by (metis nth_map nth_take)
  ultimately have "update_insert_pos_to_label (int k) s = Inr (s\<lparr>insertpos := Some (fst x)\<rparr>)"
    using x by (simp add: update_insert_pos_to_label_def)
  moreover have "gstate (s\<lparr>insertpos := Some (fst x)\<rparr>) (A' @ [x]) B' labs"
    using g sp by (simp add: gstate_def)
  ultimately show ?thesis by (auto simp: same_frame_def)
qed

lemma ctl_after:
  assumes "gstate s A B labs"
  shows "\<exists>s'. one_insn_gen_ctrl (Some t) INSERT_AFTER s = Inr s' \<and>
    gstate s' (A @ [(next_no s, ctl t)]) B labs \<and> same_frame s s' \<and> next_no s' = Suc (next_no s)"
  using insert_after [OF assms] by (simp add: one_insn_gen_ctrl_def)

lemma ctl_before:
  assumes "gstate s (A @ [x]) B labs"
  shows "\<exists>s'. one_insn_gen_ctrl (Some t) INSERT_BEFORE s = Inr s' \<and>
    gstate s' (A @ [(next_no s, ctl t)]) (x # B) labs \<and> same_frame s s' \<and>
    next_no s' = Suc (next_no s)"
  using insert_before [OF assms] by (simp add: one_insn_gen_ctrl_def)

lemma gen_jmp_to_label_effect:
  assumes g: "gstate s A B labs" and l: "\<not> lock_ctrl s" and k: "k < length labs"
    and sp: "A @ B = A' @ x # B'" and x: "fst x = labs ! k"
  shows "\<exists>s'. gen_jmp_to_label (int k) s = Inr s' \<and>
    gstate s' (A' @ [(next_no s, branch_insn ''jmp'' k), (Suc (next_no s), label_insn (length labs))])
      (x # B') (labs @ [Suc (next_no s)]) \<and>
    same_frame s s' \<and> next_no s' = Suc (Suc (next_no s))"
proof -
  obtain s1 where s1: "update_insert_pos_to_label (int k) s = Inr s1" "gstate s1 (A' @ [x]) B' labs"
    "same_frame s s1" "next_no s1 = next_no s" using move_to_label [OF g k sp x] by blast
  let ?t = "''  jmp label'' @ fmt_d (int k)"
  obtain s2 where s2: "one_insn_gen_ctrl (Some ?t) INSERT_BEFORE s1 = Inr s2"
    "gstate s2 (A' @ [(next_no s1, ctl ?t)]) (x # B') labs" "same_frame s1 s2"
    "next_no s2 = Suc (next_no s1)" using ctl_before [OF s1(2)] by blast
  have "\<not> lock_ctrl s2" using l s1(3) s2(3) by (simp add: same_frame_def)
  then obtain s3 where s3: "gen_label INSERT_AFTER s2 = Inr (int (length labs), s3)"
    "gstate s3 ((A' @ [(next_no s1, ctl ?t)]) @ [(next_no s2, label_insn (length labs))]) (x # B')
       (labs @ [next_no s2])" "same_frame s2 s3" "next_no s3 = Suc (next_no s2)"
    using gen_label_after [OF s2(2)] by blast
  have "same_frame s s3" using s1(3) s2(3) s3(3) by (simp add: same_frame_def)
  then show ?thesis using s1 s2 s3
    by (simp add: gen_jmp_to_label_def branch_insn_def)
qed

text \<open>The entries of a run of branches to the label that comes next.\<close>

fun branch_run :: "nat \<Rightarrow> nat \<Rightarrow> opcode list \<Rightarrow> (nat \<times> insn) list" where
  "branch_run n k [] = []"
| "branch_run n k (opc # opcs) = (n, branch_insn (nasm_insn_names opc) k) # branch_run (Suc n) k opcs"

lemma gen_jmp_insns_effect:
  assumes "gstate s A B labs"
  shows "\<exists>s'. gen_jmp_insns opcs s = Inr s' \<and>
    gstate s' (A @ branch_run (next_no s) (length labs) opcs) B labs \<and>
    same_frame s s' \<and> next_no s' = next_no s + length opcs"
  using assms
proof (induction opcs arbitrary: s A)
  case Nil
  then show ?case by (simp add: gen_jmp_insns_def)
next
  case (Cons opc opcs)
  let ?t = "''  '' @ nasm_insn_names opc @ '' label'' @ fmt_d (labeli s)"
  obtain s1 where s1: "one_insn_gen_ctrl (Some ?t) INSERT_AFTER s = Inr s1"
    "gstate s1 (A @ [(next_no s, ctl ?t)]) B labs" "same_frame s s1" "next_no s1 = Suc (next_no s)"
    using ctl_after [OF Cons.prems] by blast
  obtain s2 where s2: "gen_jmp_insns opcs s1 = Inr s2"
    "gstate s2 ((A @ [(next_no s, ctl ?t)]) @ branch_run (next_no s1) (length labs) opcs) B labs"
    "same_frame s1 s2" "next_no s2 = next_no s1 + length opcs" using Cons.IH [OF s1(2)] by blast
  have "labeli s = int (length labs)" using Cons.prems by (simp add: gstate_def)
  moreover have "same_frame s s2" using s1(3) s2(3) by (simp add: same_frame_def)
  ultimately show ?case using s1 s2 by (simp add: gen_jmp_insns_def branch_insn_def)
qed

text \<open>Without a label so far the new one goes before the branch; otherwise next to an old one.\<close>

lemma gen_jmp_target_first:
  assumes g: "gstate s (A @ [x]) B []" and l: "\<not> lock_ctrl s"
  shows "\<exists>s'. gen_jmp_target s r = Inr (-1, s', r) \<and>
    gstate s' (A @ [(next_no s, label_insn 0)]) (x # B) [next_no s] \<and> same_frame s s' \<and>
    next_no s' = Suc (next_no s)"
proof -
  have "labeli s = 0" using g by (simp add: gstate_def)
  then show ?thesis using gen_label_before [OF g l]
    by (fastforce simp: gen_jmp_target_def select_one_label_def)
qed

lemma gen_jmp_target_label:
  assumes g: "gstate s A B labs" and l: "\<not> lock_ctrl s" and ne: "labs \<noteq> []"
    and mem: "\<And>k. k < length labs \<Longrightarrow> labs ! k \<in> fst ` set (A @ B)"
  shows "\<exists>k s' A' x B'. gen_jmp_target s r = Inr (int k, s', stl r) \<and> k < length labs \<and>
    A @ B = A' @ x # B' \<and> fst x = labs ! k \<and>
    gstate s' (A' @ [(next_no s, branch_insn ''jmp'' k), (Suc (next_no s), label_insn (length labs))])
      (x # B') (labs @ [Suc (next_no s)]) \<and>
    same_frame s s' \<and> next_no s' = Suc (Suc (next_no s))"
proof -
  have n: "labeli s = int (length labs)" using g by (simp add: gstate_def)
  then obtain x r' where x: "nasm_random32 (labeli s) r = Inr (x, r')"
    using nasm_random32_total [of "labeli s" r] ne by auto
  define k where "k = nat x"
  have k: "x = int k" "k < length labs" "r' = stl r"
    using nasm_random32_range [OF x] n by (auto simp: k_def)
  obtain y where "y \<in> set (A @ B)" "fst y = labs ! k" using mem [OF k(2)] by (metis imageE)
  then obtain A' B' where sp: "A @ B = A' @ y # B'" by (meson split_list)
  have y: "fst y = labs ! k" by fact
  have "select_one_label s r = Inr (int k, stl r)" using x k n ne by (simp add: select_one_label_def)
  then show ?thesis
    using gen_jmp_to_label_effect [OF g l k(2) sp y] k(2) sp y
    by (fastforce simp: gen_jmp_target_def)
qed

lemma gstate_lock [simp]:
  "gstate (stat_lock_ctrl s) A B labs = gstate s A B labs"
  "gstate (stat_unlock_ctrl s) A B labs = gstate s A B labs"
  "gstate (stat_lock_reg q c s) A B labs = gstate s A B labs"
  by (simp_all add: gstate_def stat_lock_ctrl_def stat_unlock_ctrl_def stat_lock_reg_def)

text \<open>\<open>loop\<close> writes its four entries backwards and leaves the position inside the loop.\<close>

definition loop_init_insn :: "int \<Rightarrow> insn" where
  "loop_init_insn n = ctl (''  mov ecx,0x'' @ fmt_x (word_of_int n))"

lemma gen_loop_effect:
  assumes g: "gstate s A B labs" and l: "\<not> lock_ctrl s"
    and opc: "is_loop opc"
  defines "n \<equiv> next_no s" and "N \<equiv> length labs"
  shows "\<exists>s'. gen_control_transfer_insn opc m s r = Inr (int N, s', r) \<and>
    gstate s' (A @ [(n + 2, loop_init_insn m), (n + 3, label_insn (N + 1))])
      ((n + 1, branch_insn (nasm_insn_names opc) (N + 1)) # (n, label_insn N) # B)
      (labs @ [n, n + 3]) \<and> lock_ctrl s' \<and> next_no s' = n + 4"
proof -
  obtain s1 where s1: "gen_label INSERT_AFTER s = Inr (int N, s1)"
    "gstate s1 (A @ [(n, label_insn N)]) B (labs @ [n])" "same_frame s s1" "next_no s1 = Suc n"
    using gen_label_after [OF g l] unfolding n_def N_def by blast
  have l1: "labeli s1 = int (N + 1)" using s1(2) by (simp add: gstate_def N_def)
  let ?t = "''  '' @ nasm_insn_names opc @ '' label'' @ fmt_d (labeli s1)"
  obtain s2 where s2: "one_insn_gen_ctrl (Some ?t) INSERT_BEFORE s1 = Inr s2"
    "gstate s2 (A @ [(next_no s1, ctl ?t)]) ((n, label_insn N) # B) (labs @ [n])"
    "same_frame s1 s2" "next_no s2 = Suc (next_no s1)" using ctl_before [OF s1(2)] by blast
  let ?m = "''  mov ecx,0x'' @ fmt_x (word_of_int m)"
  obtain s3 where s3: "one_insn_gen_ctrl (Some ?m) INSERT_BEFORE s2 = Inr s3"
    "gstate s3 (A @ [(next_no s2, ctl ?m)]) ((next_no s1, ctl ?t) # (n, label_insn N) # B) (labs @ [n])"
    "same_frame s2 s3" "next_no s3 = Suc (next_no s2)" using ctl_before [OF s2(2)] by blast
  have "\<not> lock_ctrl s3" using l s1(3) s2(3) s3(3) by (simp add: same_frame_def)
  from gen_label_after [OF s3(2) this] obtain s4 where
    s4: "gen_label INSERT_AFTER s3 = Inr (int (length (labs @ [n])), s4)"
    "gstate s4 ((A @ [(next_no s2, ctl ?m)]) @ [(next_no s3, label_insn (length (labs @ [n])))])
      ((next_no s1, ctl ?t) # (n, label_insn N) # B) ((labs @ [n]) @ [next_no s3])"
    "next_no s4 = Suc (next_no s3)" by blast
  have dis: "opc \<noteq> I ''jmp''" "\<not> is_jcc opc" using opc by (auto simp: is_loop_def is_jcc_def)
  let ?s' = "stat_lock_reg (R ''ecx'') LOCK_REG_CASE_LOOP (stat_lock_ctrl s4)"
  have "gen_control_transfer_insn opc m s r = Inr (int N, ?s', r)"
    using dis opc l s1(1) s2(1) s3(1) s4(1) by (simp add: gen_control_transfer_insn_def)
  moreover have "lock_ctrl ?s'" "next_no ?s' = n + 4"
    using s1(4) s2(4) s3(4) s4(3) by (simp_all add: stat_lock_reg_def stat_lock_ctrl_def)
  moreover have "[(next_no s2, ctl ?m), (next_no s3, label_insn (length (labs @ [n])))] =
      [(n + 2, loop_init_insn m), (n + 3, label_insn (N + 1))]"
    "(next_no s1, ctl ?t) = (n + 1, branch_insn (nasm_insn_names opc) (N + 1))"
    "(labs @ [n]) @ [next_no s3] = labs @ [n, n + 3]"
    using s1(4) s2(4) s3(4) l1 by (simp_all add: loop_init_insn_def branch_insn_def N_def)
  ultimately show ?thesis using s4(2) by auto
qed

text \<open>\<open>call\<close> lays down the callee's frame and the call, and moves back to the callee's body.\<close>

definition ret_insn :: insn where
  "ret_insn = ctl (''  '' @ nasm_insn_names (I ''ret''))"

definition call_head :: "nat \<Rightarrow> nat \<Rightarrow> (nat \<times> insn) list" where
  "call_head n N = [(n, branch_insn ''jmp'' (N + 1)), (n + 1, label_insn N)]"

definition call_rest :: "nat \<Rightarrow> nat \<Rightarrow> (nat \<times> insn) list" where
  "call_rest n N = [(n + 2, ret_insn), (n + 3, label_insn (N + 1)), (n + 4, branch_insn ''call'' N),
     (n + 5, label_insn (N + 2))]"

lemma gen_call_effect:
  assumes g: "gstate s A B labs" and l: "\<not> lock_ctrl s"
  defines "n \<equiv> next_no s" and "N \<equiv> length labs"
  shows "\<exists>s'. gen_control_transfer_insn (I ''call'') m s r = Inr (int (N + 2), s', r) \<and>
    gstate s' (A @ call_head n N) (call_rest n N @ B) (labs @ [n + 1, n + 3, n + 5]) \<and>
    lock_ctrl s' \<and> next_no s' = n + 6"
proof -
  let ?j = "''  jmp label'' @ fmt_d (labeli s + 1)"
  have l0: "labeli s = int N" using g by (simp add: gstate_def N_def)
  obtain s1 where s1: "one_insn_gen_ctrl (Some ?j) INSERT_AFTER s = Inr s1"
    "gstate s1 (A @ [(n, ctl ?j)]) B labs" "same_frame s s1" "next_no s1 = Suc n"
    using ctl_after [OF g] unfolding n_def by blast
  have "\<not> lock_ctrl s1" using l s1(3) by (simp add: same_frame_def)
  from gen_label_after [OF s1(2) this] obtain s2 where s2: "gen_label INSERT_AFTER s1 = Inr (int N, s2)"
    "gstate s2 ((A @ [(n, ctl ?j)]) @ [(next_no s1, label_insn N)]) B (labs @ [next_no s1])"
    "same_frame s1 s2" "next_no s2 = Suc (next_no s1)" unfolding N_def by blast
  let ?r = "''  '' @ nasm_insn_names (I ''ret'')"
  obtain s3 where s3: "one_insn_gen_ctrl (Some ?r) INSERT_AFTER s2 = Inr s3"
    "gstate s3 (((A @ [(n, ctl ?j)]) @ [(next_no s1, label_insn N)]) @ [(next_no s2, ctl ?r)]) B
      (labs @ [next_no s1])" "same_frame s2 s3" "next_no s3 = Suc (next_no s2)"
    using ctl_after [OF s2(2)] by blast
  have "\<not> lock_ctrl s3" using l s1(3) s2(3) s3(3) by (simp add: same_frame_def)
  from gen_label_after [OF s3(2) this] obtain s4 where
    s4: "gen_label INSERT_AFTER s3 = Inr (int (length (labs @ [next_no s1])), s4)"
    "gstate s4 ((((A @ [(n, ctl ?j)]) @ [(next_no s1, label_insn N)]) @ [(next_no s2, ctl ?r)])
       @ [(next_no s3, label_insn (length (labs @ [next_no s1])))]) B
      ((labs @ [next_no s1]) @ [next_no s3])"
    "same_frame s3 s4" "next_no s4 = Suc (next_no s3)" by blast
  let ?c = "''  '' @ nasm_insn_names (I ''call'') @ '' label'' @ fmt_d (int N)"
  obtain s5 where s5: "one_insn_gen_ctrl (Some ?c) INSERT_AFTER s4 = Inr s5"
    "gstate s5 (((((A @ [(n, ctl ?j)]) @ [(next_no s1, label_insn N)]) @ [(next_no s2, ctl ?r)])
       @ [(next_no s3, label_insn (length (labs @ [next_no s1])))]) @ [(next_no s4, ctl ?c)]) B
      ((labs @ [next_no s1]) @ [next_no s3])"
    "same_frame s4 s5" "next_no s5 = Suc (next_no s4)" using ctl_after [OF s4(2)] by blast
  have "\<not> lock_ctrl s5" using l s1(3) s2(3) s3(3) s4(3) s5(3) by (simp add: same_frame_def)
  from gen_label_after [OF s5(2) this] obtain s6 where
    s6: "gen_label INSERT_AFTER s5 = Inr (int (length ((labs @ [next_no s1]) @ [next_no s3])), s6)"
    "gstate s6 ((((((A @ [(n, ctl ?j)]) @ [(next_no s1, label_insn N)]) @ [(next_no s2, ctl ?r)])
       @ [(next_no s3, label_insn (length (labs @ [next_no s1])))]) @ [(next_no s4, ctl ?c)])
       @ [(next_no s5, label_insn (length ((labs @ [next_no s1]) @ [next_no s3])))]) B
      (((labs @ [next_no s1]) @ [next_no s3]) @ [next_no s5])"
    "next_no s6 = Suc (next_no s5)" by blast
  have e: "((((((A @ [(n, ctl ?j)]) @ [(next_no s1, label_insn N)]) @ [(next_no s2, ctl ?r)])
       @ [(next_no s3, label_insn (length (labs @ [next_no s1])))]) @ [(next_no s4, ctl ?c)])
       @ [(next_no s5, label_insn (length ((labs @ [next_no s1]) @ [next_no s3])))]) =
      A @ call_head n N @ call_rest n N"
    "((labs @ [next_no s1]) @ [next_no s3]) @ [next_no s5] = labs @ [n + 1, n + 3, n + 5]"
    using s1(4) s2(4) s3(4) s4(4) s5(4) l0
    by (simp_all add: call_head_def call_rest_def branch_insn_def ret_insn_def nasm_insn_names_def N_def
        add.commute)
  have g6: "gstate s6 (A @ call_head n N @ call_rest n N) B (labs @ [n + 1, n + 3, n + 5])"
    using s6(2) e by simp
  have "N < length (labs @ [n + 1, n + 3, n + 5])" by (simp add: N_def)
  moreover have "(A @ call_head n N @ call_rest n N) @ B =
      (A @ [(n, branch_insn ''jmp'' (N + 1))]) @ (n + 1, label_insn N) # call_rest n N @ B"
    by (simp add: call_head_def)
  moreover have "fst (n + 1, label_insn N) = (labs @ [n + 1, n + 3, n + 5]) ! N" by (simp add: N_def)
  ultimately obtain s7 where s7: "update_insert_pos_to_label (int N) s6 = Inr s7"
    "gstate s7 ((A @ [(n, branch_insn ''jmp'' (N + 1))]) @ [(n + 1, label_insn N)]) (call_rest n N @ B)
      (labs @ [n + 1, n + 3, n + 5])" "next_no s7 = next_no s6"
    using move_to_label [OF g6, of N] by blast
  have dis: "\<not> is_jcc (I ''call'')" "\<not> is_loop (I ''call'')" by (simp_all add: is_loop_def is_jcc_def)
  have "gen_control_transfer_insn (I ''call'') m s r = Inr (int (N + 2), stat_lock_ctrl s7, r)"
    using dis l s1(1) s2(1) s3(1) s4(1) s5(1) s6(1) s7(1)
    by (simp add: gen_control_transfer_insn_def N_def)
  then show ?thesis using s7 s1(4) s2(4) s3(4) s4(4) s5(4) s6(3)
    by (auto simp: call_head_def stat_lock_ctrl_def gstate_def)
qed

text \<open>The jump to the end and the label it goes to.\<close>

lemma gen_finish_effect:
  assumes g: "gstate s A B labs" and l: "\<not> lock_ctrl s"
  shows "\<exists>s'. gen_control_transfer_finish s = Inr s' \<and>
    gstate s' (A @ (next_no s, branch_insn ''jmp'' (length labs)) # B @
      [(Suc (next_no s), label_insn (length labs))]) [] (labs @ [Suc (next_no s)])"
proof -
  have l0: "labeli s = int (length labs)" using g by (simp add: gstate_def)
  let ?j = "''  '' @ nasm_insn_names (I ''jmp'') @ '' label'' @ fmt_d (labeli s)"
  obtain s1 where s1: "one_insn_gen_ctrl (Some ?j) INSERT_AFTER s = Inr s1"
    "gstate s1 (A @ [(next_no s, ctl ?j)]) B labs" "same_frame s s1" "next_no s1 = Suc (next_no s)"
    using ctl_after [OF g] by blast
  have "\<not> lock_ctrl s1" using l s1(3) by (simp add: same_frame_def)
  from gen_label_tail [OF s1(2) this] obtain s2 where
    "gen_label INSERT_TAIL s1 = Inr (int (length labs), s2)"
    "gstate s2 ((A @ [(next_no s, ctl ?j)]) @ B @ [(next_no s1, label_insn (length labs))]) []
      (labs @ [next_no s1])" by blast
  then show ?thesis using s1 l0
    by (simp add: gen_control_transfer_finish_def branch_insn_def nasm_insn_names_def)
qed

end
