(* ===== verification/Flow.thy ===== *)
theory Flow
  imports Ctrl
begin

text \<open>
  The control flow of the generated program, read off the text of its entries, and the invariant
  the control transfers of \<open>engine/ctrl.c\<close> keep: the program's path from the first entry to the
  insertion position executes every instruction that was emitted, in the order of emission.
\<close>

subsection \<open>Reading an entry\<close>

definition label_of :: "insn \<Rightarrow> nat option" where
  "label_of i = (case ctrl i of None \<Rightarrow> None | Some t \<Rightarrow>
     if take 5 t = ''label'' \<and> last t = CHR '':'' then Some (read_numeral 10 (butlast (drop 5 t)))
     else None)"

definition mnemonic_of :: "insn \<Rightarrow> string" where
  "mnemonic_of i = (case ctrl i of None \<Rightarrow> nasm_insn_names (opcode_of i) | Some t \<Rightarrow>
     if take 2 t = ''  '' then takeWhile (\<lambda>c. c \<noteq> CHR '' '') (drop 2 t) else '''')"

text \<open>The words of the transfers; only they have a target.\<close>

definition is_transfer :: "string \<Rightarrow> bool" where
  "is_transfer m \<longleftrightarrow> m \<in> {''jmp'', ''call'', ''ret'', ''retf'', ''retn'', ''iret'', ''iretd'', ''iretw''} \<or>
     is_jcc (I m) \<or> is_loop (I m)"

definition target_of :: "insn \<Rightarrow> nat option" where
  "target_of i = (case ctrl i of None \<Rightarrow> None | Some t \<Rightarrow>
     (let a = dropWhile (\<lambda>c. c \<noteq> CHR '' '') (drop 2 t) in
      if take 2 t = ''  '' \<and> take 6 a = '' label'' \<and> is_transfer (takeWhile (\<lambda>c. c \<noteq> CHR '' '') (drop 2 t))
      then Some (read_numeral 10 (drop 6 a)) else None))"

definition falls :: "insn \<Rightarrow> bool" where
  "falls i \<longleftrightarrow> mnemonic_of i \<noteq> ''jmp'' \<and> mnemonic_of i \<noteq> ''ret''"

text \<open>
  A plain entry is no label and no transfer: an instruction the assembler parsed, or a text whose
  first line is one.
\<close>

definition plain :: "insn \<Rightarrow> bool" where
  "plain i \<longleftrightarrow> label_of i = None \<and> target_of i = None \<and> \<not> is_transfer (mnemonic_of i)"

lemma plain_falls: "plain i \<Longrightarrow> falls i \<and> mnemonic_of i \<noteq> ''call''"
  by (auto simp: plain_def falls_def is_transfer_def)

lemma read_numeral_fmt: "read_numeral 10 (fmt_d (int k)) = k"
  by (simp add: fmt_d_def read_numeral_string)

lemma label_insn_reads [fmt_simps]:
  "label_of (label_insn k) = Some k" "target_of (label_insn k) = None"
  "mnemonic_of (label_insn k) = ''''" "\<not> plain (label_insn k)" "falls (label_insn k)"
proof -
  show l: "label_of (label_insn k) = Some k"
    by (simp add: label_of_def label_insn_def read_numeral_fmt butlast_append)
  show "target_of (label_insn k) = None" "mnemonic_of (label_insn k) = ''''"
    by (simp_all add: target_of_def mnemonic_of_def label_insn_def)
  then show "\<not> plain (label_insn k)" "falls (label_insn k)"
    using l by (simp_all add: plain_def falls_def)
qed

lemma takeWhile_word: "CHR '' '' \<notin> set m \<Longrightarrow> takeWhile (\<lambda>c. c \<noteq> CHR '' '') (m @ CHR '' '' # t) = m \<and>
    dropWhile (\<lambda>c. c \<noteq> CHR '' '') (m @ CHR '' '' # t) = CHR '' '' # t"
  by (induction m) auto

lemma branch_insn_reads:
  assumes "CHR '' '' \<notin> set m" "is_transfer m"
  shows "label_of (branch_insn m k) = None" "target_of (branch_insn m k) = Some k"
    "mnemonic_of (branch_insn m k) = m" "\<not> plain (branch_insn m k)"
proof -
  show l: "label_of (branch_insn m k) = None" by (simp add: label_of_def branch_insn_def)
  show t: "target_of (branch_insn m k) = Some k" "mnemonic_of (branch_insn m k) = m"
    using takeWhile_word [OF assms(1), of "''label'' @ fmt_d (int k)"] assms(2)
    by (simp_all add: target_of_def mnemonic_of_def branch_insn_def read_numeral_fmt)
  then show "\<not> plain (branch_insn m k)" by (simp add: plain_def)
qed

lemma ret_insn_reads [fmt_simps]:
  "label_of ret_insn = None" "target_of ret_insn = None" "mnemonic_of ret_insn = ''ret''"
  "\<not> plain ret_insn"
  by (simp_all add: label_of_def target_of_def mnemonic_of_def plain_def is_transfer_def ret_insn_def
      nasm_insn_names_def)

lemma loop_init_insn_reads [fmt_simps]:
  "label_of (loop_init_insn n) = None" "target_of (loop_init_insn n) = None"
  "mnemonic_of (loop_init_insn n) = ''mov''" "plain (loop_init_insn n)"
  by (simp_all add: label_of_def target_of_def mnemonic_of_def plain_def is_transfer_def is_jcc_def is_loop_def loop_init_insn_def)

lemma instruction_plain: "ctrl i = None \<Longrightarrow> \<not> is_transfer (nasm_insn_names (opcode_of i)) \<Longrightarrow> plain i"
  by (simp add: plain_def label_of_def target_of_def mnemonic_of_def)

text \<open>The words of the branches.\<close>

lemma opc_words:
  "is_jcc opc \<Longrightarrow> CHR '' '' \<notin> set (nasm_insn_names opc) \<and> nasm_insn_names opc \<notin> {''jmp'', ''ret'', ''call''}"
  "is_loop opc \<Longrightarrow> CHR '' '' \<notin> set (nasm_insn_names opc) \<and> nasm_insn_names opc \<notin> {''jmp'', ''ret'', ''call''}"
  unfolding is_jcc_def is_loop_def nasm_insn_names_def by (auto; simp)+

lemma is_transfer_opc [simp]: "is_transfer ''jmp''" "is_transfer ''call''"
  "is_jcc opc \<Longrightarrow> is_transfer (nasm_insn_names opc)" "is_loop opc \<Longrightarrow> is_transfer (nasm_insn_names opc)"
  by (auto simp: is_transfer_def is_jcc_def is_loop_def nasm_insn_names_def)

lemma word_reads [fmt_simps]:
  "label_of (branch_insn ''jmp'' k) = None" "target_of (branch_insn ''jmp'' k) = Some k"
  "mnemonic_of (branch_insn ''jmp'' k) = ''jmp''" "\<not> plain (branch_insn ''jmp'' k)"
  "label_of (branch_insn ''call'' k) = None" "target_of (branch_insn ''call'' k) = Some k"
  "mnemonic_of (branch_insn ''call'' k) = ''call''" "\<not> plain (branch_insn ''call'' k)"
  by (simp_all add: branch_insn_reads)

subsection \<open>Control flow\<close>

text \<open>
  Where control can go from an entry: to the next one, to the entry that carries the label of
  the branch, and from a \<open>ret\<close> to the entry behind a \<open>call\<close>.
\<close>

inductive flow :: "(nat \<times> insn) list \<Rightarrow> nat \<Rightarrow> nat \<Rightarrow> bool" for xs where
  fall: "xs = ys @ (a, i) # (b, j) # zs \<Longrightarrow> falls i \<Longrightarrow> flow xs a b"
| jump: "(a, i) \<in> set xs \<Longrightarrow> target_of i = Some k \<Longrightarrow> (b, j) \<in> set xs \<Longrightarrow> label_of j = Some k \<Longrightarrow> flow xs a b"
| return: "(a, i) \<in> set xs \<Longrightarrow> mnemonic_of i = ''ret'' \<Longrightarrow> xs = ys @ (c, k) # (b, j) # zs \<Longrightarrow>
    mnemonic_of k = ''call'' \<Longrightarrow> flow xs a b"

lemma adjacent_insert:
  assumes "A @ B = ys @ x # y # zs"
  shows "(\<exists>us vs. A @ N @ B = us @ x # y # vs) \<or> (A \<noteq> [] \<and> x = last A \<and> B = y # zs)"
proof -
  have "A @ B = (ys @ [x]) @ y # zs" using assms by simp
  then obtain us where "A = (ys @ [x]) @ us \<and> us @ B = y # zs \<or> A @ us = ys @ [x] \<and> B = us @ y # zs"
    by (auto simp only: append_eq_append_conv2)
  then show ?thesis
  proof
    assume "A = (ys @ [x]) @ us \<and> us @ B = y # zs"
    then show ?thesis by (cases us) auto
  next
    assume u: "A @ us = ys @ [x] \<and> B = us @ y # zs"
    show ?thesis
    proof (cases us rule: rev_cases)
      case Nil
      then show ?thesis using u by auto
    next
      case (snoc us' z)
      then have "B = us' @ x # y # zs" using u by auto
      then show ?thesis by (metis append.assoc)
    qed
  qed
qed

text \<open>
  Putting a block between two parts of the program keeps every edge but those across the seam,
  which now lead into the block.
\<close>

lemma flow_insert:
  assumes "flow (A @ B) a b" and "N \<noteq> []"
  shows "flow (A @ N @ B) a b \<or>
    (A \<noteq> [] \<and> B \<noteq> [] \<and> b = fst (hd B) \<and> flow (A @ N @ B) a (fst (hd N)) \<and>
     (a = fst (last A) \<or> mnemonic_of (snd (last A)) = ''call''))"
  using assms(1)
proof (cases rule: flow.cases)
  case (fall ys i j zs)
  show ?thesis
    using adjacent_insert [OF fall(1), of N]
  proof
    assume "\<exists>us vs. A @ N @ B = us @ (a, i) # (b, j) # vs"
    then show ?thesis using fall(2) by (auto intro: flow.fall)
  next
    assume s: "A \<noteq> [] \<and> (a, i) = last A \<and> B = (b, j) # zs"
    then have "A @ N @ B = butlast A @ (a, i) # (fst (hd N), snd (hd N)) # tl N @ B"
      using assms(2) by (metis append_butlast_last_id append.assoc append_Cons append_Nil
          list.collapse prod.collapse)
    then have "flow (A @ N @ B) a (fst (hd N))" using fall(2) by (rule flow.fall)
    then show ?thesis using s by (metis fst_conv list.sel(1) list.discI)
  qed
next
  case (jump i k j)
  then show ?thesis using flow.jump [of a i "A @ N @ B" k b j] by auto
next
  case (return i ys c k j zs)
  have a: "(a, i) \<in> set (A @ N @ B)" using return(1) by auto
  show ?thesis
    using adjacent_insert [OF return(3), of N]
  proof
    assume "\<exists>us vs. A @ N @ B = us @ (c, k) # (b, j) # vs"
    then obtain us vs where "A @ N @ B = us @ (c, k) # (b, j) # vs" by blast
    from flow.return [OF a return(2) this return(4)] show ?thesis ..
  next
    assume s: "A \<noteq> [] \<and> (c, k) = last A \<and> B = (b, j) # zs"
    then have "A @ N @ B = butlast A @ (c, k) # (fst (hd N), snd (hd N)) # tl N @ B"
      using assms(2) by (metis append_butlast_last_id append.assoc append_Cons append_Nil
          list.collapse prod.collapse)
    from flow.return [OF a return(2) this return(4)]
    show ?thesis using s return(4) by (metis fst_conv snd_conv list.sel(1) list.discI)
  qed
qed

text \<open>The insertion position is never at an entry that leaves the line of text, nor at a call.\<close>

definition holds_pos :: "insn \<Rightarrow> bool" where
  "holds_pos i \<longleftrightarrow> falls i \<and> mnemonic_of i \<noteq> ''call''"

lemma flow_insert_other:
  assumes "flow (A @ B) a b" "N \<noteq> []" "A \<noteq> [] \<Longrightarrow> a \<noteq> fst (last A)"
    and "A \<noteq> [] \<Longrightarrow> mnemonic_of (snd (last A)) \<noteq> ''call''"
  shows "flow (A @ N @ B) a b"
  using flow_insert [OF assms(1,2)] assms(3,4) by auto

text \<open>A path of the program, as the numbers of the entries it visits.\<close>

lemma path_insert_after:
  assumes "successively (flow (A @ B)) vs" "distinct vs" "N \<noteq> []"
    and "A \<noteq> [] \<Longrightarrow> last vs = fst (last A)" "A \<noteq> [] \<Longrightarrow> holds_pos (snd (last A))"
  shows "successively (flow (A @ N @ B)) vs"
  unfolding successively_conv_nth
proof (intro allI impI)
  fix i assume i: "Suc i < length vs"
  then have f: "flow (A @ B) (vs ! i) (vs ! Suc i)"
    using assms(1) by (simp add: successively_conv_nth)
  have "vs ! i \<noteq> last vs"
    using assms(2) i by (subst last_conv_nth) (auto simp: nth_eq_iff_index_eq)
  moreover have "last vs = fst (last A) \<and> mnemonic_of (snd (last A)) \<noteq> ''call''" if "A \<noteq> []"
    using assms(4,5) that by (simp add: holds_pos_def)
  ultimately show "flow (A @ N @ B) (vs ! i) (vs ! Suc i)"
    by (intro flow_insert_other [OF f assms(3)]) simp_all
qed

lemma path_insert_before:
  assumes pa: "successively (flow (A @ x # B)) vs" and di: "distinct vs" and t: "fst x \<in> set vs"
    and hd: "hd vs = fst (hd (A @ x # B))" and n: "n \<notin> set vs"
    and e: "flow (A @ ((n, i) # N) @ x # B) n (fst x)"
    and dx: "distinct (map fst (A @ x # B))"
  shows "\<exists>vs'. successively (flow (A @ ((n, i) # N) @ x # B)) vs' \<and> distinct vs' \<and>
     hd vs' = fst (hd (A @ ((n, i) # N) @ x # B)) \<and> last vs' = last vs \<and>
     filter (\<lambda>a. a \<noteq> n) vs' = vs \<and> set vs' \<subseteq> insert n (set vs)"
proof -
  let ?xs = "A @ ((n, i) # N) @ x # B"
  obtain us ws where vs: "vs = us @ fst x # ws" using t by (meson split_list)
  have k: "flow ?xs a b" if "flow (A @ x # B) a b" "b \<noteq> fst x" for a b
    using flow_insert [OF that(1), of "(n, i) # N"] that(2) by auto
  have wp: "successively (flow ?xs) (fst x # ws)"
    unfolding successively_conv_nth
  proof (intro allI impI)
    fix j assume j: "Suc j < length (fst x # ws)"
    have "successively (flow (A @ x # B)) (fst x # ws)"
      using pa vs by (simp add: successively_append_iff)
    then have "flow (A @ x # B) ((fst x # ws) ! j) ((fst x # ws) ! Suc j)"
      using j by (simp add: successively_conv_nth)
    moreover have "(fst x # ws) ! Suc j \<noteq> fst x" using di vs j by (auto dest: nth_mem)
    ultimately show "flow ?xs ((fst x # ws) ! j) ((fst x # ws) ! Suc j)" by (rule k)
  qed
  have up: "successively (flow ?xs) us"
    unfolding successively_conv_nth
  proof (intro allI impI)
    fix j assume j: "Suc j < length us"
    have "successively (flow (A @ x # B)) us"
      using pa vs by (simp add: successively_append_iff)
    then have "flow (A @ x # B) (us ! j) (us ! Suc j)"
      using j by (simp add: successively_conv_nth)
    moreover have "us ! Suc j \<noteq> fst x" using di vs j by (auto dest: nth_mem)
    ultimately show "flow ?xs (us ! j) (us ! Suc j)" by (rule k)
  qed
  have nu: "n \<notin> set us" "n \<noteq> fst x" "n \<notin> set ws" using n vs by auto
  then have fu: "filter (\<lambda>a. a \<noteq> n) us = us" "filter (\<lambda>a. a \<noteq> n) ws = ws"
    by (auto intro: filter_True)
  show ?thesis
  proof (cases "us = []")
    case True
    show ?thesis
    proof (cases "A = []")
      case a: True
      have "successively (flow ?xs) (n # vs)"
        using wp e vs True by (simp add: successively_Cons)
      then show ?thesis using a True vs di nu fu by (intro exI [of _ "n # vs"]) auto
    next
      case False
      then have "fst x \<noteq> fst (hd (A @ x # B))" using dx by (cases A) auto
      then show ?thesis using hd vs True by simp
    qed
  next
    case False
    then have b: "flow (A @ x # B) (last us) (fst x)"
      using pa vs by (simp add: successively_append_iff)
    have h: "A \<noteq> []"
    proof
      assume "A = []"
      then have "hd us = fst x" using hd vs False by simp
      then show False using di vs False by (cases us) auto
    qed
    consider "flow ?xs (last us) (fst x)" | "flow ?xs (last us) n"
      using flow_insert [OF b, of "(n, i) # N"] by auto
    then show ?thesis
    proof cases
      case 1
      then have "successively (flow ?xs) vs" using up wp vs by (simp add: successively_append_iff)
      then show ?thesis using vs di nu fu hd h by (intro exI [of _ vs]) auto
    next
      case 2
      then have "successively (flow ?xs) (us @ n # fst x # ws)"
        using up wp e by (simp add: successively_append_iff successively_Cons)
      then show ?thesis using vs di nu fu hd h False
        by (intro exI [of _ "us @ n # fst x # ws"]) auto
    qed
  qed
qed

subsection \<open>The invariant\<close>

definition work_nos :: "(nat \<times> insn) list \<Rightarrow> nat list" where
  "work_nos xs = map fst (filter (\<lambda>x. plain (snd x)) xs)"

definition labels_ok :: "(nat \<times> insn) list \<Rightarrow> nat list \<Rightarrow> bool" where
  "labels_ok xs labs \<longleftrightarrow> (\<forall>k < length labs. \<exists>x \<in> set xs. fst x = labs ! k \<and> label_of (snd x) = Some k) \<and>
     (\<forall>x \<in> set xs. \<forall>k. label_of (snd x) = Some k \<longrightarrow> k < length labs \<and> labs ! k = fst x) \<and>
     (\<forall>x \<in> set xs. \<forall>k. target_of (snd x) = Some k \<longrightarrow> k < length labs)"

definition executes :: "(nat \<times> insn) list \<Rightarrow> nat list \<Rightarrow> bool" where
  "executes xs vs \<longleftrightarrow> successively (flow xs) vs \<and> distinct vs \<and> set vs \<subseteq> fst ` set xs \<and>
     (xs \<noteq> [] \<longrightarrow> vs \<noteq> [] \<and> hd vs = fst (hd xs)) \<and>
     sorted (filter (\<lambda>a. a \<in> set (work_nos xs)) vs) \<and> set (work_nos xs) \<subseteq> set vs"

text \<open>
  \<open>flow_inv A B labs vs ret\<close>: the path \<open>vs\<close> leads from the first entry to the insertion position
  between \<open>A\<close> and \<open>B\<close> and executes everything emitted so far in order; it passes all labels but
  the one (\<open>ret\<close>) at which generation resumes when an open loop or procedure is closed, and that
  one is two steps ahead.
\<close>

definition flow_inv ::
  "(nat \<times> insn) list \<Rightarrow> (nat \<times> insn) list \<Rightarrow> nat list \<Rightarrow> nat list \<Rightarrow> nat option \<Rightarrow> bool" where
  "flow_inv A B labs vs ret \<longleftrightarrow> distinct (map fst (A @ B)) \<and> executes (A @ B) vs \<and>
     labels_ok (A @ B) labs \<and>
     (if A = [] then B = [] \<and> vs = [] \<and> labs = [] \<and> ret = None
      else last vs = fst (last A) \<and> holds_pos (snd (last A))) \<and>
     (\<forall>k < length labs. ret \<noteq> Some k \<longrightarrow> labs ! k \<in> set vs) \<and>
     (case ret of None \<Rightarrow> True | Some k \<Rightarrow> k < length labs \<and> labs ! k \<notin> set vs \<and>
        (\<exists>y B'. B = y # B' \<and> fst y \<notin> set vs \<and> \<not> plain (snd y) \<and> label_of (snd y) = None \<and>
           flow (A @ B) (fst y) (labs ! k)))"

lemma flow_inv_start: "flow_inv [] [] [] [] None"
  by (simp add: flow_inv_def executes_def labels_ok_def work_nos_def)

lemma set_work_nos: "set (work_nos (xs @ ys)) = set (work_nos xs) \<union> set (work_nos ys)"
  by (auto simp: work_nos_def)

lemma work_nos_subset: "set (work_nos xs) \<subseteq> fst ` set xs"
  by (auto simp: work_nos_def)

text \<open>A block put at the insertion position, entered from it and left at its own last entry.\<close>

lemma flow_fall_into:
  assumes "A \<noteq> []" "N \<noteq> []" "falls (snd (last A))"
  shows "flow (A @ N @ B) (fst (last A)) (fst (hd N))"
proof -
  have "A @ N @ B = butlast A @ (fst (last A), snd (last A)) # (fst (hd N), snd (hd N)) # tl N @ B"
    using assms by (metis append_butlast_last_id append.assoc append_Cons append_Nil
        list.collapse prod.collapse)
  then show ?thesis using assms(3) by (rule flow.fall)
qed

lemma distinct_nos_insert:
  fixes A B N :: "(nat \<times> 'b) list"
  assumes "distinct (map fst (A @ B))" "distinct (map fst N)"
    and fr: "\<And>x y. x \<in> set (A @ B) \<Longrightarrow> y \<in> set N \<Longrightarrow> fst x < fst y"
  shows "distinct (map fst (A @ N @ B))"
proof -
  have "a \<notin> fst ` set (A @ B)" if ab: "a \<in> fst ` set N" for a
  proof
    assume "a \<in> fst ` set (A @ B)"
    then obtain z where "z \<in> set (A @ B)" "a = fst z" by blast
    moreover obtain y where "y \<in> set N" "a = fst y" using ab by blast
    ultimately show False using fr by fastforce
  qed
  then have "fst ` set N \<inter> fst ` set A = {}" "fst ` set N \<inter> fst ` set B = {}"
    by (simp_all add: disjoint_iff image_Un)
  then show ?thesis using assms(1,2) by (simp add: Int_commute Int_Un_distrib)
qed

lemma executes_extend:
  assumes ex: "executes (A @ B) vs" and ab: "A = [] \<Longrightarrow> B = [] \<and> vs = []"
    and la: "A \<noteq> [] \<Longrightarrow> last vs = fst (last A) \<and> holds_pos (snd (last A))"
    and fr: "\<And>x y. x \<in> set (A @ B) \<Longrightarrow> y \<in> set N \<Longrightarrow> fst x < fst y" and N: "N \<noteq> []"
    and M: "successively (flow (A @ N @ B)) M" "distinct M" "set M \<subseteq> fst ` set N" "M \<noteq> []"
      "hd M = fst (hd N)"
    and wk: "sorted (filter (\<lambda>a. a \<in> set (work_nos N)) M)" "set (work_nos N) \<subseteq> set M"
  shows "executes (A @ N @ B) (vs @ M)"
proof -
  let ?xs = "A @ N @ B"
  have sub: "set vs \<subseteq> fst ` set (A @ B)" using ex by (simp only: executes_def)
  have vm: "a < b" if a: "a \<in> set vs" "b \<in> set M" for a b
  proof -
    obtain x where "x \<in> set (A @ B)" "a = fst x" using subsetD [OF sub a(1)] by (rule imageE)
    moreover obtain y where "y \<in> set N" "b = fst y" using subsetD [OF M(3) a(2)] by (rule imageE)
    ultimately show ?thesis using fr by simp
  qed
  have "successively (flow ?xs) vs"
    using ex la N by (intro path_insert_after) (auto simp: executes_def)
  moreover have "flow ?xs (last vs) (hd M)" if "vs \<noteq> []"
  proof -
    have "A \<noteq> []" using that ab by auto
    then show ?thesis using flow_fall_into [of A N B] la N M(5) by (auto simp: holds_pos_def)
  qed
  ultimately have p: "successively (flow ?xs) (vs @ M)"
    using M(1) by (auto simp: successively_append_iff)
  have d: "distinct (vs @ M)" using ex M(2) vm by (auto simp: executes_def)
  have w: "set (work_nos ?xs) = set (work_nos (A @ B)) \<union> set (work_nos N)"
    by (auto simp: set_work_nos)
  have nv: "a \<notin> set (work_nos N)" if a: "a \<in> set vs" for a
  proof
    assume "a \<in> set (work_nos N)"
    then obtain y where "y \<in> set N" "a = fst y" using work_nos_subset [of N] by blast
    moreover obtain x where "x \<in> set (A @ B)" "a = fst x" using subsetD [OF sub a] by (rule imageE)
    ultimately show False using fr by fastforce
  qed
  have nm: "a \<notin> set (work_nos (A @ B))" if a: "a \<in> set M" for a
  proof
    assume "a \<in> set (work_nos (A @ B))"
    then obtain x where "x \<in> set (A @ B)" "a = fst x" using work_nos_subset [of "A @ B"] by blast
    moreover obtain y where "y \<in> set N" "a = fst y" using subsetD [OF M(3) a] by (rule imageE)
    ultimately show False using fr by fastforce
  qed
  have "filter (\<lambda>a. a \<in> set (work_nos ?xs)) vs = filter (\<lambda>a. a \<in> set (work_nos (A @ B))) vs"
    "filter (\<lambda>a. a \<in> set (work_nos ?xs)) M = filter (\<lambda>a. a \<in> set (work_nos N)) M"
    using nv nm by (auto simp: w intro!: filter_cong)
  then have "sorted (filter (\<lambda>a. a \<in> set (work_nos ?xs)) (vs @ M))"
    using ex wk(1) vm by (auto simp: executes_def sorted_append intro: less_imp_le)
  moreover have "hd (vs @ M) = fst (hd ?xs)"
  proof (cases "A = []")
    case True
    then show ?thesis using ab N M(5) by simp
  next
    case False
    then show ?thesis using ex by (auto simp: executes_def)
  qed
  moreover have "set (vs @ M) \<subseteq> fst ` set ?xs" "set (work_nos ?xs) \<subseteq> set (vs @ M)"
    using ex M(3) wk(2) by (auto simp: executes_def w)
  ultimately show ?thesis using p d M(4) by (simp add: executes_def)
qed

definition labels_new :: "(nat \<times> insn) list \<Rightarrow> nat \<Rightarrow> nat list \<Rightarrow> bool" where
  "labels_new xs m L \<longleftrightarrow>
     (\<forall>k < length L. \<exists>x \<in> set xs. fst x = L ! k \<and> label_of (snd x) = Some (m + k)) \<and>
     (\<forall>x \<in> set xs. \<forall>k. label_of (snd x) = Some k \<longrightarrow> m \<le> k \<and> k < m + length L \<and> L ! (k - m) = fst x) \<and>
     (\<forall>x \<in> set xs. \<forall>k. target_of (snd x) = Some k \<longrightarrow> k < m + length L)"

lemma labels_ok_extend:
  assumes "labels_ok xs labs" "labels_new N (length labs) L" "set ys = set xs \<union> set N"
  shows "labels_ok ys (labs @ L)"
  unfolding labels_ok_def
proof (intro conjI allI impI ballI)
  fix k assume k: "k < length (labs @ L)"
  show "\<exists>x \<in> set ys. fst x = (labs @ L) ! k \<and> label_of (snd x) = Some k"
  proof (cases "k < length labs")
    case True
    then obtain x where "x \<in> set xs" "fst x = labs ! k" "label_of (snd x) = Some k"
      using assms(1) unfolding labels_ok_def by blast
    then show ?thesis using True assms(3) by (auto simp: nth_append)
  next
    case False
    then have "k - length labs < length L" using k by auto
    then obtain x where "x \<in> set N" "fst x = L ! (k - length labs)"
      "label_of (snd x) = Some (length labs + (k - length labs))"
      using assms(2) unfolding labels_new_def by blast
    then show ?thesis using False assms(3) by (auto simp: nth_append)
  qed
next
  fix x k assume x: "x \<in> set ys" "label_of (snd x) = Some k"
  then consider "x \<in> set xs" | "x \<in> set N" using assms(3) by blast
  then have "k < length (labs @ L) \<and> (labs @ L) ! k = fst x"
  proof cases
    case 1
    then have "k < length labs \<and> labs ! k = fst x" using assms(1) x(2) unfolding labels_ok_def by blast
    then show ?thesis by (simp add: nth_append)
  next
    case 2
    then have "length labs \<le> k \<and> k < length labs + length L \<and> L ! (k - length labs) = fst x"
      using assms(2) x(2) unfolding labels_new_def by blast
    then show ?thesis by (simp add: nth_append)
  qed
  then show "k < length (labs @ L)" "(labs @ L) ! k = fst x" by auto
next
  fix x k assume x: "x \<in> set ys" "target_of (snd x) = Some k"
  then consider "x \<in> set xs" | "x \<in> set N" using assms(3) by blast
  then show "k < length (labs @ L)"
  proof cases
    case 1
    then have "k < length labs" using assms(1) x(2) unfolding labels_ok_def by blast
    then show ?thesis by simp
  next
    case 2
    then show ?thesis using assms(2) x(2) unfolding labels_new_def by simp
  qed
qed

lemma flow_inv_extend:
  assumes inv: "flow_inv A B labs vs ret"
    and fr: "\<And>x y. x \<in> set (A @ B) \<Longrightarrow> y \<in> set (N1 @ N2) \<Longrightarrow> fst x < fst y"
    and di: "distinct (map fst (N1 @ N2))" and N1: "N1 \<noteq> []" "holds_pos (snd (last N1))"
    and M: "successively (flow (A @ (N1 @ N2) @ B)) M" "distinct M" "set M \<subseteq> fst ` set (N1 @ N2)"
      "M \<noteq> []" "hd M = fst (hd N1)" "last M = fst (last N1)"
    and wk: "sorted (filter (\<lambda>a. a \<in> set (work_nos (N1 @ N2))) M)" "set (work_nos (N1 @ N2)) \<subseteq> set M"
    and lb: "labels_new (N1 @ N2) (length labs) L"
    and rt: "\<And>k. k < length L \<Longrightarrow> ret' \<noteq> Some (length labs + k) \<Longrightarrow> L ! k \<in> set M"
    and rc: "ret' = ret \<and> (N2 = [] \<or> ret = None) \<or>
      ret = None \<and> (\<exists>k < length L. ret' = Some (length labs + k) \<and> L ! k \<notin> set M \<and>
        (\<exists>y N2'. N2 = y # N2' \<and> fst y \<notin> set M \<and> \<not> plain (snd y) \<and> label_of (snd y) = None \<and>
          flow (A @ (N1 @ N2) @ B) (fst y) (L ! k)))"
  shows "flow_inv (A @ N1) (N2 @ B) (labs @ L) (vs @ M) ret'"
proof -
  have ab: "A = [] \<Longrightarrow> B = [] \<and> vs = [] \<and> labs = [] \<and> ret = None"
    and la: "A \<noteq> [] \<Longrightarrow> last vs = fst (last A) \<and> holds_pos (snd (last A))"
    and ex: "executes (A @ B) vs" and lo: "labels_ok (A @ B) labs"
    and rv: "\<And>k. k < length labs \<Longrightarrow> ret \<noteq> Some k \<Longrightarrow> labs ! k \<in> set vs"
    using inv by (auto simp: flow_inv_def split: if_splits)
  have sub: "set vs \<subseteq> fst ` set (A @ B)" using ex by (simp only: executes_def)
  have nvN: "fst y \<notin> set vs" if y: "y \<in> set (N1 @ N2)" for y
  proof
    assume "fst y \<in> set vs"
    then obtain x where "x \<in> set (A @ B)" "fst y = fst x" using sub by blast
    then show False using fr [OF _ y] by fastforce
  qed
  have lvM: "fst x \<notin> set M" if x: "x \<in> set (A @ B)" for x
  proof
    assume "fst x \<in> set M"
    then obtain y where "y \<in> set (N1 @ N2)" "fst x = fst y" using M(3) by blast
    then show False using fr [OF x] by fastforce
  qed
  have e: "executes (A @ (N1 @ N2) @ B) (vs @ M)"
    using ab la N1(1) M wk by (intro executes_extend [OF ex _ _ fr]) auto
  have l: "labels_ok (A @ (N1 @ N2) @ B) (labs @ L)"
    by (rule labels_ok_extend [OF lo lb]) auto
  have d: "distinct (map fst (A @ (N1 @ N2) @ B))"
    using inv unfolding flow_inv_def by (intro distinct_nos_insert [OF _ di fr]) auto
  have r: "(labs @ L) ! k \<in> set (vs @ M)" if "k < length (labs @ L)" "ret' \<noteq> Some k" for k
  proof (cases "k < length labs")
    case True
    then have "ret \<noteq> Some k" using rc that(2) by auto
    then show ?thesis using rv True by (simp add: nth_append)
  next
    case False
    then show ?thesis using rt [of "k - length labs"] that by (auto simp: nth_append)
  qed
  have "case ret' of None \<Rightarrow> True | Some k \<Rightarrow> k < length (labs @ L) \<and> (labs @ L) ! k \<notin> set (vs @ M) \<and>
        (\<exists>y B'. N2 @ B = y # B' \<and> fst y \<notin> set (vs @ M) \<and> \<not> plain (snd y) \<and> label_of (snd y) = None \<and>
           flow (A @ (N1 @ N2) @ B) (fst y) ((labs @ L) ! k))"
    using rc
  proof
    assume c: "ret' = ret \<and> (N2 = [] \<or> ret = None)"
    show ?thesis
    proof (cases ret)
      case (Some k)
      then have N2: "N2 = []" and A: "A \<noteq> []" using c ab by auto
      obtain y B' where y: "k < length labs" "labs ! k \<notin> set vs" "B = y # B'" "fst y \<notin> set vs"
        "\<not> plain (snd y)" "label_of (snd y) = None" "flow (A @ B) (fst y) (labs ! k)"
        using inv Some by (auto simp: flow_inv_def)
      have "fst y \<noteq> fst (last A)"
        using la [OF A] y(4) ex A unfolding executes_def by (metis append_is_Nil_conv last_in_set)
      then have "flow (A @ (N1 @ N2) @ B) (fst y) (labs ! k)"
        using y(7) N1(1) la [OF A] by (intro flow_insert_other) (auto simp: holds_pos_def)
      moreover obtain x where "x \<in> set (A @ B)" "fst x = labs ! k"
        using lo y(1) unfolding labels_ok_def by blast
      then have "labs ! k \<notin> set M" using lvM by metis
      moreover have "fst y \<notin> set M" using lvM [of y] y(3) by simp
      ultimately show ?thesis using y c Some N2 by (auto simp: nth_append)
    qed (use c in simp)
  next
    assume "ret = None \<and> (\<exists>k < length L. ret' = Some (length labs + k) \<and> L ! k \<notin> set M \<and>
        (\<exists>y N2'. N2 = y # N2' \<and> fst y \<notin> set M \<and> \<not> plain (snd y) \<and> label_of (snd y) = None \<and>
          flow (A @ (N1 @ N2) @ B) (fst y) (L ! k)))"
    then obtain k y N2' where k: "k < length L" "ret' = Some (length labs + k)" "L ! k \<notin> set M"
      "N2 = y # N2'" "fst y \<notin> set M" "\<not> plain (snd y)" "label_of (snd y) = None"
      "flow (A @ (N1 @ N2) @ B) (fst y) (L ! k)" by blast
    obtain x where "x \<in> set (N1 @ N2)" "fst x = L ! k"
      using lb k(1) unfolding labels_new_def by blast
    then have "L ! k \<notin> set vs" using nvN by metis
    moreover have "fst y \<notin> set vs" using nvN [of y] k(4) by simp
    ultimately show ?thesis using k by (auto simp: nth_append)
  qed
  then have c: "case ret' of None \<Rightarrow> True | Some k \<Rightarrow> k < length (labs @ L) \<and> (labs @ L) ! k \<notin> set (vs @ M) \<and>
        (\<exists>y B'. N2 @ B = y # B' \<and> fst y \<notin> set (vs @ M) \<and> \<not> plain (snd y) \<and> label_of (snd y) = None \<and>
           flow ((A @ N1) @ (N2 @ B)) (fst y) ((labs @ L) ! k))" by (simp only: append_assoc)
  have "last (vs @ M) = fst (last (A @ N1)) \<and> holds_pos (snd (last (A @ N1)))" "A @ N1 \<noteq> []"
    using N1 M(4,6) by auto
  then show ?thesis using c d e l r unfolding flow_inv_def append_assoc by (simp only: if_False) blast
qed

subsection \<open>Every operation keeps the invariant\<close>

abbreviation all_below :: "nat \<Rightarrow> (nat \<times> insn) list \<Rightarrow> bool" where
  "all_below n xs \<equiv> \<forall>x \<in> set xs. fst x < n"

lemmas block_simps = work_nos_def labels_new_def holds_pos_def falls_def less_Suc_eq fmt_simps

lemma flow_inv_insn:
  assumes "flow_inv A B labs vs ret" "all_below n (A @ B)" "plain i"
  shows "flow_inv (A @ [(n, i)]) B labs (vs @ [n]) ret"
  using flow_inv_extend [OF assms(1), of "[(n, i)]" "[]" "[n]" "[]" ret] assms(2,3) plain_falls [OF assms(3)]
  by (simp add: block_simps plain_def)

lemma flow_inv_label:
  assumes "flow_inv A B labs vs ret" "all_below n (A @ B)"
  shows "flow_inv (A @ [(n, label_insn (length labs))]) B (labs @ [n]) (vs @ [n]) ret"
  using flow_inv_extend [OF assms(1), of "[(n, label_insn (length labs))]" "[]" "[n]" "[n]" ret] assms(2)
  by (simp add: block_simps)

lemma flow_inv_loop:
  assumes inv: "flow_inv A B labs vs None" and n: "all_below n (A @ B)" and opc: "is_loop opc"
  defines "N \<equiv> length labs"
  shows "flow_inv (A @ [(n + 2, loop_init_insn m), (n + 3, label_insn (N + 1))])
      ((n + 1, branch_insn (nasm_insn_names opc) (N + 1)) # (n, label_insn N) # B)
      (labs @ [n, n + 3]) (vs @ [n + 2, n + 3]) (Some N)"
proof -
  let ?N1 = "[(n + 2, loop_init_insn m), (n + 3, label_insn (N + 1))]"
  let ?N2 = "[(n + 1, branch_insn (nasm_insn_names opc) (N + 1)), (n, label_insn N)]"
  let ?xs = "A @ (?N1 @ ?N2) @ B"
  note br = branch_insn_reads [OF conjunct1 [OF opc_words(2) [OF opc]] is_transfer_opc(4) [OF opc]]
  have w: "nasm_insn_names opc \<noteq> ''jmp''" "nasm_insn_names opc \<noteq> ''ret''"
    using opc_words(2) [OF opc] by auto
  have "flow ?xs (n + 2) (n + 3)"
    by (rule flow.fall [of _ A _ "loop_init_insn m" _ "label_insn (N + 1)" "?N2 @ B"])
       (simp_all add: falls_def fmt_simps)
  moreover have "flow ?xs (n + 1) n"
    by (rule flow.fall [of _ "A @ ?N1" _ "branch_insn (nasm_insn_names opc) (N + 1)" _ "label_insn N" B])
       (simp_all add: falls_def br w)
  moreover have "labels_new (?N1 @ ?N2) (length labs) [n, n + 3]"
    by (simp add: labels_new_def less_Suc_eq fmt_simps br N_def)
  moreover have "fst x < fst y" if "x \<in> set (A @ B)" "y \<in> set (?N1 @ ?N2)" for x y
    using that n by fastforce
  moreover have "set (work_nos (?N1 @ ?N2)) = {n + 2}" by (simp add: work_nos_def fmt_simps br)
  moreover have "holds_pos (snd (last ?N1))" by (simp add: holds_pos_def fmt_simps)
  ultimately have "flow_inv (A @ ?N1) (?N2 @ B) (labs @ [n, n + 3]) (vs @ [n + 2, n + 3]) (Some N)"
    by (intro flow_inv_extend [OF inv]) (auto simp: less_Suc_eq br N_def)
  then show ?thesis by simp
qed

lemma flow_inv_call:
  assumes inv: "flow_inv A B labs vs None" and n: "all_below n (A @ B)"
  defines "N \<equiv> length labs"
  shows "flow_inv (A @ call_head n N) (call_rest n N @ B) (labs @ [n + 1, n + 3, n + 5])
      (vs @ [n, n + 3, n + 4, n + 1]) (Some (N + 2))"
proof -
  let ?N1 = "call_head n N" and ?N2 = "call_rest n N"
  let ?xs = "A @ (?N1 @ ?N2) @ B"
  have j: "flow ?xs n (n + 3)"
    by (rule flow.jump [of _ "branch_insn ''jmp'' (N + 1)" _ "N + 1" _ "label_insn (N + 1)"])
       (auto simp: call_head_def call_rest_def fmt_simps)
  have f: "flow ?xs (n + 3) (n + 4)"
    by (rule flow.fall [of _ "A @ ?N1 @ [(n + 2, ret_insn)]" _ "label_insn (N + 1)" _
          "branch_insn ''call'' N" "(n + 5, label_insn (N + 2)) # B"])
       (auto simp: call_head_def call_rest_def fmt_simps)
  have c: "flow ?xs (n + 4) (n + 1)"
    by (rule flow.jump [of _ "branch_insn ''call'' N" _ N _ "label_insn N"])
       (auto simp: call_head_def call_rest_def fmt_simps)
  have r: "flow ?xs (n + 2) (n + 5)"
    by (rule flow.return [of _ ret_insn _ "A @ ?N1 @ [(n + 2, ret_insn), (n + 3, label_insn (N + 1))]"
          "n + 4" "branch_insn ''call'' N" _ "label_insn (N + 2)" B])
       (auto simp: call_head_def call_rest_def fmt_simps)
  have lb: "labels_new (?N1 @ ?N2) (length labs) [n + 1, n + 3, n + 5]"
    by (auto simp: labels_new_def call_head_def call_rest_def less_Suc_eq fmt_simps N_def)
  have fr: "fst x < fst y" if "x \<in> set (A @ B)" "y \<in> set (?N1 @ ?N2)" for x y
    using that n by (fastforce simp: call_head_def call_rest_def)
  have wk: "work_nos (?N1 @ ?N2) = []"
    by (simp add: work_nos_def call_head_def call_rest_def fmt_simps)
  have hp: "?N1 \<noteq> []" "holds_pos (snd (last ?N1))"
    by (simp_all add: call_head_def holds_pos_def fmt_simps)
  have "\<exists>k < length [n + 1, n + 3, n + 5]. Some (N + 2) = Some (length labs + k) \<and>
      [n + 1, n + 3, n + 5] ! k \<notin> set [n, n + 3, n + 4, n + 1] \<and>
        (\<exists>y N2'. ?N2 = y # N2' \<and> fst y \<notin> set [n, n + 3, n + 4, n + 1] \<and> \<not> plain (snd y) \<and>
          label_of (snd y) = None \<and> flow ?xs (fst y) ([n + 1, n + 3, n + 5] ! k))"
    using r by (intro exI [of _ 2]) (simp add: call_rest_def fmt_simps N_def)
  then show ?thesis
    using j f c lb wk hp
    by (intro flow_inv_extend [OF inv fr])
       (auto simp: less_Suc_eq call_head_def call_rest_def N_def)
qed

text \<open>The branches a jump starts with: \<open>jmp\<close>, or a conditional branch and then \<open>jmp\<close>.\<close>

definition jump_opcs :: "opcode \<Rightarrow> opcode list" where
  "jump_opcs opc = (if opc = I ''jmp'' then [opc] else [opc, I ''jmp''])"

definition is_jump :: "opcode \<Rightarrow> bool" where
  "is_jump opc \<longleftrightarrow> opc = I ''jmp'' \<or> is_jcc opc"

lemma jump_run:
  assumes "is_jump opc"
  defines "Br n k \<equiv> branch_run n k (jump_opcs opc)"
  shows "y \<in> set (Br n k) \<Longrightarrow> label_of (snd y) = None \<and> target_of (snd y) = Some k \<and> \<not> plain (snd y) \<and>
      n \<le> fst y \<and> fst y < n + length (jump_opcs opc)"
    and "map fst (Br n k) = [n..<n + length (jump_opcs opc)]"
    and "Br n k = butlast (Br n k) @ [(n + length (jump_opcs opc) - 1, branch_insn ''jmp'' k)]"
    and "\<exists>zs. Br n k = (n, snd (hd (Br n k))) # zs"
    and "successively (flow (A @ Br n k @ B)) (map fst (Br n k))"
proof -
  have j: "nasm_insn_names (I ''jmp'') = ''jmp''" by (simp add: nasm_insn_names_def)
  consider "opc = I ''jmp''" | "is_jcc opc" "opc \<noteq> I ''jmp''" using assms(1) by (auto simp: is_jump_def)
  note c = this
  show "y \<in> set (Br n k) \<Longrightarrow> label_of (snd y) = None \<and> target_of (snd y) = Some k \<and> \<not> plain (snd y) \<and>
      n \<le> fst y \<and> fst y < n + length (jump_opcs opc)"
    using c
  proof cases
    case 2
    note br = branch_insn_reads [OF conjunct1 [OF opc_words(1) [OF 2(1)]] is_transfer_opc(3) [OF 2(1)]]
    show "y \<in> set (Br n k) \<Longrightarrow> ?thesis" using 2 by (auto simp: Br_def jump_opcs_def j fmt_simps br)
  qed (auto simp: Br_def jump_opcs_def j fmt_simps)
  show "map fst (Br n k) = [n..<n + length (jump_opcs opc)]"
    "Br n k = butlast (Br n k) @ [(n + length (jump_opcs opc) - 1, branch_insn ''jmp'' k)]"
    "\<exists>zs. Br n k = (n, snd (hd (Br n k))) # zs"
    by (auto simp: Br_def jump_opcs_def j upt_rec)
  show "successively (flow (A @ Br n k @ B)) (map fst (Br n k))"
    using c
  proof cases
    case 2
    have "falls (branch_insn (nasm_insn_names opc) k)"
      using opc_words(1) [OF 2(1)] by (auto simp: falls_def branch_insn_reads is_transfer_opc(3) [OF 2(1)])
    then have "flow (A @ Br n k @ B) n (Suc n)"
      using 2 by (intro flow.fall [of _ A _ "branch_insn (nasm_insn_names opc) k" _ "branch_insn ''jmp'' k" B])
        (auto simp: Br_def jump_opcs_def j)
    then show ?thesis using 2 by (simp add: Br_def jump_opcs_def)
  qed (simp add: Br_def jump_opcs_def)
qed

text \<open>The first jump: the new label goes right before it.\<close>

lemma flow_inv_jump_first:
  assumes inv: "flow_inv A B [] vs None" and n: "all_below n (A @ B)" and opc: "is_jump opc"
  defines "Br \<equiv> branch_run n 0 (jump_opcs opc)" and "m \<equiv> n + length (jump_opcs opc)"
  shows "\<exists>vs'. flow_inv (A @ butlast Br @ [(m, label_insn 0)]) (last Br # B) [m] vs' None"
proof -
  note run = jump_run [OF opc, where n = n and k = 0, folded Br_def]
  let ?b = "map fst (butlast Br)" and ?N1 = "butlast Br @ [(m, label_insn 0)]"
  have "Br \<noteq> []" by (simp add: Br_def jump_opcs_def)
  then have Br: "butlast Br @ [last Br] = Br" by simp
  have lBr: "last Br = (m - 1, branch_insn ''jmp'' 0)" by (subst run(3)) (simp add: m_def)
  have m: "m - 1 < m" "n \<le> m - 1" by (auto simp: m_def jump_opcs_def)
  have rb: "label_of (snd y) = None" "target_of (snd y) = Some 0" "\<not> plain (snd y)"
      "n \<le> fst y" "fst y < m" if "y \<in> set (butlast Br @ [last Br])" for y
    using run(1) [of y] that [unfolded Br] by (auto simp: m_def)
  have db: "distinct (?b @ [m - 1])"
  proof -
    have "?b @ [m - 1] = map fst (butlast Br @ [last Br])" using lBr by simp
    then show ?thesis using run(2) Br by simp
  qed
  have b: "?b = [] \<or> ?b = [n] \<and> m = n + 2"
    by (auto simp: Br_def jump_opcs_def m_def)
  have p: "successively (flow (A @ (?N1 @ [last Br]) @ B)) (?b @ [m])"
  proof (cases "butlast Br")
    case (Cons y ys)
    then have y: "butlast Br = [y]" "fst y = n" using b by (cases ys; auto)+
    have jc: "is_jcc opc" "opc \<noteq> I ''jmp''"
      using y opc by (auto simp: Br_def jump_opcs_def is_jump_def split: if_splits)
    then have "snd y = branch_insn (nasm_insn_names opc) 0"
      using y by (auto simp: Br_def jump_opcs_def split: if_splits)
    then have "falls (snd y)" using opc_words(1) [OF jc(1)] by (auto simp: falls_def branch_insn_reads is_transfer_opc(3) [OF jc(1)])
    then have "flow (A @ (?N1 @ [last Br]) @ B) n m"
      by (intro flow.fall [of _ A _ "snd y" _ "label_insn 0" "last Br # B"]) (use y in auto)
    then show ?thesis using y by simp
  qed simp
  have "labels_new (?N1 @ [last Br]) 0 [m]"
    using rb unfolding labels_new_def by (auto simp: fmt_simps)
  moreover have wk: "work_nos (?N1 @ [last Br]) = []"
    using rb by (auto simp: work_nos_def fmt_simps filter_empty_conv)
  moreover have "fst x < fst y" if "x \<in> set (A @ B)" "y \<in> set (?N1 @ [last Br])" for x y
  proof -
    have "n \<le> fst y"
    proof (cases "y = (m, label_insn 0)")
      case False
      then show ?thesis using that(2) by (intro rb(4)) auto
    qed (use m in simp)
    then show ?thesis using that(1) n by fastforce
  qed
  moreover have "m \<notin> set (?b @ [m - 1])" using rb(5) m lBr by fastforce
  ultimately have "flow_inv (A @ ?N1) ([last Br] @ B) ([] @ [m]) (vs @ ?b @ [m]) None"
    using p db b lBr
    by (intro flow_inv_extend [OF inv])
       (auto simp: holds_pos_def fmt_simps falls_def hd_append hd_map)
  then show ?thesis by auto
qed

text \<open>Any other jump: the position moves to a new label in front of an old one.\<close>

lemma filter_skip: "m \<notin> W \<Longrightarrow> c \<notin> W \<Longrightarrow>
    filter (\<lambda>a. a \<in> W) (us @ [c]) = filter (\<lambda>a. a \<in> W) (filter (\<lambda>a. a \<noteq> m) us)"
  by (induction us) auto

lemma executes_jump:
  fixes K :: nat
  assumes ex: "executes (A @ B) vs" and A: "A \<noteq> []"
    and la: "last vs = fst (last A)" "holds_pos (snd (last A))"
    and n: "all_below n (A @ B)" and opc: "is_jump opc" and di: "distinct (map fst (A @ B))"
  defines "Br \<equiv> branch_run n K (jump_opcs opc)" and "m \<equiv> n + length (jump_opcs opc)"
  assumes sp: "A @ Br @ B = A' @ x # B'" and x: "fst x \<in> set vs" "label_of (snd x) = Some k"
  shows "\<exists>vs'. executes (A' @ [(m, branch_insn ''jmp'' k), (Suc m, label_insn K)] @ x # B') vs' \<and>
     last vs' = Suc m \<and> set vs \<subseteq> set vs' \<and> Suc m \<in> set vs'"
proof -
  note run = jump_run [OF opc, where n = n and k = K, folded Br_def m_def]
  let ?M = "map fst Br" and ?N = "[(m, branch_insn ''jmp'' k), (Suc m, label_insn K)]"
  let ?xs = "A' @ ?N @ x # B'"
  have ne: "Br \<noteq> []" by (simp add: Br_def jump_opcs_def)
  have below: "all_below m (A @ Br @ B)"
  proof
    fix y assume "y \<in> set (A @ Br @ B)"
    then consider "y \<in> set (A @ B)" | "y \<in> set Br" by auto
    then show "fst y < m"
    proof cases
      case 1
      then have "fst y < n" using n by blast
      then show ?thesis by (simp add: m_def)
    qed (use run(1) in blast)
  qed
  have dBr: "distinct ?M" using run(2) by simp
  have wBr: "work_nos Br = []" using run(1) by (auto simp: work_nos_def filter_empty_conv)
  have e1: "executes (A @ Br @ B) (vs @ ?M)"
  proof (rule executes_extend [OF ex])
    show "fst x < fst y" if "x \<in> set (A @ B)" "y \<in> set Br" for x y
      using n that run(1) [OF that(2)] by fastforce
  qed (use A la ne dBr run(5) wBr in \<open>auto simp: hd_map\<close>)
  have vs1: "distinct (vs @ ?M)" "set (vs @ ?M) \<subseteq> fst ` set (A' @ x # B')"
    using e1 [unfolded sp] by (simp_all only: executes_def)
  have lt: "a < m" if a: "a \<in> set (vs @ ?M)" for a
  proof -
    obtain y where "y \<in> set (A @ Br @ B)" "a = fst y"
      using subsetD [OF vs1(2) a] unfolding sp by (rule imageE)
    then show ?thesis using below by blast
  qed
  have dx: "distinct (map fst (A' @ x # B'))"
  proof -
    have "distinct (map fst (A @ Br @ B))"
    proof (rule distinct_nos_insert [OF di dBr])
      fix y z assume "y \<in> set (A @ B)" "z \<in> set Br"
      then show "fst y < fst z" using n run(1) [of z] by fastforce
    qed
    then show ?thesis using sp by simp
  qed
  have fm: "flow (A' @ ((m, branch_insn ''jmp'' k) # [(Suc m, label_insn K)]) @ x # B') m (fst x)"
    using x(2) by (intro flow.jump [of _ "branch_insn ''jmp'' k" _ k _ "snd x"]) (auto simp: fmt_simps)
  have p1: "successively (flow (A' @ x # B')) (vs @ ?M)" "hd (vs @ ?M) = fst (hd (A' @ x # B'))"
    using e1 [unfolded sp] by (simp_all add: executes_def del: hd_append2)
  have p2: "fst x \<in> set (vs @ ?M)" "m \<notin> set (vs @ ?M)" using x(1) lt by auto
  obtain vs2 where vs2: "successively (flow ?xs) vs2" "distinct vs2"
    "hd vs2 = fst (hd ?xs)" "last vs2 = last (vs @ ?M)" "filter (\<lambda>a. a \<noteq> m) vs2 = vs @ ?M"
    "set vs2 \<subseteq> insert m (set (vs @ ?M))"
    using path_insert_before [OF p1(1) vs1(1) p2(1) p1(2) p2(2) fm dx] by blast
  have vsub: "set (vs @ ?M) \<subseteq> set vs2" by (metis vs2(5) filter_is_subset)
  have vne: "vs2 \<noteq> []" using x(1) vsub by auto
  have lb: "last (vs @ ?M) = m - 1" "(m - 1, branch_insn ''jmp'' K) \<in> set ?xs"
  proof -
    have "last ?M = m - 1" by (subst run(3)) (simp add: m_def)
    then show "last (vs @ ?M) = m - 1" using ne by simp
    have "(m - 1, branch_insn ''jmp'' K) \<in> set Br" by (subst run(3)) (simp add: m_def)
    then have "(m - 1, branch_insn ''jmp'' K) \<in> set (A' @ x # B')" using sp by (metis Un_iff set_append)
    then show "(m - 1, branch_insn ''jmp'' K) \<in> set ?xs" by auto
  qed
  have "flow ?xs (last vs2) (Suc m)"
    unfolding vs2(4) lb(1)
    by (rule flow.jump [OF lb(2), of K _ "label_insn K"]) (auto simp: fmt_simps)
  then have p: "successively (flow ?xs) (vs2 @ [Suc m])"
    using vs2(1) by (auto simp: successively_append_iff)
  have sm: "Suc m \<notin> set vs2"
  proof
    assume "Suc m \<in> set vs2"
    then have "Suc m \<in> set (vs @ ?M)" using vs2(6) by auto
    then show False using lt by fastforce
  qed
  have w: "set (work_nos ?xs) = set (work_nos (A @ Br @ B))"
    unfolding sp by (auto simp: work_nos_def fmt_simps)
  have wlt: "a < m" if "a \<in> set (work_nos ?xs)" for a
    using that unfolding w using work_nos_subset [of "A @ Br @ B"] below by fastforce
  have "m \<notin> set (work_nos ?xs)" "Suc m \<notin> set (work_nos ?xs)"
    using wlt [of m] wlt [of "Suc m"] by (meson less_irrefl, meson Suc_lessD less_irrefl)
  from filter_skip [OF this]
  have so: "sorted (filter (\<lambda>a. a \<in> set (work_nos ?xs)) (vs2 @ [Suc m]))"
    using e1 unfolding executes_def by (simp only: vs2(5) w)
  have "set (A' @ x # B') \<subseteq> set ?xs" by auto
  then have "set (vs @ ?M) \<subseteq> fst ` set ?xs" using vs1(2) by (meson image_mono order_trans)
  moreover have "m \<in> fst ` set ?xs" "Suc m \<in> fst ` set ?xs" by simp_all
  ultimately have s2: "set (vs2 @ [Suc m]) \<subseteq> fst ` set ?xs"
    using vs2(6) subset_trans [of "set vs2" "insert m (set (vs @ ?M))" "fst ` set ?xs"]
    by (simp only: set_append [of vs2] list.set Un_subset_iff insert_subset empty_subsetI simp_thms)
  have s3: "set (work_nos ?xs) \<subseteq> set (vs2 @ [Suc m])"
    unfolding w using e1 vsub unfolding executes_def set_append [of vs2] by (meson le_supI1 order_trans)
  have "executes ?xs (vs2 @ [Suc m])"
    unfolding executes_def using p sm vs2(2,3) so vne s2 s3 by simp
  then show ?thesis using vsub by (intro exI [of _ "vs2 @ [Suc m]"]) auto
qed

lemma labels_ok_at:
  assumes "labels_ok xs labs" "k < length labs" "x \<in> set xs" "fst x = labs ! k" "distinct (map fst xs)"
  shows "label_of (snd x) = Some k"
proof -
  obtain y where "y \<in> set xs" "fst y = labs ! k" "label_of (snd y) = Some k"
    using assms(1,2) unfolding labels_ok_def by blast
  then show ?thesis using assms(3-5) by (metis distinct_map inj_onD)
qed

lemma flow_inv_jump:
  assumes inv: "flow_inv A B labs vs None" and ne: "labs \<noteq> []"
    and n: "all_below n (A @ B)" and opc: "is_jump opc"
  defines "Br \<equiv> branch_run n (length labs) (jump_opcs opc)" and "m \<equiv> n + length (jump_opcs opc)"
  assumes sp: "A @ Br @ B = A' @ x # B'" and k: "k < length labs" "fst x = labs ! k"
  shows "\<exists>vs'. flow_inv (A' @ [(m, branch_insn ''jmp'' k), (Suc m, label_insn (length labs))]) (x # B')
     (labs @ [Suc m]) vs' None"
proof -
  let ?N = "[(m, branch_insn ''jmp'' k), (Suc m, label_insn (length labs))]"
  let ?xs = "A' @ ?N @ x # B'"
  note run = jump_run [OF opc, where n = n and k = "length labs", folded Br_def m_def]
  have A: "A \<noteq> []" and ex: "executes (A @ B) vs" and lo: "labels_ok (A @ B) labs"
    and la: "last vs = fst (last A)" "holds_pos (snd (last A))" and di: "distinct (map fst (A @ B))"
    and rv: "\<And>k. k < length labs \<Longrightarrow> labs ! k \<in> set vs"
    using inv ne by (auto simp: flow_inv_def split: if_splits)
  have xAB: "x \<in> set (A @ B)"
  proof -
    obtain y where y: "y \<in> set (A @ B)" "fst y = labs ! k"
      using lo k(1) unfolding labels_ok_def by blast
    have "x \<in> set (A' @ x # B')" by simp
    then have "x \<in> set (A @ B) \<or> x \<in> set Br" unfolding sp [symmetric] by auto
    moreover have "x \<notin> set Br"
    proof
      assume "x \<in> set Br"
      then have "n \<le> fst x" using run(1) by blast
      then show False using y k(2) n by fastforce
    qed
    ultimately show ?thesis by blast
  qed
  have lx: "label_of (snd x) = Some k" by (rule labels_ok_at [OF lo k(1) xAB k(2) di])
  have xv: "fst x \<in> set vs" using rv k by simp
  obtain vs' where vs': "executes ?xs vs'" "last vs' = Suc m" "set vs \<subseteq> set vs'" "Suc m \<in> set vs'"
    using executes_jump [OF ex A la n opc di sp [unfolded Br_def] xv lx] by (auto simp: m_def)
  have lb: "labels_new (Br @ ?N) (length labs) [Suc m]"
    unfolding labels_new_def
  proof (intro conjI allI impI ballI)
    fix j assume "j < length [Suc m]"
    then show "\<exists>x \<in> set (Br @ ?N). fst x = [Suc m] ! j \<and> label_of (snd x) = Some (length labs + j)"
      by (simp add: fmt_simps)
  next
    fix y j assume y: "y \<in> set (Br @ ?N)" "label_of (snd y) = Some j"
    then have "y = (Suc m, label_insn (length labs))" using run(1) [of y] by (auto simp: fmt_simps)
    then show "length labs \<le> j" "j < length labs + length [Suc m]" "[Suc m] ! (j - length labs) = fst y"
      using y(2) by (auto simp: fmt_simps)
  next
    fix y j assume "y \<in> set (Br @ ?N)" "target_of (snd y) = Some j"
    then show "j < length labs + length [Suc m]" using run(1) [of y] k(1) by (auto simp: fmt_simps)
  qed
  have st: "set ?xs = set (A @ B) \<union> set (Br @ ?N)"
  proof -
    have "set (A' @ x # B') = set (A @ Br @ B)" using sp by simp
    then show ?thesis by auto
  qed
  have below: "all_below m (A @ Br @ B)"
  proof
    fix y assume "y \<in> set (A @ Br @ B)"
    then consider "y \<in> set (A @ B)" | "y \<in> set Br" by auto
    then show "fst y < m"
    proof cases
      case 1
      then have "fst y < n" using n by blast
      then show ?thesis by (simp add: m_def)
    qed (use run(1) in blast)
  qed
  have "distinct (map fst Br)" using run(2) by simp
  then have "distinct (map fst (A @ Br @ B))"
    using n run(1) by (intro distinct_nos_insert [OF di]) (meson less_le_trans)+
  then have dx: "distinct (map fst (A' @ x # B'))" using sp by simp
  have d: "distinct (map fst ?xs)"
  proof (rule distinct_nos_insert [OF dx])
    fix y z assume y: "y \<in> set (A' @ x # B')" and z: "z \<in> set ?N"
    have "fst y < m" using below [unfolded sp] y by (rule bspec)
    moreover have "m \<le> fst z" using z by auto
    ultimately show "fst y < fst z" by (rule less_le_trans)
  qed simp
  have "(labs @ [Suc m]) ! j \<in> set vs'" if "j < length (labs @ [Suc m])" for j
    using that rv [of j] vs'(3,4) by (auto simp: nth_append less_Suc_eq)
  then have "flow_inv (A' @ ?N) (x # B') (labs @ [Suc m]) vs' None"
    using d vs'(1,2) labels_ok_extend [OF lo lb st] unfolding flow_inv_def
    by (simp add: holds_pos_def fmt_simps)
  then show ?thesis ..
qed

lemma label_holds_pos:
  assumes "label_of i = Some k"
  shows "holds_pos i"
proof -
  obtain t where t: "ctrl i = Some t" "take 5 t = ''label''"
    using assms by (auto simp: label_of_def split: option.splits if_splits)
  have "take 2 t = take 2 (take 5 t)" by simp
  then have "take 2 t = ''la''" unfolding t(2) by simp
  then show ?thesis using t(1) by (simp add: holds_pos_def falls_def mnemonic_of_def)
qed

text \<open>Closing a loop or a procedure: the position moves to the label that was left open.\<close>

lemma flow_inv_close:
  assumes inv: "flow_inv A B labs vs (Some k)"
  shows "k < length labs" and "\<exists>A' x B'. A @ B = A' @ x # B' \<and> fst x = labs ! k"
    and "A @ B = A' @ x # B' \<Longrightarrow> fst x = labs ! k \<Longrightarrow> \<exists>vs'. flow_inv (A' @ [x]) B' labs vs' None"
proof -
  have A: "A \<noteq> []" and ex: "executes (A @ B) vs" and lo: "labels_ok (A @ B) labs"
    and la: "last vs = fst (last A)" "holds_pos (snd (last A))" and di: "distinct (map fst (A @ B))"
    and rv: "\<And>j. j < length labs \<Longrightarrow> j \<noteq> k \<Longrightarrow> labs ! j \<in> set vs" and k: "k < length labs"
    "labs ! k \<notin> set vs"
    using inv by (auto simp: flow_inv_def split: if_splits)
  obtain y B1 where y: "B = y # B1" "fst y \<notin> set vs" "\<not> plain (snd y)" "label_of (snd y) = None"
    "flow (A @ B) (fst y) (labs ! k)" using inv by (auto simp: flow_inv_def)
  show "k < length labs" by fact
  obtain z where z: "z \<in> set (A @ B)" "fst z = labs ! k" using lo k(1) unfolding labels_ok_def by blast
  then show "\<exists>A' x B'. A @ B = A' @ x # B' \<and> fst x = labs ! k" by (metis split_list)
  assume sp: "A @ B = A' @ x # B'" and x: "fst x = labs ! k"
  have xin: "x \<in> set (A @ B)" unfolding sp by simp
  have lx: "label_of (snd x) = Some k" by (rule labels_ok_at [OF lo k(1) xin x di])
  let ?vs = "vs @ [fst y, fst x]"
  have "flow (A @ B) (last vs) (fst y)"
  proof -
    have "A @ B = butlast A @ (fst (last A), snd (last A)) # (fst y, snd y) # B1"
      using A y(1) by (metis append_butlast_last_id append.assoc append_Cons append_Nil prod.collapse)
    from flow.fall [OF this] show ?thesis using la by (simp add: holds_pos_def)
  qed
  then have p: "successively (flow (A @ B)) ?vs"
    using ex y(5) x by (auto simp: executes_def successively_append_iff)
  have yx: "fst y \<noteq> fst x"
  proof
    assume e: "fst y = fst x"
    have "y \<in> set (A @ B)" using y(1) by simp
    then have "y = x" using e xin di by (metis distinct_map inj_onD)
    then show False using lx y(4) by simp
  qed
  have w: "fst x \<notin> set (work_nos (A @ B))" "fst y \<notin> set (work_nos (A @ B))"
  proof -
    show "fst x \<notin> set (work_nos (A @ B))"
      using ex k(2) x unfolding executes_def by (metis subsetD)
    show "fst y \<notin> set (work_nos (A @ B))"
      using ex y(2) unfolding executes_def by (metis subsetD)
  qed
  have "fst y \<in> fst ` set (A @ B)" "fst x \<in> fst ` set (A @ B)" using y(1) xin by auto
  then have "executes (A @ B) ?vs"
    using ex p yx y(2) k(2) x w A unfolding executes_def by auto
  moreover have "labs ! j \<in> set ?vs" if "j < length labs" for j
    using rv [of j] that x by auto
  ultimately have "flow_inv (A' @ [x]) B' labs ?vs None"
    using di lo label_holds_pos [OF lx] sp unfolding flow_inv_def by auto
  then show "\<exists>vs'. flow_inv (A' @ [x]) B' labs vs' None" ..
qed

end
