(* ===== verification/Generation.thy ===== *)
theory Generation
  imports Flow
begin

text \<open>
  Runs of the generator as sequences of the operations that change the program: emitting an
  instruction, likely marking the position with a label, a branch, and entering and leaving a
  loop or a procedure.  Every run keeps the invariant of the control flow, every operation returns, and
  finishing a run gives a program that executes all it contains.
\<close>

subsection \<open>Steps\<close>

text \<open>Steps that touch none of what makes up the program.\<close>

definition same_program :: "x86pg \<Rightarrow> x86pg \<Rightarrow> bool" where
  "same_program s s' \<longleftrightarrow> instlist s' = instlist s \<and> insertpos s' = insertpos s \<and>
     labeli s' = labeli s \<and> labelspos s' = labelspos s \<and> lock_ctrl s' = lock_ctrl s"

text \<open>
  The second component of a state is the label at which generation resumes when the loop or
  procedure that is open is left.
\<close>

inductive gen_step :: "x86pg \<times> int option \<Rightarrow> x86pg \<times> int option \<Rightarrow> bool" where
  quiet: "same_program s s' \<Longrightarrow> gen_step (s, m) (s', m)"
| emit: "plain i \<Longrightarrow> stat_insert_insn i INSERT_AFTER s = Inr s' \<Longrightarrow> gen_step (s, m) (s', m)"
| mark: "likely_gen_label s r = Inr (s', r') \<Longrightarrow> gen_step (s, m) (s', m)"
| branch: "is_jump opc \<Longrightarrow> gen_control_transfer_insn opc n s r = Inr (l, s', r') \<Longrightarrow> gen_step (s, m) (s', m)"
| enter: "is_loop opc \<or> opc = I ''call'' \<Longrightarrow> gen_control_transfer_insn opc n s r = Inr (l, s', r') \<Longrightarrow>
    gen_step (s, None) (s', Some l)"
| leave: "update_insert_pos_to_label l s = Inr s' \<Longrightarrow> gen_step (s, Some l) (stat_unlock_ctrl s', None)"

inductive_cases gen_stepE: "gen_step (s, m) t"

definition gen_ok :: "x86pg \<Rightarrow> int option \<Rightarrow> bool" where
  "gen_ok s m \<longleftrightarrow> (\<exists>A B labs vs. gstate s A B labs \<and> flow_inv A B labs vs (map_option nat m) \<and>
     lock_ctrl s = (m \<noteq> None) \<and> (\<forall>l. m = Some l \<longrightarrow> 0 \<le> l))"

lemma gen_okI:
  assumes "gstate s A B labs" "flow_inv A B labs vs (map_option nat m)" "lock_ctrl s = (m \<noteq> None)"
    and "\<And>l. m = Some l \<Longrightarrow> 0 \<le> l"
  shows "gen_ok s m"
  using assms unfolding gen_ok_def by blast

lemma gen_ok_start:
  assumes "instlist s = l" "rep l []" "insertpos s = None" "labeli s = 0" "\<not> lock_ctrl s"
  shows "gen_ok s None"
  using assms flow_inv_start
  by (intro gen_okI [of s "[]" "[]" "[]" "[]"]) (auto simp: gstate_def seq_content_def)

lemma gen_ok_init: "gen_ok (init_x86pgstate s) None"
  by (rule gen_ok_start [OF refl]) (simp_all add: init_x86pgstate_def rep_create)

lemma gen_ok_reset:
  assumes "insnlist_clear (instlist s) = Inr l" "rep (instlist s) as"
  shows "gen_ok (reset_x86pgstate (s\<lparr>instlist := l\<rparr>)) None"
  using refine_clear [OF assms(2)] assms(1)
  by (intro gen_ok_start [OF refl]) (auto simp: reset_x86pgstate_def)

lemma gen_ok_below: "gstate s A B labs \<Longrightarrow> all_below (next_no s) (A @ B)"
  using gstate_fresh by blast

subsection \<open>Each operation returns and keeps the invariant\<close>

lemma emit_ok:
  assumes "gen_ok s m" "plain i"
  shows "\<exists>s'. stat_insert_insn i INSERT_AFTER s = Inr s' \<and> gen_ok s' m"
proof -
  obtain A B labs vs where g: "gstate s A B labs" and f: "flow_inv A B labs vs (map_option nat m)"
    and l: "lock_ctrl s = (m \<noteq> None)" "\<And>l. m = Some l \<Longrightarrow> 0 \<le> l"
    using assms(1) unfolding gen_ok_def by blast
  obtain s' where s': "stat_insert_insn i INSERT_AFTER s = Inr s'"
    "gstate s' (A @ [(next_no s, i)]) B labs" "same_frame s s'" using insert_after [OF g] by blast
  have "gen_ok s' m"
    using flow_inv_insn [OF f gen_ok_below [OF g] assms(2)] s'(2,3) l
    by (intro gen_okI) (auto simp: same_frame_def)
  then show ?thesis using s'(1) by blast
qed

lemma mark_ok:
  assumes "gen_ok s m"
  shows "\<exists>s' r'. likely_gen_label s r = Inr (s', r') \<and> gen_ok s' m"
proof -
  obtain A B labs vs where g: "gstate s A B labs" and f: "flow_inv A B labs vs (map_option nat m)"
    and l: "lock_ctrl s = (m \<noteq> None)" "\<And>l. m = Some l \<Longrightarrow> 0 \<le> l"
    using assms(1) unfolding gen_ok_def by blast
  obtain b r' where b: "likely_happen_p (5764607523034235 / 2 ^ 59) r = Inr (b, r')"
    using likely_happen_p_total by blast
  have "\<exists>k s'. gen_label INSERT_AFTER s = Inr (k, s') \<and> gen_ok s' m"
  proof (cases "lock_ctrl s")
    case True
    then show ?thesis using assms gen_label_locked by blast
  next
    case False
    obtain s' where s': "gen_label INSERT_AFTER s = Inr (int (length labs), s')"
      "gstate s' (A @ [(next_no s, label_insn (length labs))]) B (labs @ [next_no s])" "same_frame s s'"
      using gen_label_after [OF g False] by blast
    have "gen_ok s' m"
      using flow_inv_label [OF f gen_ok_below [OF g]] s'(2,3) l
      by (intro gen_okI) (auto simp: same_frame_def)
    then show ?thesis using s'(1) by blast
  qed
  then show ?thesis using b assms by (cases b) (auto simp: likely_gen_label_def)
qed

lemma gen_control_transfer_locked:
  "lock_ctrl s \<Longrightarrow> gen_control_transfer_insn opc n s r = Inr (-1, s, r)"
  by (simp add: gen_control_transfer_insn_def)

lemma gen_control_transfer_jump:
  assumes "is_jump opc" "\<not> lock_ctrl s"
  shows "gen_control_transfer_insn opc n s r =
    bnd (gen_jmp_insns (jump_opcs opc) s) (\<lambda>s. gen_jmp_target s r)"
  using assms by (auto simp: gen_control_transfer_insn_def is_jump_def jump_opcs_def)

lemma branch_ok:
  assumes ok: "gen_ok s m" and opc: "is_jump opc"
  shows "\<exists>l s' r'. gen_control_transfer_insn opc n s r = Inr (l, s', r') \<and> gen_ok s' m"
proof (cases "lock_ctrl s")
  case True
  then show ?thesis using ok gen_control_transfer_locked by blast
next
  case False
  then obtain A B labs vs where g: "gstate s A B labs" and f: "flow_inv A B labs vs None" and m: "m = None"
    using ok unfolding gen_ok_def by auto
  let ?Br = "branch_run (next_no s) (length labs) (jump_opcs opc)"
  obtain s1 where s1: "gen_jmp_insns (jump_opcs opc) s = Inr s1" "gstate s1 (A @ ?Br) B labs"
    "same_frame s s1" "next_no s1 = next_no s + length (jump_opcs opc)"
    using gen_jmp_insns_effect [OF g] by blast
  have l1: "\<not> lock_ctrl s1" using False s1(3) by (simp add: same_frame_def)
  have eq: "gen_control_transfer_insn opc n s r = gen_jmp_target s1 r"
    using gen_control_transfer_jump [OF opc False] s1(1) by simp
  show ?thesis
  proof (cases "labs = []")
    case True
    then obtain vs' where inv: "flow_inv (A @ butlast ?Br @ [(next_no s1, label_insn 0)]) (last ?Br # B)
        [next_no s1] vs' None"
      using flow_inv_jump_first [OF f [unfolded True] gen_ok_below [OF g] opc] s1(4) by auto
    have "?Br \<noteq> []" by (auto simp: jump_opcs_def)
    then have "gstate s1 ((A @ butlast ?Br) @ [last ?Br]) B []" using s1(2) True by simp
    then obtain s2 where "gen_jmp_target s1 r = Inr (-1, s2, r)" "same_frame s1 s2"
      "gstate s2 ((A @ butlast ?Br) @ [(next_no s1, label_insn 0)]) (last ?Br # B) [next_no s1]"
      using gen_jmp_target_first [OF _ l1] by blast
    then show ?thesis
      using eq inv m l1 by (auto intro!: gen_okI simp: same_frame_def)
  next
    case ne: False
    have "labs ! k \<in> fst ` set ((A @ ?Br) @ B)" if k: "k < length labs" for k
    proof -
      have "labels_ok (A @ B) labs" using f by (simp add: flow_inv_def)
      then obtain x where "x \<in> set (A @ B)" "fst x = labs ! k" using k unfolding labels_ok_def by blast
      then have "x \<in> set ((A @ ?Br) @ B)" by auto
      then show ?thesis using \<open>fst x = labs ! k\<close> by (metis image_eqI)
    qed
    from gen_jmp_target_label [OF s1(2) l1 ne this] obtain k s2 A' x B' where
      s2: "gen_jmp_target s1 r = Inr (int k, s2, stl r)" "k < length labs"
      "(A @ ?Br) @ B = A' @ x # B'" "fst x = labs ! k" "same_frame s1 s2"
      "gstate s2 (A' @ [(next_no s1, branch_insn ''jmp'' k), (Suc (next_no s1), label_insn (length labs))])
        (x # B') (labs @ [Suc (next_no s1)])" by blast
    have "A @ ?Br @ B = A' @ x # B'" using s2(3) by simp
    then obtain vs' where "flow_inv (A' @ [(next_no s1, branch_insn ''jmp'' k),
        (Suc (next_no s1), label_insn (length labs))]) (x # B') (labs @ [Suc (next_no s1)]) vs' None"
      using flow_inv_jump [OF f ne gen_ok_below [OF g] opc _ s2(2,4)] s1(4) by auto
    then show ?thesis
      using eq s2(1,5,6) m l1 by (auto intro!: gen_okI simp: same_frame_def)
  qed
qed

lemma enter_ok:
  assumes ok: "gen_ok s None" and opc: "is_loop opc \<or> opc = I ''call''"
  shows "\<exists>l s' r'. gen_control_transfer_insn opc n s r = Inr (l, s', r') \<and> gen_ok s' (Some l)"
proof -
  obtain A B labs vs where g: "gstate s A B labs" and f: "flow_inv A B labs vs None"
    and l: "\<not> lock_ctrl s"
    using ok unfolding gen_ok_def by auto
  show ?thesis
    using opc
  proof
    assume o: "is_loop opc"
    show ?thesis
      using gen_loop_effect [OF g l o] flow_inv_loop [OF f gen_ok_below [OF g] o]
      by (fastforce intro: gen_okI)
  next
    assume "opc = I ''call''"
    moreover obtain s' where s': "gen_control_transfer_insn (I ''call'') n s r = Inr (int (length labs + 2), s', r)"
      "gstate s' (A @ call_head (next_no s) (length labs)) (call_rest (next_no s) (length labs) @ B)
         (labs @ [next_no s + 1, next_no s + 3, next_no s + 5])" "lock_ctrl s'"
      using gen_call_effect [OF g l] by blast
    moreover have "gen_ok s' (Some (int (length labs + 2)))"
      using flow_inv_call [OF f gen_ok_below [OF g]] s'(2,3) unfolding gen_ok_def
      by (metis nat_int of_nat_0_le_iff option.distinct(1) option.inject option.simps(9))
    ultimately show ?thesis by blast
  qed
qed

lemma leave_ok:
  assumes ok: "gen_ok s (Some l)"
  shows "\<exists>s'. update_insert_pos_to_label l s = Inr s' \<and> gen_ok (stat_unlock_ctrl s') None"
proof -
  obtain A B labs vs where g: "gstate s A B labs" and f: "flow_inv A B labs vs (Some (nat l))"
    and l: "0 \<le> l"
    using ok unfolding gen_ok_def by auto
  note c = flow_inv_close [OF f]
  obtain A' x B' where x: "A @ B = A' @ x # B'" "fst x = labs ! nat l" using c(2) by blast
  obtain vs' where inv: "flow_inv (A' @ [x]) B' labs vs' None" using c(3) [OF x] by blast
  obtain s' where s': "update_insert_pos_to_label l s = Inr s'" "gstate s' (A' @ [x]) B' labs"
    using move_to_label [OF g c(1) x] l by auto
  have "gen_ok (stat_unlock_ctrl s') None"
    using s'(2) inv by (intro gen_okI) (auto simp: stat_unlock_ctrl_def [abs_def] gstate_def)
  then show ?thesis using s'(1) by blast
qed

lemma gen_step_ok:
  assumes "gen_step (s, m) (s', m')" "gen_ok s m"
  shows "gen_ok s' m'"
  using assms(1)
proof (rule gen_stepE, goal_cases)
  case 1
  then show ?case using assms(2) by (auto simp: gen_ok_def gstate_def same_program_def)
next
  case (2 i s1)
  then show ?case using emit_ok [OF assms(2) 2(2)] by simp
next
  case (3 r s1 r')
  then show ?case using mark_ok [OF assms(2), of r] by simp
next
  case (4 opc n r l s1 r')
  then show ?case using branch_ok [OF assms(2) 4(2), of n r] by simp
next
  case (5 opc n r l s1 r')
  then show ?case using enter_ok [of s opc n r] assms(2) by auto
next
  case (6 l s1)
  then show ?case using leave_ok [of s l] assms(2) by auto
qed

lemma gen_steps_ok: "gen_step\<^sup>*\<^sup>* (s, m) (s', m') \<Longrightarrow> gen_ok s m \<Longrightarrow> gen_ok s' m'"
  by (induction rule: rtranclp_induct2) (auto intro: gen_step_ok)

subsection \<open>Finishing\<close>

lemma executes_emission_order:
  assumes "executes xs vs" "distinct (map fst xs)"
  shows "filter (\<lambda>a. a \<in> set (work_nos xs)) vs = sort (work_nos xs)"
proof -
  have d: "distinct (work_nos xs)" using assms(2) by (simp add: work_nos_def distinct_map_filter)
  have f: "distinct (filter (\<lambda>a. a \<in> set (work_nos xs)) vs)"
    "sorted (filter (\<lambda>a. a \<in> set (work_nos xs)) vs)" "set (work_nos xs) \<subseteq> set vs"
    using assms(1) by (auto simp: executes_def)
  have "set (filter (\<lambda>a. a \<in> set (work_nos xs)) vs) = set (work_nos xs)" using f(3) by auto
  then show ?thesis using f d
    by (metis distinct_sort finite_set sorted_distinct_set_unique sorted_sort set_sort)
qed

lemma executes_append:
  assumes "executes ys vs" "ys \<noteq> []" "flow (ys @ [t]) (last vs) (fst t)"
    and "fst t \<notin> fst ` set ys" "\<not> plain (snd t)"
  shows "executes (ys @ [t]) (vs @ [fst t])"
proof -
  have k: "flow (ys @ [t]) a b" if "flow ys a b" for a b
    using flow_insert [of ys "[]" a b "[t]"] that by simp
  have "successively (flow (ys @ [t])) vs"
    using assms(1) k by (auto simp: executes_def intro: successively_mono)
  moreover have "work_nos (ys @ [t]) = work_nos ys" using assms(5) by (simp add: work_nos_def)
  moreover have "fst t \<notin> set vs" "fst t \<notin> set (work_nos ys)"
    using assms(1,4) work_nos_subset [of ys] by (auto simp: executes_def)
  ultimately show ?thesis
    using assms(1-3) by (auto simp: executes_def successively_append_iff)
qed

lemma finish_ok:
  assumes ok: "gen_ok s None"
  shows "\<exists>s' xs labs vs. gen_control_transfer_finish s = Inr s' \<and> seq_content (instlist s') xs \<and>
    insnlist_insns (instlist s') = map snd xs \<and> labels_ok xs labs \<and> executes xs vs \<and> xs \<noteq> [] \<and> last vs = fst (last xs) \<and>
    filter (\<lambda>a. a \<in> set (work_nos xs)) vs = sort (work_nos xs)"
proof -
  obtain A B labs vs where g: "gstate s A B labs" and f: "flow_inv A B labs vs None"
    and l: "\<not> lock_ctrl s"
    using ok unfolding gen_ok_def by auto
  let ?j = "(next_no s, branch_insn ''jmp'' (length labs))"
  let ?t = "(Suc (next_no s), label_insn (length labs))"
  let ?xs = "A @ ([?j] @ B @ [?t])"
  obtain s' where s': "gen_control_transfer_finish s = Inr s'"
    "gstate s' ?xs [] (labs @ [Suc (next_no s)])" using gen_finish_effect [OF g l] by auto
  have ex: "executes (A @ B) vs" and lo: "labels_ok (A @ B) labs"
    and ab: "A = [] \<Longrightarrow> B = [] \<and> vs = []"
    and la: "A \<noteq> [] \<Longrightarrow> last vs = fst (last A) \<and> holds_pos (snd (last A))"
    using f by (auto simp: flow_inv_def split: if_splits)
  have below: "all_below (next_no s) (A @ B)" by (rule gen_ok_below [OF g])
  have lok: "labels_ok ?xs (labs @ [Suc (next_no s)])"
    by (rule labels_ok_extend [OF lo, of "[?j, ?t]"]) (auto simp: labels_new_def fmt_simps)
  have e1: "executes (A @ [?j] @ B) (vs @ [next_no s])"
    by (rule executes_extend [OF ex ab la]) (use below in \<open>auto simp: work_nos_def fmt_simps\<close>)
  have "flow ((A @ [?j] @ B) @ [?t]) (last (vs @ [next_no s])) (fst ?t)"
    by (rule flow.jump [of _ "snd ?j" _ "length labs" _ "snd ?t"]) (auto simp: fmt_simps)
  moreover have "fst ?t \<notin> fst ` set (A @ [?j] @ B)"
  proof
    assume "fst ?t \<in> fst ` set (A @ [?j] @ B)"
    then obtain x where "x \<in> set (A @ [?j] @ B)" "fst ?t = fst x" by blast
    then consider "x = ?j" | "x \<in> set (A @ B)" "fst x = Suc (next_no s)" by auto
    then show False
    proof cases
      case 2
      have "fst x < next_no s" using below 2(1) by (rule bspec)
      then show False using 2(2) by simp
    qed (use \<open>fst ?t = fst x\<close> in simp)
  qed
  ultimately have e2: "executes ?xs (vs @ [next_no s, Suc (next_no s)])"
    using executes_append [OF e1, of ?t] by (simp add: fmt_simps)
  have d: "distinct (map fst ?xs)" using gstate_distinct [OF s'(2)] by simp
  have "seq_content (instlist s') ?xs" "insnlist_insns (instlist s') = map snd ?xs"
    using s'(2) seq_content_insns [of "instlist s'" ?xs] by (simp_all add: gstate_def)
  then show ?thesis using s'(1) lok e2 executes_emission_order [OF e2 d]
    by (intro exI [of _ s'] exI [of _ ?xs] exI [of _ "labs @ [Suc (next_no s)]"]
        exI [of _ "vs @ [next_no s, Suc (next_no s)]"]) simp
qed

end
