(* ===== verification/Traverse.thy ===== *)
theory Traverse
  imports WdTree
begin

text \<open>
  The traverse machinery of \<open>engine/tmplt.c\<close>: the integer square root, the prime test and the
  choice of the sampling step, the size of a tree, and the preorder traversal that runs the body
  of a traverse block on (a sample of) all combinations of constants.
\<close>

subsection \<open>C integers\<close>

text \<open>The build passes \<open>-fwrapv\<close>: signed arithmetic and narrowing conversions wrap.\<close>

definition wrap32 :: "int \<Rightarrow> int" where
  "wrap32 x = signed_take_bit 31 x"

definition wrap64 :: "int \<Rightarrow> int" where
  "wrap64 x = signed_take_bit 63 x"

subsection \<open>Choosing a prime step\<close>

function sqrti_loop :: "int \<Rightarrow> nat \<Rightarrow> nat" where
  "sqrti_loop num s =
     (if num \<ge> 2 * int s + 1 then sqrti_loop (num - (2 * int s + 1)) (Suc s) else s)"
  by pat_completeness auto
termination
  by (relation "measure (\<lambda>(num, s). nat num)") auto

declare sqrti_loop.simps [simp del]

definition sqrti :: "int \<Rightarrow> int" where
  "sqrti num = int (sqrti_loop num 0)"

function odd_divisor_free :: "int \<Rightarrow> int \<Rightarrow> int \<Rightarrow> bool" where
  "odd_divisor_free num limit i =
     (if i \<le> limit then (if num mod i = 0 then False else odd_divisor_free num limit (i + 2))
      else True)"
  by pat_completeness auto
termination
  by (relation "measure (\<lambda>(num, limit, i). nat (limit + 1 - i))") auto

declare odd_divisor_free.simps [simp del]

definition is_prime :: "int \<Rightarrow> bool" where
  "is_prime num =
     (if num \<le> 3 then True
      else if num mod 2 = 0 then False
      else odd_divisor_free num (sqrti num) 3)"

function greatest_prime :: "int \<Rightarrow> int" where
  "greatest_prime i = (if i > 0 then (if is_prime i then i else greatest_prime (i - 1)) else i)"
  by pat_completeness auto
termination
  by (relation "measure nat") auto

declare greatest_prime.simps [simp del]

lemma sqrti_loop_spec:
  "0 \<le> num \<Longrightarrow> (let t = sqrti_loop num s in s \<le> t \<and>
     int t * int t \<le> num + int s * int s \<and> num + int s * int s < (int t + 1) * (int t + 1))"
proof (induction num s rule: sqrti_loop.induct)
  case (1 num s)
  show ?case
  proof (cases "num \<ge> 2 * int s + 1")
    case True
    then show ?thesis using 1
      by (auto simp: sqrti_loop.simps [of num s] Let_def algebra_simps)
  next
    case False
    then show ?thesis using 1
      by (simp add: sqrti_loop.simps [of num s] Let_def algebra_simps)
  qed
qed

lemma sqrti_spec:
  assumes "0 \<le> num"
  shows "0 \<le> sqrti num" and "sqrti num * sqrti num \<le> num"
    and "num < (sqrti num + 1) * (sqrti num + 1)"
  using sqrti_loop_spec [OF assms, of 0] by (auto simp: sqrti_def Let_def)

lemma odd_divisor_free_iff:
  "odd_divisor_free num limit i \<longleftrightarrow> (\<forall>k. i + 2 * int k \<le> limit \<longrightarrow> \<not> (i + 2 * int k) dvd num)"
proof (induction num limit i rule: odd_divisor_free.induct)
  case (1 num limit i)
  have all: "(\<forall>k. P k) \<longleftrightarrow> P 0 \<and> (\<forall>k. P (Suc k))" for P :: "nat \<Rightarrow> bool"
    by (metis not0_implies_Suc)
  have shift: "i + 2 + 2 * int k = i + 2 * int (Suc k)" for k by simp
  show ?case
  proof (cases "i \<le> limit \<and> num mod i \<noteq> 0")
    case True
    then have "\<not> i dvd num" by (simp add: dvd_eq_mod_eq_0)
    then have "odd_divisor_free num limit i \<longleftrightarrow>
        (\<forall>k. i + 2 + 2 * int k \<le> limit \<longrightarrow> \<not> (i + 2 + 2 * int k) dvd num)"
      using True 1 by (simp add: odd_divisor_free.simps [of num limit i])
    also have "\<dots> \<longleftrightarrow> (\<forall>k. i + 2 * int (Suc k) \<le> limit \<longrightarrow> \<not> (i + 2 * int (Suc k)) dvd num)"
      by (simp only: shift)
    also have "\<dots> \<longleftrightarrow> (\<forall>k. i + 2 * int k \<le> limit \<longrightarrow> \<not> (i + 2 * int k) dvd num)"
      using \<open>\<not> i dvd num\<close> by (subst (2) all) (simp del: of_nat_Suc)
    finally show ?thesis .
  next
    case False
    then consider "limit < i" | "i \<le> limit" "num mod i = 0" by linarith
    then show ?thesis
    proof cases
      case 1
      then show ?thesis by (simp add: odd_divisor_free.simps [of num limit i])
    next
      case 2
      then have "i dvd num" by (simp add: mod_eq_0_iff_dvd)
      then have "\<not> (\<forall>k. i + 2 * int k \<le> limit \<longrightarrow> \<not> (i + 2 * int k) dvd num)"
        using 2 by (auto intro!: exI [of _ 0])
      then show ?thesis using 2 by (simp add: odd_divisor_free.simps [of num limit i])
    qed
  qed
qed

text \<open>Primality stated without the library's number theory: no divisor strictly between 1 and n.\<close>

definition no_divisor :: "int \<Rightarrow> bool" where
  "no_divisor n \<longleftrightarrow> (\<forall>d. 1 < d \<and> d < n \<longrightarrow> \<not> d dvd n)"

lemma divisor_below_sqrt:
  assumes n: "0 \<le> n" and d: "1 < d" "d < n" "d dvd n"
  shows "\<exists>e. 1 < e \<and> e \<le> sqrti n \<and> e dvd n"
proof -
  obtain k where k: "n = d * k" using d(3) by (auto simp: dvd_def)
  have "1 < k"
  proof (rule ccontr)
    assume "\<not> 1 < k"
    then have "d * k \<le> d * 1" using d by (intro mult_left_mono) auto
    then show False using k d by simp
  qed
  moreover have "d \<le> sqrti n \<or> k \<le> sqrti n"
  proof (rule ccontr)
    assume "\<not> ?thesis"
    then have "(sqrti n + 1) * (sqrti n + 1) \<le> d * k"
      using sqrti_spec(1) [OF n] by (intro mult_mono) auto
    then show False using sqrti_spec(3) [OF n] k by simp
  qed
  ultimately show ?thesis using d k by auto
qed

lemma is_prime_iff:
  assumes "1 < n"
  shows "is_prime n \<longleftrightarrow> no_divisor n"
proof -
  consider "n \<le> 3" | "3 < n" "even n" | "3 < n" "odd n" by linarith
  then show ?thesis
  proof cases
    case 1
    then have "n = 2 \<or> n = 3" using assms by linarith
    moreover have "\<not> d dvd 3" if "1 < d" "d < 3" for d :: int
    proof -
      have "d = 2" using that by linarith
      then show ?thesis by simp
    qed
    ultimately show ?thesis using 1 by (auto simp: is_prime_def no_divisor_def)
  next
    case 2
    then show ?thesis by (auto simp: is_prime_def no_divisor_def intro!: exI [of _ 2])
  next
    case 3
    have "is_prime n \<longleftrightarrow> (\<forall>k. 3 + 2 * int k \<le> sqrti n \<longrightarrow> \<not> (3 + 2 * int k) dvd n)"
      using 3 by (simp add: is_prime_def odd_divisor_free_iff odd_iff_mod_2_eq_one)
    also have "\<dots> \<longleftrightarrow> (\<forall>e. 1 < e \<and> e \<le> sqrti n \<longrightarrow> \<not> e dvd n)" (is "?L \<longleftrightarrow> ?R")
    proof
      assume L: ?L
      show ?R
      proof (intro allI impI notI)
        fix e assume e: "1 < e \<and> e \<le> sqrti n" "e dvd n"
        then have "odd e" using 3(2) by (meson dvd_trans)
        then have "e = 3 + 2 * int (nat ((e - 3) div 2))" using e(1) by (elim oddE) auto
        then show False using L e by metis
      qed
    qed auto
    also have "\<dots> \<longleftrightarrow> no_divisor n"
    proof
      assume R: "\<forall>e. 1 < e \<and> e \<le> sqrti n \<longrightarrow> \<not> e dvd n"
      then show "no_divisor n"
        using divisor_below_sqrt [of n] 3 unfolding no_divisor_def by fastforce
    next
      assume N: "no_divisor n"
      have "sqrti n < n"
      proof (rule ccontr)
        assume "\<not> sqrti n < n"
        then have "n * n \<le> sqrti n * sqrti n" using 3 by (intro mult_mono) auto
        moreover have "n * 1 < n * n" using 3 by (intro mult_strict_left_mono) auto
        ultimately show False using sqrti_spec(2) [of n] 3 by linarith
      qed
      then show "\<forall>e. 1 < e \<and> e \<le> sqrti n \<longrightarrow> \<not> e dvd n" using N by (auto simp: no_divisor_def)
    qed
    finally show ?thesis .
  qed
qed

lemma greatest_prime_spec:
  "1 < limit \<Longrightarrow> 1 < greatest_prime limit \<and> greatest_prime limit \<le> limit \<and>
     no_divisor (greatest_prime limit) \<and>
     (\<forall>q. greatest_prime limit < q \<and> q \<le> limit \<longrightarrow> \<not> no_divisor q)"
proof (induction limit rule: greatest_prime.induct)
  case (1 i)
  show ?case
  proof (cases "is_prime i")
    case True
    then show ?thesis using 1(2) is_prime_iff [of i] by (auto simp: greatest_prime.simps [of i])
  next
    case False
    then have "3 < i" by (auto simp: is_prime_def split: if_splits)
    then have IH: "1 < greatest_prime (i - 1) \<and> greatest_prime (i - 1) \<le> i - 1 \<and>
       no_divisor (greatest_prime (i - 1)) \<and>
       (\<forall>q. greatest_prime (i - 1) < q \<and> q \<le> i - 1 \<longrightarrow> \<not> no_divisor q)"
      using 1 False by simp
    have "\<not> no_divisor i" using False is_prime_iff [of i] 1(2) by simp
    then have "\<not> no_divisor q" if "greatest_prime (i - 1) < q" "q \<le> i" for q
      using IH that by (cases "q = i") auto
    moreover have "greatest_prime i = greatest_prime (i - 1)"
      using False 1(2) by (simp add: greatest_prime.simps [of i])
    ultimately show ?thesis using IH by auto
  qed
qed

subsection \<open>The number of leaves of a tree\<close>

text \<open>
  The recursion runs over the whole \<open>sub_nodes\<close> array, whatever \<open>size\<close> says, and stops at a
  node whose size is 0.
\<close>

fun get_tk_tree_leaf_num_node :: "wd_node \<Rightarrow> nat" where
  "get_tk_tree_leaf_num_node (WdNode lf n ws subs cs) =
     (if n = 0 then 0 else if lf then n else sum_list (map get_tk_tree_leaf_num_node subs))"

definition get_tk_tree_leaf_num :: "wd_node option \<Rightarrow> nat" where
  "get_tk_tree_leaf_num n = (case n of None \<Rightarrow> 0 | Some n \<Rightarrow> get_tk_tree_leaf_num_node n)"

text \<open>The product \<open>possible_trv_num\<close>, a \<open>long int\<close> that wraps.\<close>

fun times_leaf_num :: "nat \<Rightarrow> int \<Rightarrow> int \<Rightarrow> int" where
  "times_leaf_num 0 k acc = acc"
| "times_leaf_num (Suc j) k acc = times_leaf_num j k (wrap64 (acc * k))"

fun possible_trv_num :: "wd_root list \<Rightarrow> int \<Rightarrow> int" where
  "possible_trv_num [] acc = acc"
| "possible_trv_num (t # ts) acc = possible_trv_num ts
     (times_leaf_num (nat (packedn t)) (int (get_tk_tree_leaf_num (root_node t))) acc)"

definition EXPECTED_TRV_NUM :: int where
  "EXPECTED_TRV_NUM = 8192"

definition c_div :: "int \<Rightarrow> int \<Rightarrow> int" where
  "c_div a b = sgn a * sgn b * (\<bar>a\<bar> div \<bar>b\<bar>)"

definition choose_step :: "int \<Rightarrow> int" where
  "choose_step possible =
     (if c_div possible EXPECTED_TRV_NUM > 0
      then greatest_prime (wrap32 (c_div possible EXPECTED_TRV_NUM + 1)) else 1)"

subsection \<open>The preorder traversal\<close>

text \<open>
  The traversal keeps, for every operand, the array of constants chosen so far; \<open>val_nodes\<close> is
  the last of these arrays, which \<open>trv_state->trv_nodes\<close> points to as well.
\<close>

type_synonym vals = "const_node list list"

definition push_val :: "nat \<Rightarrow> const_node \<Rightarrow> vals \<Rightarrow> vals" where
  "push_val treei v tn = tn[treei := tn ! treei @ [v]]"

definition remove_index :: "nat \<Rightarrow> 'a list \<Rightarrow> 'a list" where
  "remove_index k xs = take k xs @ drop (Suc k) xs"

definition pop_val :: "nat \<Rightarrow> int \<Rightarrow> vals \<Rightarrow> vals" where
  "pop_val treei packedi tn = tn[treei := remove_index (nat packedi) (tn ! treei)]"

text \<open>
  The static counters of the traversal, part of every state that extends this record.
\<close>

record trv_globals =
  trv_step :: int
  trv_index :: int

text \<open>A complete assignment: the body runs when the running index is a multiple of the step.\<close>

definition got_complete ::
  "(vals \<Rightarrow> 'a trv_globals_scheme \<Rightarrow> 'a trv_globals_scheme res) \<Rightarrow>
   vals \<Rightarrow> 'a trv_globals_scheme \<Rightarrow> 'a trv_globals_scheme res" where
  "got_complete body tn s =
     (if trv_step s = 0 then Inl Undefined
      else let k = trv_index s; s = s\<lparr>trv_index := wrap32 (k + 1)\<rparr>
           in if trv_step s dvd k then body tn s else Inr s)"

text \<open>
  The loop over \<open>i\<close> of \<open>preorder_traverse_tk_trees\<close>.  A packed count the indices have already
  passed would recurse without end; that is the \<open>Undefined\<close> of the last branch.
\<close>

function preorder_loop ::
  "(vals \<Rightarrow> 's \<Rightarrow> 's res) \<Rightarrow> wd_root list \<Rightarrow> nat \<Rightarrow> int \<Rightarrow> wd_node \<Rightarrow> nat \<Rightarrow> vals \<Rightarrow> 's \<Rightarrow> (vals \<times> 's) res"
where
  "preorder_loop visit trees treei packedi n i tn s =
     (if wd_size n \<le> i then Inr (tn, s)
      else if isleaf n then
        (case idx (const_nodes n) (int i) of Inl e \<Rightarrow> Inl e | Inr v \<Rightarrow>
        (case idx trees (int treei) of Inl e \<Rightarrow> Inl e | Inr tree \<Rightarrow>
         bnd
          (if treei + 1 = length trees \<and> packedi + 1 = packedn tree
           then bnd (visit (push_val treei v tn) s) (\<lambda>s. Inr (push_val treei v tn, s))
           else if packedi + 1 = packedn tree then
             (case idx trees (int treei + 1) of Inl e \<Rightarrow> Inl e | Inr next_tree \<Rightarrow>
              bnd (case root_node next_tree of None \<Rightarrow> Inr (push_val treei v tn @ [[]], s)
                   | Some m \<Rightarrow> preorder_loop visit trees (treei + 1) 0 m 0 (push_val treei v tn @ [[]]) s)
                (\<lambda>(tn, s). Inr (remove_index (treei + 1) tn, s)))
           else if packedi + 1 < packedn tree then
             (case root_node tree of None \<Rightarrow> Inr (push_val treei v tn, s)
              | Some m \<Rightarrow> preorder_loop visit trees treei (packedi + 1) m 0 (push_val treei v tn) s)
           else Inl Undefined)
          (\<lambda>(tn, s). preorder_loop visit trees treei packedi n (i + 1) (pop_val treei packedi tn) s)))
      else
        (case idx (sub_nodes n) (int i) of Inl e \<Rightarrow> Inl e | Inr sub \<Rightarrow>
         bnd (preorder_loop visit trees treei packedi sub 0 tn s) (\<lambda>(tn, s).
         preorder_loop visit trees treei packedi n (i + 1) tn s)))"
  by pat_completeness auto
termination
  by (relation "measures [\<lambda>(visit, trees, treei, packedi, n, i, tn, s). length trees - treei,
        \<lambda>(visit, trees, treei, packedi, n, i, tn, s). nat (packedn (trees ! treei) - packedi),
        \<lambda>(visit, trees, treei, packedi, n, i, tn, s). size n,
        \<lambda>(visit, trees, treei, packedi, n, i, tn, s). wd_size n - i]")
     (auto simp: idx_Inr intro: sub_node_size)

declare preorder_loop.simps [simp del]

definition preorder_traverse_tk_trees ::
  "(vals \<Rightarrow> 's \<Rightarrow> 's res) \<Rightarrow> wd_root list \<Rightarrow> wd_node option \<Rightarrow> nat \<Rightarrow> int \<Rightarrow> vals \<Rightarrow> 's \<Rightarrow> (vals \<times> 's) res"
where
  "preorder_traverse_tk_trees visit trees tk_node treei packedi tn s =
     (case tk_node of None \<Rightarrow> Inr (tn, s)
      | Some n \<Rightarrow> preorder_loop visit trees treei packedi n 0 tn s)"

text \<open>The part of \<open>walkTrvBlk\<close> after the current block is set.\<close>

definition traverse_block ::
  "(vals \<Rightarrow> 'a trv_globals_scheme \<Rightarrow> 'a trv_globals_scheme res) \<Rightarrow>
   wd_root list \<Rightarrow> 'a trv_globals_scheme \<Rightarrow> 'a trv_globals_scheme res" where
  "traverse_block body trees s =
     (let possible = possible_trv_num trees 1 in
      case trees of [] \<Rightarrow> Inr s
      | t # _ \<Rightarrow>
        bnd (preorder_traverse_tk_trees (got_complete body) trees (root_node t) 0 0 [[]]
              (s\<lparr>trv_step := choose_step possible, trv_index := 0\<rparr>))
          (\<lambda>(tn, s). Inr s))"

subsection \<open>The traversal visits exactly the combinations\<close>

fun wd_shape :: "wd_node \<Rightarrow> bool" where
  "wd_shape (WdNode lf n ws subs cs) \<longleftrightarrow>
     (if lf then length cs = n else length subs = n \<and> list_all wd_shape subs)"

definition root_leaves :: "wd_root \<Rightarrow> const_node list" where
  "root_leaves t = (case root_node t of None \<Rightarrow> [] | Some n \<Rightarrow> leaves n)"

definition trav_ok :: "wd_root list \<Rightarrow> bool" where
  "trav_ok trees \<longleftrightarrow> (\<forall>t \<in> set trees. 1 \<le> packedn t \<and> (\<forall>n. root_node t = Some n \<longrightarrow> wd_shape n))"

definition packs :: "nat \<Rightarrow> const_node list \<Rightarrow> const_node list list" where
  "packs k L = product_lists (replicate k L)"

text \<open>All assignments: for every operand, as many constants as it packs, leftmost slowest.\<close>

definition assignments :: "wd_root list \<Rightarrow> vals list" where
  "assignments trees = product_lists (map (\<lambda>t. packs (nat (packedn t)) (root_leaves t)) trees)"

definition conts :: "wd_root list \<Rightarrow> nat \<Rightarrow> int \<Rightarrow> vals \<Rightarrow> const_node list \<Rightarrow> const_node \<Rightarrow> vals list" where
  "conts trees treei packedi pre cur v =
     concat (map (\<lambda>r. map (\<lambda>more. pre @ (cur @ v # r) # more) (assignments (drop (Suc treei) trees)))
       (packs (nat (packedn (trees ! treei) - packedi - 1)) (root_leaves (trees ! treei))))"

definition leaves_from :: "wd_node \<Rightarrow> nat \<Rightarrow> const_node list" where
  "leaves_from n i = (if isleaf n then drop i (const_nodes n) else concat (map leaves (drop i (sub_nodes n))))"

lemma leaves_from_0: "wd_shape n \<Longrightarrow> leaves_from n 0 = leaves n"
  by (cases n) (auto simp: leaves_from_def)

lemma packs_0 [simp]: "packs 0 L = [[]]"
  by (simp add: packs_def)

lemma packs_Suc [simp]: "packs (Suc k) L = concat (map (\<lambda>x. map (Cons x) (packs k L)) L)"
  by (simp add: packs_def)

lemma assignments_Nil [simp]: "assignments [] = [[]]"
  by (simp add: assignments_def)

lemma assignments_Cons: "assignments (t # ts) =
   concat (map (\<lambda>x. map (Cons x) (assignments ts)) (packs (nat (packedn t)) (root_leaves t)))"
  by (simp add: assignments_def)

text \<open>How the visits below one constant decompose, in the three situations of the loop.\<close>

lemma conts_last:
  "treei + 1 = length trees \<Longrightarrow> packedi + 1 = packedn (trees ! treei) \<Longrightarrow>
   conts trees treei packedi pre cur v = [pre @ [cur @ [v]]]"
  by (simp add: conts_def flip: diff_diff_eq)

lemma conts_next_tree:
  assumes "treei + 1 < length trees" "packedi + 1 = packedn (trees ! treei)"
    "1 \<le> packedn (trees ! (treei + 1))"
  shows "conts trees treei packedi pre cur v =
     concat (map (conts trees (treei + 1) 0 (pre @ [cur @ [v]]) []) (root_leaves (trees ! (treei + 1))))"
proof -
  let ?t = "trees ! (treei + 1)"
  have d: "drop (Suc treei) trees = ?t # drop (Suc (Suc treei)) trees"
    using assms(1) by (simp add: Cons_nth_drop_Suc)
  obtain k where k: "nat (packedn (trees ! Suc treei)) = Suc k" "nat (packedn (trees ! Suc treei) - 1) = k"
    using assms(3) by (cases "nat (packedn ?t)") auto
  have "packedn (trees ! treei) - packedi - 1 = 0" using assms(2) by simp
  then show ?thesis
    using d k by (simp add: conts_def [abs_def] assignments_Cons map_concat comp_def concat_concat_map)
qed

lemma conts_next_packed:
  assumes "0 \<le> packedi" "packedi + 1 < packedn (trees ! treei)"
  shows "conts trees treei packedi pre cur v =
     concat (map (conts trees treei (packedi + 1) pre (cur @ [v])) (root_leaves (trees ! treei)))"
proof -
  obtain k where k: "nat (packedn (trees ! treei) - packedi - 1) = Suc k"
    "nat (packedn (trees ! treei) - (packedi + 1) - 1) = k"
    using assms by (cases "nat (packedn (trees ! treei) - packedi - 1)") auto
  show ?thesis
    unfolding conts_def [abs_def] k by (simp add: map_concat comp_def concat_concat_map)
qed

lemma push_val_snoc: "length pre = t \<Longrightarrow> push_val t v (pre @ [cur]) = pre @ [cur @ [v]]"
  by (auto simp: push_val_def)

lemma pop_val_snoc:
  "length pre = t \<Longrightarrow> length cur = nat k \<Longrightarrow> pop_val t k (pre @ [cur @ [v]]) = pre @ [cur]"
  by (auto simp: pop_val_def remove_index_def)

lemma remove_index_snoc: "length pre = t \<Longrightarrow> remove_index t (pre @ [c]) = pre"
  by (simp add: remove_index_def)

lemma leaves_from_step:
  "isleaf n \<Longrightarrow> wd_shape n \<Longrightarrow> i < wd_size n \<Longrightarrow>
     leaves_from n i = const_nodes n ! i # leaves_from n (i + 1)"
  "\<not> isleaf n \<Longrightarrow> wd_shape n \<Longrightarrow> i < wd_size n \<Longrightarrow>
     leaves_from n i = leaves (sub_nodes n ! i) @ leaves_from n (i + 1)"
  by (cases n; simp add: leaves_from_def Cons_nth_drop_Suc [symmetric])+

lemma leaves_from_end: "wd_shape n \<Longrightarrow> wd_size n \<le> i \<Longrightarrow> leaves_from n i = []"
  by (cases n) (auto simp: leaves_from_def split: if_splits)

lemma preorder_loop_visits:
  assumes ok: "trav_ok trees"
  shows "tn = pre @ [cur] \<Longrightarrow> treei < length trees \<Longrightarrow> length pre = treei \<Longrightarrow> 0 \<le> packedi \<Longrightarrow>
    packedi < packedn (trees ! treei) \<Longrightarrow> length cur = nat packedi \<Longrightarrow> wd_shape n \<Longrightarrow>
    preorder_loop visit trees treei packedi n i tn s =
      bnd (foldM visit (concat (map (conts trees treei packedi pre cur) (leaves_from n i))) s)
        (\<lambda>s. Inr (pre @ [cur], s))"
  using ok
proof (induction visit trees treei packedi n i tn s arbitrary: pre cur rule: preorder_loop.induct)
  case (1 visit trees treei packedi n i tn s)
  let ?t = "trees ! treei" and ?C = "conts trees treei packedi pre cur"
  have tree: "idx trees (int treei) = Inr ?t" using 1(7) by simp
  have shape: "wd_shape m" if "t \<in> set trees" "root_node t = Some m" for t m
    using 1(13) that by (auto simp: trav_ok_def)
  show ?case
  proof (cases "wd_size n \<le> i")
    case True
    then show ?thesis using 1 by (simp add: preorder_loop.simps leaves_from_end)
  next
    case False
    show ?thesis
    proof (cases "isleaf n")
      case True
      let ?v = "const_nodes n ! i" and ?tn = "pre @ [cur @ [const_nodes n ! i]]"
      have v: "idx (const_nodes n) (int i) = Inr ?v"
        using False True 1(12) by (cases n) simp
      have push: "push_val treei ?v tn = ?tn" using 1 by (simp add: push_val_snoc)
      define R where "R =
        (if treei + 1 = length trees \<and> packedi + 1 = packedn ?t
           then bnd (visit ?tn s) (\<lambda>s. Inr (?tn, s))
           else if packedi + 1 = packedn ?t then
             (case idx trees (int treei + 1) of Inl e \<Rightarrow> Inl e | Inr next_tree \<Rightarrow>
              bnd (case root_node next_tree of None \<Rightarrow> Inr (?tn @ [[]], s)
                   | Some m \<Rightarrow> preorder_loop visit trees (treei + 1) 0 m 0 (?tn @ [[]]) s)
                (\<lambda>(tn, s). Inr (remove_index (treei + 1) tn, s)))
           else if packedi + 1 < packedn ?t then
             (case root_node ?t of None \<Rightarrow> Inr (?tn, s)
              | Some m \<Rightarrow> preorder_loop visit trees treei (packedi + 1) m 0 ?tn s)
           else Inl Undefined)"
      have R: "R = bnd (foldM visit (?C ?v) s) (\<lambda>s. Inr (?tn, s))"
      proof -
        consider (last) "treei + 1 = length trees" "packedi + 1 = packedn ?t"
          | (nexttree) "treei + 1 < length trees" "packedi + 1 = packedn ?t"
          | (packed) "packedi + 1 < packedn ?t" using 1(7,10) by linarith
        then show ?thesis
        proof cases
          case last
          then show ?thesis by (simp add: R_def conts_last)
        next
          case nexttree
          let ?n = "trees ! (treei + 1)"
          have nx: "idx trees (int treei + 1) = Inr ?n" using nexttree by (simp add: idx_def nat_add_distrib)
          have pk: "1 \<le> packedn ?n" using 1(13) nexttree by (simp add: trav_ok_def)
          have Req: "R = bnd (case root_node ?n of None \<Rightarrow> Inr (?tn @ [[]], s)
                   | Some m \<Rightarrow> preorder_loop visit trees (treei + 1) 0 m 0 (?tn @ [[]]) s)
                (\<lambda>(tn, s). Inr (remove_index (treei + 1) tn, s))"
            using nexttree nx by (simp add: R_def)
          show ?thesis
          proof (cases "root_node ?n")
            case None
            then show ?thesis
              using Req nexttree pk 1(8) remove_index_snoc [of ?tn "treei + 1" "[]"]
              by (simp add: conts_next_tree root_leaves_def)
          next
            case (Some m)
            have m: "wd_shape m" using shape [OF _ Some] nexttree(1) by simp
            have "preorder_loop visit trees (treei + 1) 0 m 0 (?tn @ [[]]) s =
               bnd (foldM visit (concat (map (conts trees (treei + 1) 0 ?tn []) (leaves m))) s)
                 (\<lambda>s. Inr (?tn @ [[]], s))"
              using 1(1) [OF False True v tree _ _ nx Some, of ?tn "[]"] nexttree pk m 1(8,13) push
              by (simp add: leaves_from_0)
            then show ?thesis
              using Req Some nexttree pk 1(8) remove_index_snoc [of ?tn "treei + 1" "[]"]
              by (simp add: conts_next_tree root_leaves_def bnd_assoc)
          qed
        next
          case packed
          have Req: "R = (case root_node ?t of None \<Rightarrow> Inr (?tn, s)
              | Some m \<Rightarrow> preorder_loop visit trees treei (packedi + 1) m 0 ?tn s)"
            using packed by (simp add: R_def)
          show ?thesis
          proof (cases "root_node ?t")
            case None
            then show ?thesis using Req packed 1(9) by (simp add: conts_next_packed root_leaves_def)
          next
            case (Some m)
            have m: "wd_shape m" using shape [OF _ Some] 1(7) by simp
            have "preorder_loop visit trees treei (packedi + 1) m 0 ?tn s =
               bnd (foldM visit (concat (map (conts trees treei (packedi + 1) pre (cur @ [?v])) (leaves m))) s)
                 (\<lambda>s. Inr (?tn, s))"
              using 1(2) [OF False True v tree _ _ packed Some, of pre "cur @ [?v]"] packed m 1(7-11,13) push
              by (simp add: leaves_from_0 nat_add_distrib)
            then show ?thesis using Req Some packed 1(9) by (simp add: conts_next_packed root_leaves_def)
          qed
        qed
      qed
      have pop: "pop_val treei packedi ?tn = pre @ [cur]" using 1(8,11) by (simp add: pop_val_snoc)
      have "preorder_loop visit trees treei packedi n i tn s =
          bnd R (\<lambda>(tn, s). preorder_loop visit trees treei packedi n (i + 1) (pop_val treei packedi tn) s)"
        unfolding preorder_loop.simps [of visit trees treei packedi n i tn s] R_def push [symmetric]
        using False True v tree by simp
      also have "\<dots> = bnd (foldM visit (?C ?v) s)
          (\<lambda>s. preorder_loop visit trees treei packedi n (i + 1) (pre @ [cur]) s)"
        by (simp add: R bnd_assoc pop)
      also have "\<dots> = bnd (foldM visit (?C ?v) s) (\<lambda>s.
          bnd (foldM visit (concat (map ?C (leaves_from n (i + 1)))) s) (\<lambda>s. Inr (pre @ [cur], s)))"
        using 1(3) [OF False True v tree refl, where pre = pre and cur = cur] pop 1(7-13) by simp
      also have "\<dots> = bnd (foldM visit (concat (map ?C (leaves_from n i))) s) (\<lambda>s. Inr (pre @ [cur], s))"
        using leaves_from_step(1) [OF True 1(12), of i] False by (simp add: foldM_append bnd_assoc)
      finally show ?thesis .
    next
      case inner: False
      let ?s = "sub_nodes n ! i"
      have v: "idx (sub_nodes n) (int i) = Inr ?s"
        using False inner 1(12) by (cases n) simp
      have sh: "wd_shape ?s"
        using False inner 1(12) by (cases n) (simp add: list_all_length)
      have "preorder_loop visit trees treei packedi n i tn s =
          bnd (preorder_loop visit trees treei packedi ?s 0 tn s) (\<lambda>(tn, s).
            preorder_loop visit trees treei packedi n (i + 1) tn s)"
        using False inner v by (subst preorder_loop.simps) simp
      also have "\<dots> = bnd (foldM visit (concat (map ?C (leaves ?s))) s) (\<lambda>s.
            preorder_loop visit trees treei packedi n (i + 1) (pre @ [cur]) s)"
        using 1(4) [OF False inner v, of pre cur] 1(6-13) sh by (simp add: leaves_from_0 bnd_assoc)
      also have "\<dots> = bnd (foldM visit (concat (map ?C (leaves ?s))) s) (\<lambda>s.
          bnd (foldM visit (concat (map ?C (leaves_from n (i + 1)))) s) (\<lambda>s. Inr (pre @ [cur], s)))"
        using 1(5) [OF False inner v refl, where pre = pre and cur = cur] 1(7-13) by simp
      also have "\<dots> = bnd (foldM visit (concat (map ?C (leaves_from n i))) s) (\<lambda>s. Inr (pre @ [cur], s))"
        using leaves_from_step(2) [OF inner 1(12), of i] False by (simp add: foldM_append bnd_assoc)
      finally show ?thesis .
    qed
  qed
qed

lemma conts_all:
  assumes "trav_ok (t # ts)"
  shows "concat (map (conts (t # ts) 0 0 [] []) (root_leaves t)) = assignments (t # ts)"
proof -
  have "1 \<le> packedn t" using assms by (simp add: trav_ok_def)
  then obtain k where "nat (packedn t) = Suc k" "nat (packedn t - 1) = k"
    by (cases "nat (packedn t)") auto
  then show ?thesis
    by (simp add: conts_def [abs_def] assignments_Cons map_concat comp_def concat_concat_map)
qed

lemma traverse_block_visits:
  assumes ok: "trav_ok trees" and ne: "trees \<noteq> []"
  shows "traverse_block body trees s =
     foldM (got_complete body) (assignments trees)
       (s\<lparr>trv_step := choose_step (possible_trv_num trees 1), trv_index := 0\<rparr>)"
proof -
  obtain t ts where tr: "trees = t # ts" using ne by (cases trees) auto
  let ?s = "s\<lparr>trv_step := choose_step (possible_trv_num trees 1), trv_index := 0\<rparr>"
  have pk: "1 \<le> packedn t" using ok tr by (simp add: trav_ok_def)
  have "preorder_traverse_tk_trees (got_complete body) trees (root_node t) 0 0 [[]] ?s =
      bnd (foldM (got_complete body) (assignments trees) ?s) (\<lambda>s. Inr ([[]], s))"
  proof (cases "root_node t")
    case None
    have "assignments trees = []"
      using conts_all [of t ts] ok None tr by (simp add: root_leaves_def)
    then show ?thesis using None by (simp add: preorder_traverse_tk_trees_def)
  next
    case (Some n)
    have n: "wd_shape n" using ok tr Some by (simp add: trav_ok_def)
    then show ?thesis
      using preorder_loop_visits [OF ok, of "[[]]" "[]" "[]" 0 0 n "got_complete body" 0 ?s]
        conts_all [of t ts] ok Some tr pk
      by (simp add: preorder_traverse_tk_trees_def leaves_from_0 root_leaves_def)
  qed
  then show ?thesis by (simp add: traverse_block_def tr bnd_assoc Let_def)
qed

subsection \<open>Counting and sampling\<close>

lemma leaf_num_leaves: "wd_shape n \<Longrightarrow> get_tk_tree_leaf_num_node n = length (leaves n)"
proof (induction n)
  case (WdNode lf k ws subs cs)
  then have "map get_tk_tree_leaf_num_node subs = map (length \<circ> leaves) subs" if "\<not> lf"
    using that by (auto simp: list_all_iff)
  then show ?case using WdNode.prems by (auto simp: length_concat map_map [symmetric] simp del: map_map)
qed

lemma length_packs: "length (packs k L) = length L ^ k"
  by (induction k) (simp_all add: length_concat comp_def sum_list_triv)

lemma length_assignments:
  "length (assignments trees) = prod_list (map (\<lambda>t. length (root_leaves t) ^ nat (packedn t)) trees)"
  by (induction trees) (simp_all add: assignments_Cons length_concat comp_def sum_list_triv length_packs)

lemma wrap64_id: "0 \<le> x \<Longrightarrow> x < 2 ^ 63 \<Longrightarrow> wrap64 x = x"
  by (simp add: wrap64_def signed_take_bit_int_eq_self)

lemma wrap32_id: "0 \<le> x \<Longrightarrow> x < 2 ^ 31 \<Longrightarrow> wrap32 x = x"
  by (simp add: wrap32_def signed_take_bit_int_eq_self)

lemma times_leaf_num_eq:
  "0 \<le> acc \<Longrightarrow> acc * int k ^ j < 2 ^ 63 \<Longrightarrow> 0 < k \<Longrightarrow> times_leaf_num j (int k) acc = acc * int k ^ j"
proof (induction j arbitrary: acc)
  case (Suc j)
  have "acc * int k * 1 \<le> acc * int k * int k ^ j"
    using Suc.prems by (intro mult_left_mono) auto
  then have "acc * int k < 2 ^ 63" using Suc.prems by (simp add: mult.assoc)
  then have w: "wrap64 (acc * int k) = acc * int k" using Suc.prems by (intro wrap64_id) auto
  show ?case using Suc.IH [of "acc * int k"] Suc.prems w by (simp add: mult.assoc)
qed simp

lemma possible_trv_num_aux:
  assumes "\<forall>t \<in> set trees. \<forall>n. root_node t = Some n \<longrightarrow> wd_shape n"
    and "\<forall>t \<in> set trees. root_leaves t \<noteq> []" and "0 \<le> acc"
    and "acc * int (length (assignments trees)) < 2 ^ 63"
  shows "possible_trv_num trees acc = acc * int (length (assignments trees))"
  using assms
proof (induction trees arbitrary: acc)
  case (Cons t ts)
  let ?k = "length (root_leaves t)" and ?j = "nat (packedn t)"
  have k: "get_tk_tree_leaf_num (root_node t) = ?k" "0 < ?k"
    using Cons.prems(1,2) by (auto simp: get_tk_tree_leaf_num_def root_leaves_def leaf_num_leaves split: option.splits)
  have len: "length (assignments (t # ts)) = ?k ^ ?j * length (assignments ts)"
    by (simp add: length_assignments)
  have pos: "0 < length (assignments ts)"
    using Cons.prems(2) unfolding length_assignments by (induction ts) auto
  have "acc * int ?k ^ ?j * 1 \<le> acc * int ?k ^ ?j * int (length (assignments ts))"
    using pos Cons.prems(3) by (intro mult_left_mono) (auto simp: Suc_le_eq)
  then have "acc * int ?k ^ ?j < 2 ^ 63" using Cons.prems(4) len by (simp add: mult.assoc)
  then have "times_leaf_num ?j (int ?k) acc = acc * int ?k ^ ?j"
    using Cons.prems(3) k by (intro times_leaf_num_eq) auto
  then show ?case
    using Cons.IH [of "acc * int ?k ^ ?j"] Cons.prems k len by (simp add: mult.assoc)
qed simp

lemma possible_trv_num_counts:
  assumes "trav_ok trees" "\<forall>t \<in> set trees. root_leaves t \<noteq> []"
    and "int (length (assignments trees)) < 2 ^ 63"
  shows "possible_trv_num trees 1 = int (length (assignments trees))"
  using possible_trv_num_aux [of trees 1] assms by (simp add: trav_ok_def)

lemma choose_step_pos:
  assumes "0 \<le> possible" "possible < 8192 * (2 ^ 31 - 1)"
  shows "0 < choose_step possible" and "choose_step possible \<le> max 1 (possible div 8192 + 1)"
proof -
  have d: "c_div possible EXPECTED_TRV_NUM = possible div 8192"
    using assms(1) by (cases "possible = 0") (auto simp: c_div_def EXPECTED_TRV_NUM_def)
  have "possible div 8192 < 2 ^ 31 - 1" using assms(2) by simp
  moreover have nn: "0 \<le> possible div 8192" using assms(1) by simp
  ultimately have w: "wrap32 (possible div 8192 + 1) = possible div 8192 + 1"
    by (intro wrap32_id) auto
  have g: "1 < greatest_prime (possible div 8192 + 1) \<and>
        greatest_prime (possible div 8192 + 1) \<le> possible div 8192 + 1" if "0 < possible div 8192"
    using greatest_prime_spec [of "possible div 8192 + 1"] that by auto
  show "0 < choose_step possible" "choose_step possible \<le> max 1 (possible div 8192 + 1)"
    using d w g nn by (auto simp: choose_step_def)
qed

text \<open>
  For a body that neither reads nor writes the counters the traversal is a fold of the body over
  every k-th assignment.
\<close>

definition counter_free ::
  "(vals \<Rightarrow> 'a trv_globals_scheme \<Rightarrow> 'a trv_globals_scheme res) \<Rightarrow> bool" where
  "counter_free body \<longleftrightarrow> (\<forall>tn s. \<forall>j. body tn (s\<lparr>trv_index := j\<rparr>) =
       bnd (body tn s) (\<lambda>s'. Inr (s'\<lparr>trv_index := j\<rparr>))) \<and>
     (\<forall>tn s s'. body tn s = Inr s' \<longrightarrow> trv_step s' = trv_step s)"

fun sample :: "int \<Rightarrow> int \<Rightarrow> 'b list \<Rightarrow> 'b list" where
  "sample k i [] = []"
| "sample k i (x # xs) = (if k dvd i then x # sample k (i + 1) xs else sample k (i + 1) xs)"

lemma foldM_counter_free:
  "counter_free body \<Longrightarrow>
   foldM body xs (s\<lparr>trv_index := j\<rparr>) = bnd (foldM body xs s) (\<lambda>s'. Inr (s'\<lparr>trv_index := j\<rparr>))"
proof (induction xs arbitrary: s)
  case (Cons x xs)
  then show ?case by (cases "body x s") (auto simp: counter_free_def)
qed simp

lemma foldM_got_complete:
  assumes "counter_free body"
  shows "0 \<le> i \<Longrightarrow> i + int (length xs) < 2 ^ 31 \<Longrightarrow> 0 < k \<Longrightarrow> trv_step s = k \<Longrightarrow> trv_index s = i \<Longrightarrow>
    foldM (got_complete body) xs s =
      bnd (foldM body (sample k i xs) s) (\<lambda>s'. Inr (s'\<lparr>trv_index := i + int (length xs)\<rparr>))"
proof (induction xs arbitrary: i s)
  case Nil
  then show ?case by simp
next
  case (Cons x xs)
  let ?s = "s\<lparr>trv_index := i + 1\<rparr>"
  have w: "wrap32 (i + 1) = i + 1" using Cons.prems by (intro wrap32_id) auto
  have cf: "body x ?s = bnd (body x s) (\<lambda>s'. Inr (s'\<lparr>trv_index := i + 1\<rparr>))"
    "\<And>s'. body x s = Inr s' \<Longrightarrow> trv_step s' = trv_step s"
    using assms by (auto simp: counter_free_def)
  show ?case
  proof (cases "k dvd i")
    case True
    have step: "got_complete body x s = body x ?s"
      using True Cons.prems w by (simp add: got_complete_def Let_def)
    show ?thesis
    proof (cases "body x s")
      case (Inl e)
      then show ?thesis using step cf(1) True by simp
    next
      case (Inr s')
      then have "foldM (got_complete body) xs (s'\<lparr>trv_index := i + 1\<rparr>) =
         bnd (foldM body (sample k (i + 1) xs) (s'\<lparr>trv_index := i + 1\<rparr>))
           (\<lambda>s'. Inr (s'\<lparr>trv_index := i + 1 + int (length xs)\<rparr>))"
        using Cons.prems cf(2) [OF Inr] by (intro Cons.IH) auto
      then show ?thesis using step cf(1) True Inr foldM_counter_free [OF assms]
        by (simp add: bnd_assoc add.assoc)
    qed
  next
    case False
    have "got_complete body x s = Inr ?s"
      using False Cons.prems w by (simp add: got_complete_def Let_def)
    moreover have "foldM (got_complete body) xs ?s =
         bnd (foldM body (sample k (i + 1) xs) ?s) (\<lambda>s'. Inr (s'\<lparr>trv_index := i + 1 + int (length xs)\<rparr>))"
      using Cons.prems by (intro Cons.IH) auto
    ultimately show ?thesis using False foldM_counter_free [OF assms]
      by (simp add: bnd_assoc add.assoc)
  qed
qed

subsection \<open>Properties\<close>

text \<open>
  C16: The nested recursion of \<open>preorder_traverse_tk_trees\<close> reaches a complete assignment once for
  every combination of leaves, as many per operand as it packs, in lexicographic order: the
  traversal is the loop over the list of all combinations, with no array access out of
  bounds and the arrays of chosen constants as each combination says.
\<close>

theorem traversal_visits_all_assignments:
  assumes "trav_ok trees" and "trees \<noteq> []"
  shows "traverse_block body trees s =
     foldM (got_complete body) (assignments trees)
       (s\<lparr>trv_step := choose_step (possible_trv_num trees 1), trv_index := 0\<rparr>)"
  by (rule traverse_block_visits [OF assms])

definition two_leaf_root :: wd_root where
  "two_leaf_root = (let c = \<lparr>cn_type = CONST_IMM8, cn_union = 0, asm_op = '''', float32 = 0,
     float64 = 0, float80_low = 0, float80_high = 0, x87env = []\<rparr> in
     \<lparr>packedn = 1, root_node = Some (WdNode True 2 [] [] [c, c\<lparr>cn_union := 1\<rparr>])\<rparr>)"

lemma two_leaf_root_ok: "trav_ok [two_leaf_root, two_leaf_root]"
  "\<forall>t \<in> set [two_leaf_root, two_leaf_root]. root_leaves t \<noteq> []"
  "length (assignments [two_leaf_root, two_leaf_root]) = 4"
  by (simp_all add: two_leaf_root_def trav_ok_def root_leaves_def length_assignments Let_def)

theorem traversal_visits_all_assignments_witness:
  "traverse_block (\<lambda>tn s. Inr s) [two_leaf_root, two_leaf_root] \<lparr>trv_step = 0, trv_index = 0\<rparr> =
     foldM (got_complete (\<lambda>tn s. Inr s)) (assignments [two_leaf_root, two_leaf_root])
       \<lparr>trv_step = choose_step (possible_trv_num [two_leaf_root, two_leaf_root] 1), trv_index = 0\<rparr> \<and>
   length (assignments [two_leaf_root, two_leaf_root]) = 4"
  using traversal_visits_all_assignments [OF two_leaf_root_ok(1), of "\<lambda>tn s. Inr s"
      "\<lparr>trv_step = 0, trv_index = 0\<rparr>"] two_leaf_root_ok(3) by simp



text \<open>
  C27: \<open>is_prime\<close>, which tries only odd divisors up to the integer square root, decides primality
  for every number above 1, and \<open>greatest_prime\<close> returns the largest prime not above its
  argument.
\<close>

theorem primes_correct:
  assumes "1 < n"
  shows "is_prime n = no_divisor n \<and> 1 < greatest_prime n \<and> greatest_prime n \<le> n \<and>
    no_divisor (greatest_prime n) \<and> (\<forall>q. greatest_prime n < q \<and> q \<le> n \<longrightarrow> \<not> no_divisor q)"
  using is_prime_iff [OF assms] greatest_prime_spec [OF assms] by simp

theorem primes_correct_witness: "is_prime 91 = no_divisor 91 \<and> no_divisor (greatest_prime 91)"
  using primes_correct [of 91] by simp

text \<open>
  C28: For a body that leaves the traversal's counters alone, a traversal of fewer than 2 ^ 31
  combinations runs the body on every k-th combination, starting with the first, where k is the
  step; no other combination is generated and the order is kept.
\<close>

theorem traversal_samples:
  assumes "trav_ok trees" "trees \<noteq> []" "\<forall>t \<in> set trees. root_leaves t \<noteq> []"
    and "length (assignments trees) < 2 ^ 31" and "counter_free body"
  shows "\<exists>k. 0 < k \<and> k \<le> int (length (assignments trees)) div 8192 + 1 \<and>
    traverse_block body trees s =
      bnd (foldM body (sample k 0 (assignments trees)) (s\<lparr>trv_step := k, trv_index := 0\<rparr>))
        (\<lambda>s'. Inr (s'\<lparr>trv_index := int (length (assignments trees))\<rparr>))"
proof -
  let ?n = "length (assignments trees)" and ?k = "choose_step (possible_trv_num trees 1)"
  have n: "int ?n < 2 ^ 31" using assms(4) by (metis of_nat_less_numeral_power_cancel_iff)
  have p: "possible_trv_num trees 1 = int ?n"
    using assms(1,3) n by (intro possible_trv_num_counts) auto
  have k: "0 < ?k" "?k \<le> int ?n div 8192 + 1"
    using choose_step_pos [of "int ?n"] n p by (auto simp: max_def split: if_splits)
  have "traverse_block body trees s =
      foldM (got_complete body) (assignments trees) (s\<lparr>trv_step := ?k, trv_index := 0\<rparr>)"
    by (rule traverse_block_visits [OF assms(1,2)])
  also have "\<dots> = bnd (foldM body (sample ?k 0 (assignments trees)) (s\<lparr>trv_step := ?k, trv_index := 0\<rparr>))
        (\<lambda>s'. Inr (s'\<lparr>trv_index := int ?n\<rparr>))"
    using foldM_got_complete [OF assms(5), of 0 "assignments trees" ?k] n k(1) by simp
  finally show ?thesis using k by blast
qed

theorem traversal_samples_witness:
  "\<exists>k. 0 < k \<and> k \<le> 1 \<and>
    traverse_block (\<lambda>tn s. Inr s) [two_leaf_root, two_leaf_root] \<lparr>trv_step = 0, trv_index = 0\<rparr> =
      bnd (foldM (\<lambda>tn s. Inr s) (sample k 0 (assignments [two_leaf_root, two_leaf_root]))
         \<lparr>trv_step = k, trv_index = 0\<rparr>) (\<lambda>s'. Inr (s'\<lparr>trv_index := 4\<rparr>))"
  using traversal_samples [OF two_leaf_root_ok(1) _ two_leaf_root_ok(2), of "\<lambda>tn s. Inr s"
      "\<lparr>trv_step = 0, trv_index = 0\<rparr>"] two_leaf_root_ok(3) by (simp add: counter_free_def)

end
