(* ===== verification/Strings.thy ===== *)
theory Strings
  imports Prelude
begin

text \<open>
  Characters and strings: \<open>nasmlib/nctype.c\<close>, \<open>include/nctype.h\<close>, the parts of
  \<open>nasmlib/string.c\<close> the program calls, and \<open>readnum\<close> of \<open>nasmlib/readnum.c\<close>.  A C string is
  the list of its characters up to the terminator; a pointer into it is the rest of the list.
\<close>

subsection \<open>Character classes\<close>

datatype nctype = NCT_CTRL | NCT_SPACE | NCT_ASCII | NCT_LOWER | NCT_UPPER | NCT_DIGIT |
  NCT_HEX | NCT_ID | NCT_IDSTART | NCT_MINUS | NCT_DOLLAR | NCT_UNDER | NCT_QUOTE

text \<open>The functions of \<open>ctype.h\<close> in the C locale, and what \<open>ctype_tab_init\<close> makes of them.\<close>

abbreviation code :: "char \<Rightarrow> nat" where "code c \<equiv> of_char c"

definition is_alpha :: "char \<Rightarrow> bool" where
  "is_alpha c \<longleftrightarrow> 65 \<le> code c \<and> code c \<le> 90 \<or> 97 \<le> code c \<and> code c \<le> 122"

definition is_space :: "char \<Rightarrow> bool" where
  "is_space c \<longleftrightarrow> code c = 32 \<or> 9 \<le> code c \<and> code c \<le> 13"

definition is_xdigit :: "char \<Rightarrow> bool" where
  "is_xdigit c \<longleftrightarrow> is_dec c \<or> 65 \<le> code c \<and> code c \<le> 70 \<or> 97 \<le> code c \<and> code c \<le> 102"

definition is_cntrl :: "char \<Rightarrow> bool" where
  "is_cntrl c \<longleftrightarrow> code c < 32 \<or> code c = 127"

definition is_punct :: "char \<Rightarrow> bool" where
  "is_punct c \<longleftrightarrow> 33 \<le> code c \<and> code c \<le> 126 \<and> \<not> is_alpha c \<and> \<not> is_dec c"

definition nasm_tolower :: "char \<Rightarrow> char" where
  "nasm_tolower c = (if 65 \<le> code c \<and> code c \<le> 90 then char_of (code c + 32) else c)"

definition ctype_tab_init :: "char \<Rightarrow> nctype list" where
  "ctype_tab_init c =
     (let ct = (if is_cntrl c then [NCT_CTRL] else [])
             @ (if code c < 128 then [NCT_ASCII] else [])
             @ (if is_space c \<and> code c \<noteq> 10 then [NCT_SPACE] else [])
             @ (if is_alpha c then [if nasm_tolower c = c then NCT_LOWER else NCT_UPPER, NCT_ID, NCT_IDSTART] else [])
             @ (if is_dec c then [NCT_DIGIT, NCT_ID] else [])
             @ (if is_xdigit c then [NCT_HEX] else [])
      in ct @ (if ct = [] \<and> \<not> is_punct c then [NCT_ID, NCT_IDSTART] else [])
            @ (if c = CHR ''-'' then [NCT_MINUS] else [])
            @ (if c = CHR ''$'' then [NCT_DOLLAR, NCT_ID] else [])
            @ (if c = CHR ''_'' then [NCT_UNDER, NCT_ID, NCT_IDSTART] else [])
            @ (if c \<in> {CHR ''.'', CHR ''@'', CHR ''?''} then [NCT_ID, NCT_IDSTART] else [])
            @ (if c \<in> {CHR ''#'', CHR ''~''} then [NCT_ID] else [])
            @ (if code c \<in> {34, 39, 96} then [NCT_QUOTE] else []))"

definition nasm_ctype :: "char \<Rightarrow> nctype list \<Rightarrow> bool" where
  "nasm_ctype c m = (\<exists>t \<in> set (ctype_tab_init c). t \<in> set m)"

definition nasm_isspace :: "char \<Rightarrow> bool" where
  "nasm_isspace c = nasm_ctype c [NCT_SPACE]"

definition nasm_isidstart :: "char \<Rightarrow> bool" where
  "nasm_isidstart c = nasm_ctype c [NCT_IDSTART]"

definition nasm_isidchar :: "char \<Rightarrow> bool" where
  "nasm_isidchar c = nasm_ctype c [NCT_ID]"

definition nasm_isalnum :: "char \<Rightarrow> bool" where
  "nasm_isalnum c = nasm_ctype c [NCT_LOWER, NCT_UPPER, NCT_DIGIT]"

definition nasm_isnumstart :: "char \<Rightarrow> bool" where
  "nasm_isnumstart c = nasm_ctype c [NCT_DIGIT, NCT_DOLLAR]"

definition nasm_isnumchar :: "char \<Rightarrow> bool" where
  "nasm_isnumchar c = nasm_ctype c [NCT_DIGIT, NCT_LOWER, NCT_UPPER, NCT_UNDER]"

text \<open>Which characters are in a class, one class at a time.\<close>

lemma in_ifD: "t \<in> set (if b then xs else []) \<longleftrightarrow> b \<and> t \<in> set xs"
  by simp

lemma ctype_space: "NCT_SPACE \<in> set (ctype_tab_init c) \<longleftrightarrow> is_space c \<and> code c \<noteq> 10"
  and ctype_digit: "NCT_DIGIT \<in> set (ctype_tab_init c) \<longleftrightarrow> is_dec c"
  and ctype_hex: "NCT_HEX \<in> set (ctype_tab_init c) \<longleftrightarrow> is_xdigit c"
  and ctype_lower: "NCT_LOWER \<in> set (ctype_tab_init c) \<longleftrightarrow> is_alpha c \<and> nasm_tolower c = c"
  and ctype_upper: "NCT_UPPER \<in> set (ctype_tab_init c) \<longleftrightarrow> is_alpha c \<and> nasm_tolower c \<noteq> c"
  and ctype_minus: "NCT_MINUS \<in> set (ctype_tab_init c) \<longleftrightarrow> c = CHR ''-''"
  and ctype_dollar: "NCT_DOLLAR \<in> set (ctype_tab_init c) \<longleftrightarrow> c = CHR ''$''"
  and ctype_under: "NCT_UNDER \<in> set (ctype_tab_init c) \<longleftrightarrow> c = CHR ''_''"
  by (simp_all only: ctype_tab_init_def Let_def set_append Un_iff in_ifD list.set insert_iff empty_iff
      nctype.distinct simp_thms if_bool_eq_disj list.distinct) (auto split: if_splits)

lemma nasm_ctype_Cons: "nasm_ctype c (t # ts) \<longleftrightarrow> t \<in> set (ctype_tab_init c) \<or> nasm_ctype c ts"
  and nasm_ctype_Nil: "\<not> nasm_ctype c []"
  by (auto simp: nasm_ctype_def)

lemmas nasm_ctype_simps = nasm_ctype_Cons nasm_ctype_Nil ctype_space ctype_digit ctype_hex
  ctype_lower ctype_upper ctype_minus ctype_dollar ctype_under

text \<open>The classes in terms of character codes; a newline is no space for the tokenizer.\<close>

lemma nasm_isspace_iff: "nasm_isspace c \<longleftrightarrow> code c \<in> {9, 11, 12, 13, 32}"
  by (simp add: nasm_isspace_def nasm_ctype_simps is_space_def) arith

lemma nasm_isalnum_iff: "nasm_isalnum c \<longleftrightarrow> is_alpha c \<or> is_dec c"
  by (auto simp: nasm_isalnum_def nasm_ctype_simps)

lemma nasm_isnumstart_iff: "nasm_isnumstart c \<longleftrightarrow> is_dec c \<or> c = CHR ''$''"
  by (simp add: nasm_isnumstart_def nasm_ctype_simps)

lemma nasm_isnumchar_iff: "nasm_isnumchar c \<longleftrightarrow> is_alpha c \<or> is_dec c \<or> c = CHR ''_''"
  by (auto simp: nasm_isnumchar_def nasm_ctype_simps)

subsection \<open>Numbers in text\<close>

text \<open>
  \<open>readnum\<close>: the value, the 64-bit overflow warning, or no number (the code's \<open>*error\<close>).  The
  digits are read at 64 bits, wrapping around.
\<close>

definition lib_isnumchar :: "char \<Rightarrow> bool" where
  "lib_isnumchar c \<longleftrightarrow> nasm_isalnum c \<or> c = CHR ''$'' \<or> c = CHR ''_''"

definition radix_letter :: "char \<Rightarrow> nat" where
  "radix_letter c =
     (if c \<in> {CHR ''b'', CHR ''B'', CHR ''y'', CHR ''Y''} then 2
      else if c \<in> {CHR ''o'', CHR ''O'', CHR ''q'', CHR ''Q''} then 8
      else if c \<in> {CHR ''h'', CHR ''H'', CHR ''x'', CHR ''X''} then 16
      else if c \<in> {CHR ''d'', CHR ''D'', CHR ''t'', CHR ''T''} then 10
      else 0)"

definition numvalue :: "char \<Rightarrow> nat" where
  "numvalue c = (let d = or (code c) 32 in if 97 \<le> d then d - 97 + 10 else d - 48)"

fun readnum_digits :: "nat \<Rightarrow> string \<Rightarrow> 64 word \<Rightarrow> bool \<Rightarrow> (64 word \<times> bool) option" where
  "readnum_digits radix [] result warn = Some (result, warn)"
| "readnum_digits radix (c # r) result warn =
     (if c = CHR ''_'' then readnum_digits radix r result warn
      else if code c < 48 \<or> 57 < code c \<and> code c < 65 \<or> radix \<le> numvalue c then None
      else let checklimit = 0x8000000000000000 div word_of_nat (radix div 2);
               last_digit = (if radix = 10 then 6 else 0);
               warn' = (warn \<or> checklimit < result \<or> result = checklimit \<and> last_digit \<le> numvalue c)
           in readnum_digits radix r (word_of_nat radix * result + word_of_nat (numvalue c)) warn')"

definition readnum_radix :: "string \<Rightarrow> nat \<times> string" where
  "readnum_radix r =
     (let len = length r;
          (pradix, plen) =
            (if len > 2 \<and> r ! 0 = CHR ''0'' \<and> radix_letter (r ! 1) \<noteq> 0 then (radix_letter (r ! 1), 2)
             else if len > 1 \<and> r ! 0 = CHR ''$'' then (16, 1) else (0, 0));
          sradix = (if len > 1 then radix_letter (last r) else 0)
      in if sradix < pradix then (pradix, drop plen r)
         else if pradix < sradix then (sradix, butlast r)
         else (10, r))"

definition readnum :: "string \<Rightarrow> (64 word \<times> bool) option" where
  "readnum str =
     (let r = dropWhile nasm_isspace str;
          (sign, r) = (case r of c # r' \<Rightarrow> if c = CHR ''-'' then (-1, r') else (1, r) | [] \<Rightarrow> (1, r));
          num = takeWhile lib_isnumchar r
      in if num = [] then None
         else let (radix, digits) = readnum_radix num
              in map_option (\<lambda>(result, warn). (result * sign, warn)) (readnum_digits radix digits 0 False))"

text \<open>The number a digit string denotes, with no bound.\<close>

definition digits_value :: "nat \<Rightarrow> string \<Rightarrow> nat \<Rightarrow> nat" where
  "digits_value radix r a = foldl (\<lambda>a c. if c = CHR ''_'' then a else radix * a + numvalue c) a r"

definition valid_digit :: "nat \<Rightarrow> char \<Rightarrow> bool" where
  "valid_digit radix c \<longleftrightarrow> c = CHR ''_'' \<or> (48 \<le> code c \<and> code c \<le> 57 \<or> 65 \<le> code c) \<and> numvalue c < radix"

lemma digits_value_simps [simp]:
  "digits_value radix [] a = a"
  "digits_value radix (c # r) a =
     digits_value radix r (if c = CHR ''_'' then a else radix * a + numvalue c)"
  by (simp_all add: digits_value_def)

lemma digits_value_ge: "1 \<le> radix \<Longrightarrow> a \<le> digits_value radix r a"
proof (induction r arbitrary: a)
  case (Cons c r)
  show ?case
  proof (cases "c = CHR ''_''")
    case True
    with Cons show ?thesis by simp
  next
    case False
    have "a \<le> radix * a + numvalue c" using Cons.prems by (cases radix) auto
    also have "\<dots> \<le> digits_value radix (c # r) a" using Cons False by simp
    finally show ?thesis .
  qed
qed simp

text \<open>
  The overflow test of the code divides \<open>2^63\<close> by half the radix; for the four radices of the
  code it decides whether the next value exceeds 64 bits.
\<close>

lemma checklimit_exact:
  assumes "radix \<in> {2, 8, 10, 16}" "a < 2 ^ 64" "d < radix"
  shows "(word_of_nat a :: 64 word) > 0x8000000000000000 div word_of_nat (radix div 2)
      \<or> (word_of_nat a :: 64 word) = 0x8000000000000000 div word_of_nat (radix div 2)
          \<and> (if radix = 10 then 6 else 0) \<le> d
    \<longleftrightarrow> 2 ^ 64 \<le> radix * a + d"
proof -
  have u: "unat (word_of_nat a :: 64 word) = a"
    using assms(2) by (simp add: unat_of_nat take_bit_eq_mod)
  have l: "unat (0x8000000000000000 div word_of_nat (radix div 2) :: 64 word) = 2 ^ 63 div (radix div 2)"
    using assms(1) by (auto simp: unat_div)
  show ?thesis
    unfolding word_less_nat_alt word_unat_eq_iff u l using assms by auto
qed

lemma readnum_digits_value:
  assumes "radix \<in> {2, 8, 10, 16}" "\<forall>c \<in> set r. valid_digit radix c"
  shows "readnum_digits radix r (word_of_nat a) (2 ^ 64 \<le> a) =
         Some (word_of_nat (digits_value radix r a), 2 ^ 64 \<le> digits_value radix r a)"
  using assms(2)
proof (induction r arbitrary: a)
  case (Cons c r)
  show ?case
  proof (cases "c = CHR ''_''")
    case True
    with Cons show ?thesis by simp
  next
    case False
    let ?b = "radix * a + numvalue c"
    have v: "48 \<le> code c \<and> code c \<le> 57 \<or> 65 \<le> code c" and d: "numvalue c < radix"
      using Cons.prems False unfolding valid_digit_def by simp_all
    from v d have c: "\<not> (code c < 48 \<or> 57 < code c \<and> code c < 65 \<or> radix \<le> numvalue c)"
      by linarith
    have "a \<le> radix * a" using assms(1) by auto
    then have w: "(2 ^ 64 \<le> a
        \<or> (word_of_nat a :: 64 word) > 0x8000000000000000 div word_of_nat (radix div 2)
        \<or> (word_of_nat a :: 64 word) = 0x8000000000000000 div word_of_nat (radix div 2)
          \<and> (if radix = 10 then 6 else 0) \<le> numvalue c) \<longleftrightarrow> 2 ^ 64 \<le> ?b"
    proof (cases "2 ^ 64 \<le> a")
      case True
      then have "2 ^ 64 \<le> ?b" using \<open>a \<le> radix * a\<close> by linarith
      with True show ?thesis by blast
    next
      case False
      then have "a < 2 ^ 64" by simp
      from checklimit_exact [OF assms(1) this d] False show ?thesis by blast
    qed
    have b: "word_of_nat radix * word_of_nat a + word_of_nat (numvalue c) = (word_of_nat ?b :: 64 word)" by simp
    have "readnum_digits radix (c # r) (word_of_nat a) (2 ^ 64 \<le> a) =
          readnum_digits radix r (word_of_nat ?b) (2 ^ 64 \<le> ?b)"
      unfolding readnum_digits.simps Let_def w b using False c by (simp only: if_False)
    also have "\<dots> = Some (word_of_nat (digits_value radix r ?b), 2 ^ 64 \<le> digits_value radix r ?b)"
      using Cons.prems by (intro Cons.IH) simp
    finally show ?thesis using False by simp
  qed
qed simp

lemma readnum_digits_bad:
  "\<not> valid_digit radix c \<Longrightarrow> c \<in> set r \<Longrightarrow> readnum_digits radix r a w = None"
proof (induction r arbitrary: a w)
  case (Cons x r)
  show ?case
  proof (cases "x = c")
    case True
    then show ?thesis using Cons.prems by (auto simp: valid_digit_def)
  next
    case False
    with Cons show ?thesis by (simp add: Let_def)
  qed
qed simp

text \<open>The digits \<open>printf\<close> prints are digits \<open>readnum\<close> reads.\<close>

lemma less_16_cases: "(d::nat) < 16 \<Longrightarrow>
  d = 0 \<or> d = 1 \<or> d = 2 \<or> d = 3 \<or> d = 4 \<or> d = 5 \<or> d = 6 \<or> d = 7 \<or> d = 8 \<or> d = 9 \<or>
  d = 10 \<or> d = 11 \<or> d = 12 \<or> d = 13 \<or> d = 14 \<or> d = 15"
  by arith

lemma code_digit_char: "d < 16 \<Longrightarrow> code (digit_char d) = (if d < 10 then 48 + d else 87 + d)"
  by (simp add: digit_char_def of_char_of)

lemma numvalue_digit_char: "d < 16 \<Longrightarrow> numvalue (digit_char d) = d"
  unfolding numvalue_def code_digit_char by (drule less_16_cases, elim disjE) simp_all

lemma digit_char_no_underscore: "d < 16 \<Longrightarrow> digit_char d \<noteq> CHR ''_''"
  using code_digit_char [of d] by (auto split: if_splits)

lemma valid_digit_char: "d < radix \<Longrightarrow> radix \<le> 16 \<Longrightarrow> valid_digit radix (digit_char d)"
  by (simp add: valid_digit_def numvalue_digit_char code_digit_char)

lemma lib_isnumchar_digit_char: "d < 16 \<Longrightarrow> lib_isnumchar (digit_char d)"
  using code_digit_char [of d] by (auto simp: lib_isnumchar_def nasm_isalnum_iff is_alpha_def is_dec_def)

lemma numeral_string_digits:
  "2 \<le> b \<Longrightarrow> \<forall>c \<in> set (numeral_string b n). \<exists>d < b. c = digit_char d"
proof (induction b n rule: numeral_string.induct)
  case (1 b n)
  then show ?case
    by (auto simp: numeral_string.simps [of b n] intro!: exI [of _ "n mod b"])
qed

lemma digits_value_numeral_string:
  "2 \<le> b \<Longrightarrow> b \<le> 16 \<Longrightarrow> digits_value b (numeral_string b n) 0 = n"
proof (induction b n rule: numeral_string.induct)
  case (1 b n)
  have snoc: "digits_value b (xs @ [c]) a =
      (if c = CHR ''_'' then digits_value b xs a else b * digits_value b xs a + numvalue c)" for xs c a
    by (simp add: digits_value_def)
  have "n mod b < 16" using 1(2,3) by (meson le_trans less_le_trans mod_less_divisor zero_less_numeral)
  then show ?case
    using 1 by (simp add: numeral_string.simps [of b n] snoc digits_value_simps numvalue_digit_char digit_char_no_underscore)
qed

lemma readnum_digits_numeral_string:
  assumes "b \<in> {2, 8, 10, 16}"
  shows "readnum_digits b (numeral_string b n) 0 False = Some (word_of_nat n, 2 ^ 64 \<le> n)"
proof -
  have b: "2 \<le> b" "b \<le> 16" using assms by auto
  have v: "\<forall>c \<in> set (numeral_string b n). valid_digit b c"
  proof
    fix c assume "c \<in> set (numeral_string b n)"
    with numeral_string_digits [OF b(1)] obtain d where "d < b" "c = digit_char d" by auto
    then show "valid_digit b c" using b(2) valid_digit_char by simp
  qed
  show ?thesis
    using readnum_digits_value [OF assms v, of 0] digits_value_numeral_string [OF b, of n] by simp
qed

lemma numeral_string_numchars: "2 \<le> b \<Longrightarrow> b \<le> 16 \<Longrightarrow> \<forall>c \<in> set (numeral_string b n). lib_isnumchar c"
proof
  fix c assume b: "2 \<le> b" "b \<le> 16" and "c \<in> set (numeral_string b n)"
  with numeral_string_digits [OF b(1)] obtain d where "d < b" "c = digit_char d" by auto
  then show "lib_isnumchar c" using b(2) lib_isnumchar_digit_char by simp
qed

lemma radix_letter_hex_digit: "d < 16 \<Longrightarrow> radix_letter (digit_char d) \<le> 10"
  by (drule less_16_cases, elim disjE) (simp_all add: radix_letter_def digit_char_def char_of_def)

lemma radix_letter_dec_digit: "d < 10 \<Longrightarrow> radix_letter (digit_char d) = 0"
proof -
  assume d: "d < 10"
  then have "d < 16" by simp
  from less_16_cases [OF this] d show ?thesis
    by (elim disjE) (simp_all add: radix_letter_def digit_char_def char_of_def)
qed

lemma numeral_string_digit:
  assumes "c \<in> set (numeral_string b n)" "2 \<le> b" "b \<le> 16"
  obtains d where "d < b" "d < 16" "c = digit_char d"
proof -
  from bspec [OF numeral_string_digits [OF assms(2)] assms(1)] obtain d where "d < b" "c = digit_char d" by blast
  then show ?thesis using assms(3) that by simp
qed

lemma digit_char_special:
  "d < 16 \<Longrightarrow> digit_char d \<noteq> CHR ''-'' \<and> digit_char d \<noteq> CHR ''$'' \<and> \<not> nasm_isspace (digit_char d)"
  using code_digit_char [of d] by (auto simp: nasm_isspace_iff split: if_splits)

lemma readnum_radix_hex: "readnum_radix (''0x'' @ numeral_string 16 n) = (16, numeral_string 16 n)"
proof -
  obtain d where "d < 16" "last (numeral_string 16 n) = digit_char d"
    by (rule numeral_string_digit [OF last_in_set [OF numeral_string_nonempty, of 16 n]]) auto
  then have "radix_letter (last (''0x'' @ numeral_string 16 n)) \<le> 10"
    using radix_letter_hex_digit by simp
  moreover have "radix_letter (CHR ''x'') = 16" by (simp add: radix_letter_def)
  ultimately show ?thesis by (auto simp: readnum_radix_def Let_def)
qed

lemma readnum_radix_dec: "readnum_radix (numeral_string 10 n) = (10, numeral_string 10 n)"
proof -
  let ?s = "numeral_string 10 n"
  have l: "radix_letter c = 0" if "c \<in> set ?s" for c
    using numeral_string_digits [of 10 n] radix_letter_dec_digit that by auto
  have "radix_letter (last ?s) = 0" by (intro l) simp
  moreover have "radix_letter (?s ! 1) = 0" if "length ?s > 2" using that by (intro l) simp
  moreover have "?s ! 0 \<noteq> CHR ''$''"
  proof -
    have "?s ! 0 \<in> set ?s" by (intro nth_mem) simp
    then obtain d where "d < 16" "?s ! 0 = digit_char d" by (rule numeral_string_digit) (simp, simp, blast)
    then show ?thesis using digit_char_special [of d] by simp
  qed
  ultimately show ?thesis by (auto simp: readnum_radix_def Let_def)
qed

lemma takeWhile_all: "\<forall>c \<in> set xs. P c \<Longrightarrow> takeWhile P xs = xs"
  by (induction xs) auto

lemma numeral_string_Cons:
  assumes "2 \<le> b" "b \<le> 16"
  obtains d cs where "d < 16" "numeral_string b n = digit_char d # cs"
proof -
  obtain c cs where c: "numeral_string b n = c # cs" by (cases "numeral_string b n") auto
  then have "c \<in> set (numeral_string b n)" by simp
  then obtain d where "d < 16" "c = digit_char d" using assms by (rule numeral_string_digit)
  then show ?thesis using that c by blast
qed

lemma readnum_unsigned:
  assumes "b \<in> {2, 8, 10, 16}" "num = pre @ numeral_string b n" "\<forall>c \<in> set pre. lib_isnumchar c"
    "readnum_radix num = (b, numeral_string b n)" "\<not> nasm_isspace (hd num)" "hd num \<noteq> CHR ''-''"
  shows "readnum num = Some (word_of_nat n, 2 ^ 64 \<le> n)"
    and "readnum (CHR ''-'' # num) = Some (- word_of_nat n, 2 ^ 64 \<le> n)"
proof -
  have "2 \<le> b" "b \<le> 16" using assms(1) by auto
  then have all: "\<forall>c \<in> set num. lib_isnumchar c"
    using assms(2,3) numeral_string_numchars by auto
  have ne: "num \<noteq> []" using assms(2) by simp
  then obtain c cs where num: "num = c # cs" by (cases num) auto
  have d: "readnum_digits b (numeral_string b n) 0 False = Some (word_of_nat n, 2 ^ 64 \<le> n)"
    by (rule readnum_digits_numeral_string [OF assms(1)])
  have "dropWhile nasm_isspace num = num" using num assms(5) by simp
  then show "readnum num = Some (word_of_nat n, 2 ^ 64 \<le> n)"
    using assms(4,6) ne d num takeWhile_all [OF all, unfolded num] by (simp add: readnum_def)
  have "\<not> nasm_isspace (CHR ''-'')" by (simp add: nasm_isspace_iff)
  then show "readnum (CHR ''-'' # num) = Some (- word_of_nat n, 2 ^ 64 \<le> n)"
    using assms(4) ne d by (simp add: readnum_def takeWhile_all [OF all])
qed

lemma readnum_dec: "readnum (numeral_string 10 m) = Some (word_of_nat m, 2 ^ 64 \<le> m)"
  and readnum_neg_dec: "readnum (CHR ''-'' # numeral_string 10 m) = Some (- word_of_nat m, 2 ^ 64 \<le> m)"
proof -
  obtain d cs where d: "d < 16" "numeral_string 10 m = digit_char d # cs"
    by (rule numeral_string_Cons [of 10 m]) auto
  note u = readnum_unsigned [of 10 "numeral_string 10 m" "[]" m, OF _ _ _ readnum_radix_dec]
  show "readnum (numeral_string 10 m) = Some (word_of_nat m, 2 ^ 64 \<le> m)"
    "readnum (CHR ''-'' # numeral_string 10 m) = Some (- word_of_nat m, 2 ^ 64 \<le> m)"
    using u digit_char_special [OF d(1)] d(2) by simp_all
qed

lemma readnum_hex: "readnum (''0x'' @ numeral_string 16 n) = Some (word_of_nat n, 2 ^ 64 \<le> n)"
  by (rule readnum_unsigned(1) [OF _ refl _ readnum_radix_hex])
     (simp_all add: lib_isnumchar_def nasm_isalnum_iff is_alpha_def is_dec_def nasm_isspace_iff)

text \<open>
  C31: The assembler reads back the numbers the generator prints: a decimal text gives its number
  reduced to 64 bits and a hexadecimal text with prefix the same, and the overflow warning is
  given exactly when the number does not fit, although the test of the code works on the wrapped
  64-bit value.
\<close>

theorem readnum_reads_printed:
  "readnum (fmt_d i) = Some (word_of_int i, 2 ^ 64 \<le> \<bar>i\<bar>) \<and>
   readnum (''0x'' @ numeral_string 16 n) = Some (word_of_nat n, 2 ^ 64 \<le> n)"
proof
  show "readnum (fmt_d i) = Some (word_of_int i, 2 ^ 64 \<le> \<bar>i\<bar>)"
  proof (cases "i < 0")
    case True
    then have "word_of_nat (nat (- i)) = (- word_of_int i :: 64 word)"
      by (simp add: of_nat_nat flip: word_of_int_minus)
    moreover have "2 ^ 64 \<le> nat (- i) \<longleftrightarrow> 2 ^ 64 \<le> \<bar>i\<bar>" using True by auto
    ultimately show ?thesis using True readnum_neg_dec [of "nat (- i)"] by (simp add: fmt_d_def)
  next
    case False
    then have "word_of_nat (nat i) = (word_of_int i :: 64 word)" by (simp add: of_nat_nat)
    moreover have "2 ^ 64 \<le> nat i \<longleftrightarrow> 2 ^ 64 \<le> \<bar>i\<bar>" using False by auto
    ultimately show ?thesis using False readnum_dec [of "nat i"] by (simp add: fmt_d_def)
  qed
qed (rule readnum_hex)

subsection \<open>Pointers into text\<close>

text \<open>The skipping functions move a pointer forward; \<open>None\<close> is the null pointer.\<close>

definition nasm_skip_spaces :: "string option \<Rightarrow> string option" where
  "nasm_skip_spaces = map_option (dropWhile nasm_isspace)"

definition nasm_skip_word :: "string option \<Rightarrow> string option" where
  "nasm_skip_word = map_option (dropWhile (\<lambda>c. \<not> nasm_isspace c))"

definition nasm_skip_string :: "string option \<Rightarrow> string option" where
  "nasm_skip_string = map_option (dropWhile (\<lambda>c. code c \<noteq> 10))"

definition nasm_skip_a_comma :: "string option \<Rightarrow> string option" where
  "nasm_skip_a_comma =
     map_option (\<lambda>p. case dropWhile (\<lambda>c. c \<noteq> CHR '','') p of [] \<Rightarrow> [] | c # p' \<Rightarrow> p')"

text \<open>Splitting at commas by repeated skipping visits the fields between them.\<close>

lemma skip_a_comma_field:
  "CHR '','' \<notin> set xs \<Longrightarrow> nasm_skip_a_comma (Some (xs @ CHR '','' # ys)) = Some ys"
  "CHR '','' \<notin> set xs \<Longrightarrow> nasm_skip_a_comma (Some xs) = Some []"
proof -
  assume n: "CHR '','' \<notin> set xs"
  then have "\<forall>c \<in> set xs. c \<noteq> CHR '',''" by metis
  then show "nasm_skip_a_comma (Some (xs @ CHR '','' # ys)) = Some ys"
    "nasm_skip_a_comma (Some xs) = Some []"
    by (simp_all add: nasm_skip_a_comma_def dropWhile_append2 dropWhile_eq_Nil_conv [THEN iffD2])
qed

subsection \<open>Text in a buffer\<close>

text \<open>
  A character array with the position of a string in it.  The string runs to the first null
  character; without one, reading it is undefined.
\<close>

abbreviation NUL :: char where "NUL \<equiv> CHR 0x00"

definition str_at :: "char list \<Rightarrow> nat \<Rightarrow> string" where
  "str_at buf p = takeWhile (\<lambda>c. c \<noteq> NUL) (drop p buf)"

definition strlen_at :: "char list \<Rightarrow> nat \<Rightarrow> nat res" where
  "strlen_at buf p = (if NUL \<in> set (drop p buf) then Inr (length (str_at buf p)) else Inl Undefined)"

fun copy_down :: "char list \<Rightarrow> nat \<Rightarrow> nat \<Rightarrow> nat \<Rightarrow> char list" where
  "copy_down buf d s 0 = buf"
| "copy_down buf d s (Suc n) = copy_down (buf[d + n := buf ! (s + n)]) d s n"

fun copy_up :: "char list \<Rightarrow> nat \<Rightarrow> nat \<Rightarrow> nat \<Rightarrow> char list" where
  "copy_up buf d s 0 = buf"
| "copy_up buf d s (Suc n) = copy_up (buf[d := buf ! s]) (Suc d) (Suc s) n"

text \<open>\<open>strlcpyn\<close> within one array, from the end when the areas overlap that way.\<close>

definition strlcpyn :: "char list \<Rightarrow> nat \<Rightarrow> nat \<Rightarrow> nat \<Rightarrow> char list res" where
  "strlcpyn buf d s n =
     (if length buf < d + n \<or> length buf < s + n then Inl Undefined
      else if s < d \<and> d < s + n then Inr (copy_down buf d s n) else Inr (copy_up buf d s n))"

text \<open>\<open>strlcpyn\<close> from another array.\<close>

fun put_up :: "char list \<Rightarrow> nat \<Rightarrow> string \<Rightarrow> char list" where
  "put_up buf d [] = buf"
| "put_up buf d (c # src) = put_up (buf[d := c]) (Suc d) src"

definition strlcpyn_from :: "char list \<Rightarrow> nat \<Rightarrow> string \<Rightarrow> char list res" where
  "strlcpyn_from buf d src = (if length buf < d + length src then Inl Undefined else Inr (put_up buf d src))"

definition nasm_strrplc :: "char list \<Rightarrow> nat \<Rightarrow> int \<Rightarrow> string \<Rightarrow> int \<Rightarrow> char list option res" where
  "nasm_strrplc buf dest dest_size src src_size =
     (if dest_size < 0 \<or> src_size < 0 then Inr None
      else bnd (strlen_at buf (dest + nat dest_size)) (\<lambda>tl.
           let len = tl + length src in
           bnd (if src_size \<le> dest_size
                then bnd (strlcpyn_from buf dest src) (\<lambda>buf.
                       strlcpyn buf (dest + nat src_size) (dest + nat dest_size) tl)
                else bnd (strlcpyn buf (dest + nat src_size) (dest + nat dest_size) tl) (\<lambda>buf.
                       strlcpyn_from buf dest src)) (\<lambda>buf.
           bnd (guard_res (dest + len < length buf) Undefined) (\<lambda>_. Inr (Some (buf[dest + len := NUL]))))))"

lemma length_copy [simp]:
  "length (copy_down buf d s n) = length buf" "length (copy_up buf d s n) = length buf"
  "length (put_up buf d src) = length buf"
proof -
  show "length (copy_down buf d s n) = length buf" by (induction n arbitrary: buf) simp_all
  show "length (copy_up buf d s n) = length buf" by (induction n arbitrary: buf d s) simp_all
  show "length (put_up buf d src) = length buf" by (induction src arbitrary: buf d) simp_all
qed

text \<open>Either direction moves the area as it was before, overlap or not.\<close>

lemma copy_down_nth:
  "s < d \<Longrightarrow> d + n \<le> length buf \<Longrightarrow> i < length buf \<Longrightarrow>
   copy_down buf d s n ! i = (if d \<le> i \<and> i < d + n then buf ! (s + (i - d)) else buf ! i)"
proof (induction n arbitrary: buf)
  case (Suc n)
  have "copy_down buf d s (Suc n) ! i =
      (if d \<le> i \<and> i < d + n then buf[d + n := buf ! (s + n)] ! (s + (i - d))
       else buf[d + n := buf ! (s + n)] ! i)"
    using Suc by simp
  then show ?case using Suc.prems by (auto simp: nth_list_update)
qed auto

lemma copy_up_nth:
  "d \<le> s \<or> s + n \<le> d \<Longrightarrow> d + n \<le> length buf \<Longrightarrow> s + n \<le> length buf \<Longrightarrow> i < length buf \<Longrightarrow>
   copy_up buf d s n ! i = (if d \<le> i \<and> i < d + n then buf ! (s + (i - d)) else buf ! i)"
proof (induction n arbitrary: buf d s)
  case (Suc n)
  have "copy_up buf d s (Suc n) ! i =
      (if Suc d \<le> i \<and> i < Suc d + n then buf[d := buf ! s] ! (Suc s + (i - Suc d))
       else buf[d := buf ! s] ! i)"
    using Suc.prems by (simp only: copy_up.simps, intro Suc.IH) auto
  moreover have "Suc s + (i - Suc d) = s + (i - d)" if "Suc d \<le> i" using that by simp
  ultimately show ?case using Suc.prems by (auto simp: nth_list_update)
qed auto

lemma put_up_eq: "d + length src \<le> length buf \<Longrightarrow> put_up buf d src = take d buf @ src @ drop (d + length src) buf"
proof (induction src arbitrary: buf d)
  case (Cons c src)
  then have "put_up buf d (c # src) =
      take (Suc d) (buf[d := c]) @ src @ drop (Suc d + length src) (buf[d := c])" by simp
  also have "take (Suc d) (buf[d := c]) = take d buf @ [c]"
    using Cons.prems by (simp add: take_Suc_conv_app_nth)
  also have "drop (Suc d + length src) (buf[d := c]) = drop (Suc d + length src) buf" by simp
  finally show ?case by simp
qed simp

lemma strlcpyn_eq:
  assumes "d + n \<le> length buf" "s + n \<le> length buf"
  shows "strlcpyn buf d s n = Inr (take d buf @ take n (drop s buf) @ drop (d + n) buf)"
proof -
  let ?r = "if s < d \<and> d < s + n then copy_down buf d s n else copy_up buf d s n"
  have "?r = take d buf @ take n (drop s buf) @ drop (d + n) buf"
  proof (rule nth_equalityI)
    show "length ?r = length (take d buf @ take n (drop s buf) @ drop (d + n) buf)"
      using assms by simp
  next
    fix i assume "i < length ?r"
    then have i: "i < length buf" by (simp split: if_splits)
    have "?r ! i = (if d \<le> i \<and> i < d + n then buf ! (s + (i - d)) else buf ! i)"
      using copy_down_nth [of s d n buf i] copy_up_nth [of d s n buf i] assms i by auto
    also have "\<dots> = (take d buf @ take n (drop s buf) @ drop (d + n) buf) ! i"
      using assms i by (auto simp: nth_append)
    finally show "?r ! i = (take d buf @ take n (drop s buf) @ drop (d + n) buf) ! i" .
  qed
  moreover have "strlcpyn buf d s n = Inr ?r" using assms by (auto simp: strlcpyn_def)
  ultimately show ?thesis by (simp only:)
qed

text \<open>The string of an array laid out as text, terminator, rest.\<close>

lemma str_at_layout:
  assumes "NUL \<notin> set txt" "p = length xs"
  shows "str_at (xs @ txt @ NUL # junk) p = txt" "strlen_at (xs @ txt @ NUL # junk) p = Inr (length txt)"
proof -
  have "\<forall>c \<in> set txt. c \<noteq> NUL" using assms(1) by metis
  then show "str_at (xs @ txt @ NUL # junk) p = txt" using assms(2)
    by (simp add: str_at_def takeWhile_append2)
  then show "strlen_at (xs @ txt @ NUL # junk) p = Inr (length txt)" using assms(2)
    by (simp add: strlen_at_def)
qed

text \<open>
  C32: Replacing an area of a string by another text leaves what is before and what is after it as
  they were, in the same array, whether the text shrinks, grows or keeps its length: the overlapping
  move of the tail loses nothing and the terminator ends the new string.
\<close>

theorem strrplc_replaces:
  assumes "NUL \<notin> set old" "NUL \<notin> set rest" "NUL \<notin> set src"
    and "length src \<le> length old + length junk"
  shows "\<exists>junk'. nasm_strrplc (xs @ old @ rest @ NUL # junk) (length xs) (int (length old)) src (int (length src))
      = Inr (Some (xs @ src @ rest @ NUL # junk')) \<and>
      length (xs @ src @ rest @ NUL # junk') = length (xs @ old @ rest @ NUL # junk)"
proof -
  let ?buf = "xs @ old @ rest @ NUL # junk" and ?d = "length xs"
  define r where "r = drop (length xs + length src + length rest) ?buf"
  have len: "strlen_at ?buf (?d + length old) = Inr (length rest)"
    using str_at_layout(2) [OF assms(2), of "?d + length old" "xs @ old" junk] by simp
  have room: "?d + (length rest + length src) < length ?buf" using assms(4) by simp
  have r: "drop (length xs + length src + length rest) ?buf = r" by (simp only: r_def)
  have len_r: "Suc (length r + length src) = length old + length junk + 2" using assms(4) by (simp add: r_def)
  have r_ne: "r \<noteq> []" using len_r assms(4) by auto
  have ending: "(xs @ src @ rest @ r)[?d + (length rest + length src) := NUL] = xs @ src @ rest @ NUL # drop 1 r"
  proof -
    obtain c cs where "r = c # cs" using len_r assms(4) by (cases r) auto
    then show ?thesis by (simp add: list_update_append add.commute)
  qed
  have step: "(if length src \<le> length old
        then bnd (strlcpyn_from ?buf ?d src) (\<lambda>buf.
               strlcpyn buf (?d + length src) (?d + length old) (length rest))
        else bnd (strlcpyn ?buf (?d + length src) (?d + length old) (length rest)) (\<lambda>buf.
               strlcpyn_from buf ?d src)) = Inr (xs @ src @ rest @ r)"
  proof (cases "length src \<le> length old")
    case True
    let ?b = "xs @ src @ drop (length src) (old @ rest @ NUL # junk)"
    have "strlcpyn_from ?buf ?d src = Inr ?b"
      using True by (simp add: strlcpyn_from_def put_up_eq)
    moreover have "strlcpyn ?b (?d + length src) (?d + length old) (length rest) = Inr (xs @ src @ rest @ r)"
      using True by (subst strlcpyn_eq) (simp_all add: ac_simps r_def)
    ultimately show ?thesis using True by simp
  next
    case False
    let ?b = "take (?d + length src) ?buf @ rest @ r"
    have "strlcpyn ?buf (?d + length src) (?d + length old) (length rest) = Inr ?b"
      using False assms(4) by (subst strlcpyn_eq) (simp_all add: ac_simps r_def)
    moreover have "strlcpyn_from ?b ?d src = Inr (xs @ src @ rest @ r)"
      using False assms(4) by (simp add: strlcpyn_from_def put_up_eq r_def)
    ultimately show ?thesis using False by simp
  qed
  have "nasm_strrplc ?buf ?d (int (length old)) src (int (length src)) = Inr (Some (xs @ src @ rest @ NUL # drop 1 r))"
    unfolding nasm_strrplc_def Let_def
    using len step ending len_r assms(4) r_ne
    by (cases "length src \<le> length old") (auto simp: guard_res_def simp del: bnd_eq_Inr)
  moreover have "length (xs @ src @ rest @ NUL # drop 1 r) = length ?buf" using len_r r_ne by (cases r) auto
  ultimately show ?thesis by blast
qed

theorem strrplc_replaces_witness:
  "\<exists>junk'. nasm_strrplc (''[1,'' @ ''ebx'' @ '']'' @ NUL # ''....'') 3 3 ''ecx*8'' 5
      = Inr (Some (''[1,'' @ ''ecx*8'' @ '']'' @ NUL # junk'))"
  using strrplc_replaces [of "''ebx''" "'']''" "''ecx*8''" "''....''" "''[1,''"] by (auto simp: numeral_3_eq_3)

end
