(* ===== verification/Opflags.thy ===== *)
theory Opflags
  imports Insn
begin

unbundle bit_operations_syntax

text \<open>
  The operand flags of \<open>include/opflags.h\<close>, the functions on them in \<open>engine/asmlib.c\<close>, and
  \<open>reg_random_range\<close> of \<open>include/reg.h\<close>.  A flag word has fields for the operand type, the modifiers,
  the register class, the subclass, special flags, the size and the register set.
\<close>

subsection \<open>Fields\<close>

definition OP_GENMASK :: "nat \<Rightarrow> nat \<Rightarrow> opflags" where
  "OP_GENMASK n shift = push_bit shift (push_bit n 1 - 1)"

definition OP_GENBIT :: "nat \<Rightarrow> nat \<Rightarrow> opflags" where
  "OP_GENBIT n shift = push_bit (shift + n) 1"

definition OPTYPE_MASK :: opflags where "OPTYPE_MASK = OP_GENMASK 4 0"

definition GEN_OPTYPE :: "nat \<Rightarrow> opflags" where "GEN_OPTYPE n = OP_GENBIT n 0"

definition MODIFIER_MASK :: opflags where "MODIFIER_MASK = OP_GENMASK 3 4"

definition GEN_MODIFIER :: "nat \<Rightarrow> opflags" where "GEN_MODIFIER n = OP_GENBIT n 4"

definition REG_CLASS_MASK :: opflags where "REG_CLASS_MASK = OP_GENMASK 11 7"

definition GEN_REG_CLASS :: "nat \<Rightarrow> opflags" where "GEN_REG_CLASS n = OP_GENBIT n 7"

definition SUBCLASS_MASK :: opflags where "SUBCLASS_MASK = OP_GENMASK 8 18"

definition GEN_SUBCLASS :: "nat \<Rightarrow> opflags" where "GEN_SUBCLASS n = OP_GENBIT n 18"

definition SPECIAL_MASK :: opflags where "SPECIAL_MASK = OP_GENMASK 7 26"

definition SIZE_MASK :: opflags where "SIZE_MASK = OP_GENMASK 11 33"

definition GEN_SIZE :: "nat \<Rightarrow> opflags" where "GEN_SIZE n = OP_GENBIT n 33"

definition size_mask :: "opflags \<Rightarrow> opflags" where "size_mask f = f AND SIZE_MASK"

definition REGSET_MASK :: opflags where "REGSET_MASK = OP_GENMASK 5 44"

definition GEN_REGSET :: "nat \<Rightarrow> opflags" where "GEN_REGSET n = OP_GENBIT n 44"

lemmas field_defs = OP_GENMASK_def OP_GENBIT_def OPTYPE_MASK_def GEN_OPTYPE_def MODIFIER_MASK_def
  GEN_MODIFIER_def REG_CLASS_MASK_def GEN_REG_CLASS_def SUBCLASS_MASK_def GEN_SUBCLASS_def
  SPECIAL_MASK_def SIZE_MASK_def GEN_SIZE_def size_mask_def REGSET_MASK_def GEN_REGSET_def

subsection \<open>Flags\<close>

definition REGISTER :: opflags where
  "REGISTER = GEN_OPTYPE 0"

definition IMMEDIATE :: opflags where
  "IMMEDIATE = GEN_OPTYPE 1"

definition REGMEM :: opflags where
  "REGMEM = GEN_OPTYPE 2"

definition MEMORY :: opflags where
  "MEMORY = GEN_OPTYPE 3 OR REGMEM"

definition BITS8 :: opflags where
  "BITS8 = GEN_SIZE 0"

definition BITS16 :: opflags where
  "BITS16 = GEN_SIZE 1"

definition BITS32 :: opflags where
  "BITS32 = GEN_SIZE 2"

definition BITS64 :: opflags where
  "BITS64 = GEN_SIZE 3"

definition BITS80 :: opflags where
  "BITS80 = GEN_SIZE 4"

definition BITS128 :: opflags where
  "BITS128 = GEN_SIZE 5"

definition BITS256 :: opflags where
  "BITS256 = GEN_SIZE 6"

definition BITS512 :: opflags where
  "BITS512 = GEN_SIZE 7"

definition FAR :: opflags where
  "FAR = GEN_SIZE 8"

definition NEAR :: opflags where
  "NEAR = GEN_SIZE 9"

definition SHORT :: opflags where
  "SHORT = GEN_SIZE 10"

definition TO_flag :: opflags where
  "TO_flag = GEN_MODIFIER 0"

definition COLON :: opflags where
  "COLON = GEN_MODIFIER 1"

definition STRICT :: opflags where
  "STRICT = GEN_MODIFIER 2"

definition REG_CLASS_CDT :: opflags where
  "REG_CLASS_CDT = GEN_REG_CLASS 0"

definition REG_CLASS_GPR :: opflags where
  "REG_CLASS_GPR = GEN_REG_CLASS 1"

definition REG_CLASS_SREG :: opflags where
  "REG_CLASS_SREG = GEN_REG_CLASS 2"

definition REG_CLASS_FPUREG :: opflags where
  "REG_CLASS_FPUREG = GEN_REG_CLASS 3"

definition REG_CLASS_RM_MMX :: opflags where
  "REG_CLASS_RM_MMX = GEN_REG_CLASS 4"

definition REG_CLASS_RM_XMM :: opflags where
  "REG_CLASS_RM_XMM = GEN_REG_CLASS 5"

definition REG_CLASS_RM_YMM :: opflags where
  "REG_CLASS_RM_YMM = GEN_REG_CLASS 6"

definition REG_CLASS_RM_ZMM :: opflags where
  "REG_CLASS_RM_ZMM = GEN_REG_CLASS 7"

definition REG_CLASS_OPMASK :: opflags where
  "REG_CLASS_OPMASK = GEN_REG_CLASS 8"

definition REG_CLASS_BND :: opflags where
  "REG_CLASS_BND = GEN_REG_CLASS 9"

definition REG_CLASS_RM_TMM :: opflags where
  "REG_CLASS_RM_TMM = GEN_REG_CLASS 10"

definition REG_EA :: opflags where
  "REG_EA = REGMEM OR REGISTER"

definition RM_GPR :: opflags where
  "RM_GPR = REG_CLASS_GPR OR REGMEM"

definition REG_GPR :: opflags where
  "REG_GPR = REG_CLASS_GPR OR REGMEM OR REGISTER"

definition REG8 :: opflags where
  "REG8 = REG_CLASS_GPR OR BITS8 OR REGMEM OR REGISTER"

definition REG16 :: opflags where
  "REG16 = REG_CLASS_GPR OR BITS16 OR REGMEM OR REGISTER"

definition REG32 :: opflags where
  "REG32 = REG_CLASS_GPR OR BITS32 OR REGMEM OR REGISTER"

definition REG64 :: opflags where
  "REG64 = REG_CLASS_GPR OR BITS64 OR REGMEM OR REGISTER"

definition FPUREG :: opflags where
  "FPUREG = REG_CLASS_FPUREG OR REGISTER"

definition FPU0 :: opflags where
  "FPU0 = GEN_SUBCLASS 1 OR REG_CLASS_FPUREG OR REGISTER"

definition RM_MMX :: opflags where
  "RM_MMX = REG_CLASS_RM_MMX OR REGMEM"

definition MMXREG :: opflags where
  "MMXREG = REG_CLASS_RM_MMX OR REGMEM OR REGISTER"

definition RM_XMM :: opflags where
  "RM_XMM = REG_CLASS_RM_XMM OR REGMEM"

definition XMMREG :: opflags where
  "XMMREG = REG_CLASS_RM_XMM OR REGMEM OR REGISTER"

definition RM_YMM :: opflags where
  "RM_YMM = REG_CLASS_RM_YMM OR REGMEM"

definition YMMREG :: opflags where
  "YMMREG = REG_CLASS_RM_YMM OR REGMEM OR REGISTER"

definition RM_ZMM :: opflags where
  "RM_ZMM = REG_CLASS_RM_ZMM OR REGMEM"

definition ZMMREG :: opflags where
  "ZMMREG = REG_CLASS_RM_ZMM OR REGMEM OR REGISTER"

definition RM_OPMASK :: opflags where
  "RM_OPMASK = REG_CLASS_OPMASK OR REGMEM"

definition OPMASKREG :: opflags where
  "OPMASKREG = REG_CLASS_OPMASK OR REGMEM OR REGISTER"

definition OPMASK0 :: opflags where
  "OPMASK0 = GEN_SUBCLASS 1 OR REG_CLASS_OPMASK OR REGMEM OR REGISTER"

definition RM_K :: opflags where
  "RM_K = RM_OPMASK"

definition KREG :: opflags where
  "KREG = OPMASKREG"

definition RM_BND :: opflags where
  "RM_BND = REG_CLASS_BND OR REGMEM"

definition BNDREG :: opflags where
  "BNDREG = REG_CLASS_BND OR REGMEM OR REGISTER"

definition TMMREG :: opflags where
  "TMMREG = REG_CLASS_RM_TMM OR REGMEM OR REGISTER"

definition REG_CDT :: opflags where
  "REG_CDT = REG_CLASS_CDT OR BITS32 OR REGISTER"

definition REG_CREG :: opflags where
  "REG_CREG = GEN_SUBCLASS 1 OR REG_CLASS_CDT OR BITS32 OR REGISTER"

definition REG_DREG :: opflags where
  "REG_DREG = GEN_SUBCLASS 2 OR REG_CLASS_CDT OR BITS32 OR REGISTER"

definition REG_TREG :: opflags where
  "REG_TREG = GEN_SUBCLASS 3 OR REG_CLASS_CDT OR BITS32 OR REGISTER"

definition REG_SREG :: opflags where
  "REG_SREG = REG_CLASS_SREG OR BITS16 OR REGISTER"

definition REG_ES :: opflags where
  "REG_ES = GEN_SUBCLASS 0 OR GEN_SUBCLASS 2 OR REG_CLASS_SREG OR BITS16 OR REGISTER"

definition REG_CS :: opflags where
  "REG_CS = GEN_SUBCLASS 1 OR GEN_SUBCLASS 2 OR REG_CLASS_SREG OR BITS16 OR REGISTER"

definition REG_SS :: opflags where
  "REG_SS = GEN_SUBCLASS 0 OR GEN_SUBCLASS 3 OR REG_CLASS_SREG OR BITS16 OR REGISTER"

definition REG_DS :: opflags where
  "REG_DS = GEN_SUBCLASS 1 OR GEN_SUBCLASS 3 OR REG_CLASS_SREG OR BITS16 OR REGISTER"

definition REG_FS :: opflags where
  "REG_FS = GEN_SUBCLASS 0 OR GEN_SUBCLASS 4 OR REG_CLASS_SREG OR BITS16 OR REGISTER"

definition REG_GS :: opflags where
  "REG_GS = GEN_SUBCLASS 1 OR GEN_SUBCLASS 4 OR REG_CLASS_SREG OR BITS16 OR REGISTER"

definition REG_FSGS :: opflags where
  "REG_FSGS = GEN_SUBCLASS 4 OR REG_CLASS_SREG OR BITS16 OR REGISTER"

definition REG_SEG67 :: opflags where
  "REG_SEG67 = GEN_SUBCLASS 5 OR REG_CLASS_SREG OR BITS16 OR REGISTER"

definition REG_SMASK :: opflags where
  "REG_SMASK = SUBCLASS_MASK"

definition REG_ACCUM :: opflags where
  "REG_ACCUM = GEN_SUBCLASS 1 OR REG_CLASS_GPR OR REGMEM OR REGISTER"

definition REG_AL :: opflags where
  "REG_AL = GEN_SUBCLASS 1 OR REG_CLASS_GPR OR BITS8 OR REGMEM OR REGISTER"

definition REG_AX :: opflags where
  "REG_AX = GEN_SUBCLASS 1 OR REG_CLASS_GPR OR BITS16 OR REGMEM OR REGISTER"

definition REG_EAX :: opflags where
  "REG_EAX = GEN_SUBCLASS 1 OR REG_CLASS_GPR OR BITS32 OR REGMEM OR REGISTER"

definition REG_RAX :: opflags where
  "REG_RAX = GEN_SUBCLASS 1 OR REG_CLASS_GPR OR BITS64 OR REGMEM OR REGISTER"

definition REG_COUNT :: opflags where
  "REG_COUNT = GEN_SUBCLASS 5 OR GEN_SUBCLASS 2 OR REG_CLASS_GPR OR REGMEM OR REGISTER"

definition REG_CL :: opflags where
  "REG_CL = GEN_SUBCLASS 5 OR GEN_SUBCLASS 2 OR REG_CLASS_GPR OR BITS8 OR REGMEM OR REGISTER"

definition REG_CX :: opflags where
  "REG_CX = GEN_SUBCLASS 5 OR GEN_SUBCLASS 2 OR REG_CLASS_GPR OR BITS16 OR REGMEM OR REGISTER"

definition REG_ECX :: opflags where
  "REG_ECX = GEN_SUBCLASS 5 OR GEN_SUBCLASS 2 OR REG_CLASS_GPR OR BITS32 OR REGMEM OR REGISTER"

definition REG_RCX :: opflags where
  "REG_RCX = GEN_SUBCLASS 5 OR GEN_SUBCLASS 2 OR REG_CLASS_GPR OR BITS64 OR REGMEM OR REGISTER"

definition REG_DL :: opflags where
  "REG_DL = GEN_SUBCLASS 5 OR GEN_SUBCLASS 3 OR REG_CLASS_GPR OR BITS8 OR REGMEM OR REGISTER"

definition REG_DX :: opflags where
  "REG_DX = GEN_SUBCLASS 5 OR GEN_SUBCLASS 3 OR REG_CLASS_GPR OR BITS16 OR REGMEM OR REGISTER"

definition REG_EDX :: opflags where
  "REG_EDX = GEN_SUBCLASS 5 OR GEN_SUBCLASS 3 OR REG_CLASS_GPR OR BITS32 OR REGMEM OR REGISTER"

definition REG_RDX :: opflags where
  "REG_RDX = GEN_SUBCLASS 5 OR GEN_SUBCLASS 3 OR REG_CLASS_GPR OR BITS64 OR REGMEM OR REGISTER"

definition REG_HIGH :: opflags where
  "REG_HIGH = GEN_SUBCLASS 5 OR GEN_SUBCLASS 4 OR REG_CLASS_GPR OR BITS8 OR REGMEM OR REGISTER"

definition REG_NOTACC :: opflags where
  "REG_NOTACC = GEN_SUBCLASS 5"

definition REG8NA :: opflags where
  "REG8NA = GEN_SUBCLASS 5 OR REG_CLASS_GPR OR BITS8 OR REGMEM OR REGISTER"

definition REG16NA :: opflags where
  "REG16NA = GEN_SUBCLASS 5 OR REG_CLASS_GPR OR BITS16 OR REGMEM OR REGISTER"

definition REG32NA :: opflags where
  "REG32NA = GEN_SUBCLASS 5 OR REG_CLASS_GPR OR BITS32 OR REGMEM OR REGISTER"

definition REG64NA :: opflags where
  "REG64NA = GEN_SUBCLASS 5 OR REG_CLASS_GPR OR BITS64 OR REGMEM OR REGISTER"

definition MEM_OFFS :: opflags where
  "MEM_OFFS = GEN_SUBCLASS 1 OR MEMORY"

definition IP_REL :: opflags where
  "IP_REL = GEN_SUBCLASS 2 OR MEMORY"

definition XMEM :: opflags where
  "XMEM = GEN_SUBCLASS 3 OR MEMORY"

definition YMEM :: opflags where
  "YMEM = GEN_SUBCLASS 4 OR MEMORY"

definition ZMEM :: opflags where
  "ZMEM = GEN_SUBCLASS 5 OR MEMORY"

definition UNITY :: opflags where
  "UNITY = GEN_SUBCLASS 0 OR IMMEDIATE"

definition SBYTEWORD :: opflags where
  "SBYTEWORD = GEN_SUBCLASS 1 OR IMMEDIATE"

definition SBYTEDWORD :: opflags where
  "SBYTEDWORD = GEN_SUBCLASS 2 OR IMMEDIATE"

definition SDWORD :: opflags where
  "SDWORD = GEN_SUBCLASS 3 OR IMMEDIATE"

definition UDWORD :: opflags where
  "UDWORD = GEN_SUBCLASS 4 OR IMMEDIATE"

definition RM_XMM_L16 :: opflags where
  "RM_XMM_L16 = GEN_SUBCLASS 6 OR RM_XMM"

definition XMM0 :: opflags where
  "XMM0 = GEN_SUBCLASS 1 OR GEN_SUBCLASS 6 OR XMMREG"

definition XMM_L16 :: opflags where
  "XMM_L16 = GEN_SUBCLASS 6 OR XMMREG"

definition RM_YMM_L16 :: opflags where
  "RM_YMM_L16 = GEN_SUBCLASS 6 OR RM_YMM"

definition YMM0 :: opflags where
  "YMM0 = GEN_SUBCLASS 1 OR GEN_SUBCLASS 6 OR YMMREG"

definition YMM_L16 :: opflags where
  "YMM_L16 = GEN_SUBCLASS 6 OR YMMREG"

definition RM_ZMM_L16 :: opflags where
  "RM_ZMM_L16 = GEN_SUBCLASS 6 OR RM_ZMM"

definition ZMM0 :: opflags where
  "ZMM0 = GEN_SUBCLASS 1 OR GEN_SUBCLASS 6 OR ZMMREG"

definition ZMM_L16 :: opflags where
  "ZMM_L16 = GEN_SUBCLASS 6 OR ZMMREG"

definition RS2 :: opflags where
  "RS2 = GEN_REGSET 0"

definition RS4 :: opflags where
  "RS4 = GEN_REGSET 1"

definition RS8 :: opflags where
  "RS8 = GEN_REGSET 2"

definition RS16 :: opflags where
  "RS16 = GEN_REGSET 3"

definition RS32 :: opflags where
  "RS32 = GEN_REGSET 4"

definition MEMORY_ANY :: opflags where
  "MEMORY_ANY = MEMORY OR RM_GPR OR RM_MMX OR RM_XMM_L16 OR RM_YMM_L16 OR RM_ZMM_L16 OR RM_OPMASK OR RM_BND"

lemmas flag_defs = REGISTER_def IMMEDIATE_def REGMEM_def MEMORY_def BITS8_def BITS16_def BITS32_def BITS64_def
  BITS80_def BITS128_def BITS256_def BITS512_def FAR_def NEAR_def SHORT_def TO_flag_def COLON_def
  STRICT_def REG_CLASS_CDT_def REG_CLASS_GPR_def REG_CLASS_SREG_def REG_CLASS_FPUREG_def
  REG_CLASS_RM_MMX_def REG_CLASS_RM_XMM_def REG_CLASS_RM_YMM_def REG_CLASS_RM_ZMM_def
  REG_CLASS_OPMASK_def REG_CLASS_BND_def REG_CLASS_RM_TMM_def REG_EA_def RM_GPR_def REG_GPR_def
  REG8_def REG16_def REG32_def REG64_def FPUREG_def FPU0_def RM_MMX_def MMXREG_def RM_XMM_def
  XMMREG_def RM_YMM_def YMMREG_def RM_ZMM_def ZMMREG_def RM_OPMASK_def OPMASKREG_def OPMASK0_def
  RM_K_def KREG_def RM_BND_def BNDREG_def TMMREG_def REG_CDT_def REG_CREG_def REG_DREG_def
  REG_TREG_def REG_SREG_def REG_ES_def REG_CS_def REG_SS_def REG_DS_def REG_FS_def REG_GS_def
  REG_FSGS_def REG_SEG67_def REG_SMASK_def REG_ACCUM_def REG_AL_def REG_AX_def REG_EAX_def
  REG_RAX_def REG_COUNT_def REG_CL_def REG_CX_def REG_ECX_def REG_RCX_def REG_DL_def REG_DX_def
  REG_EDX_def REG_RDX_def REG_HIGH_def REG_NOTACC_def REG8NA_def REG16NA_def REG32NA_def
  REG64NA_def MEM_OFFS_def IP_REL_def XMEM_def YMEM_def ZMEM_def UNITY_def SBYTEWORD_def
  SBYTEDWORD_def SDWORD_def UDWORD_def RM_XMM_L16_def XMM0_def XMM_L16_def RM_YMM_L16_def YMM0_def
  YMM_L16_def RM_ZMM_L16_def ZMM0_def ZMM_L16_def RS2_def RS4_def RS8_def RS16_def RS32_def
  MEMORY_ANY_def

subsection \<open>Classes\<close>

text \<open>An operand belongs to a class when it has all the bits of the class.\<close>

definition is_class :: "opflags \<Rightarrow> opflags \<Rightarrow> bool" where
  "is_class c op \<longleftrightarrow> c AND NOT op = 0"

lemma is_class_bits: "is_class c op \<longleftrightarrow> (\<forall>n. bit c n \<longrightarrow> bit op n)"
proof
  assume c: "is_class c op"
  show "\<forall>n. bit c n \<longrightarrow> bit op n"
  proof (intro allI impI)
    fix n assume b: "bit c n"
    have "\<not> bit (c AND NOT op) n" using c by (simp add: is_class_def)
    then show "bit op n" using b bit_imp_le_length [OF b] by (simp add: bit_simps)
  qed
qed (auto simp: is_class_def bit_eq_iff bit_simps)

lemma is_class_refl [simp]: "is_class c c"
  by (simp add: is_class_bits)

lemma is_class_trans [trans]: "is_class a b \<Longrightarrow> is_class b c \<Longrightarrow> is_class a c"
  by (simp add: is_class_bits)

lemma is_class_antisym: "is_class a b \<Longrightarrow> is_class b a \<Longrightarrow> a = b"
  by (auto simp: is_class_bits intro: bit_eqI)

lemma is_class_OR: "is_class (a OR b) op \<longleftrightarrow> is_class a op \<and> is_class b op"
  by (auto simp: is_class_bits bit_simps)

lemma is_class_OR_right: "is_class c a \<Longrightarrow> is_class c (a OR b)" "is_class c b \<Longrightarrow> is_class c (a OR b)"
  by (auto simp: is_class_bits bit_simps)

lemma size_mask_OR: "size_mask (a OR b) = size_mask a OR size_mask b"
  by (simp add: size_mask_def bit.conj_disj_distrib2)

text \<open>The size field of a flag word is its own size.\<close>

lemma size_mask_idem: "size_mask (size_mask f) = size_mask f"
  by (simp add: size_mask_def and.assoc)

subsection \<open>Registers to choose from\<close>

text \<open>
  How many registers the disassembler's table of a class has, the bound of the random index.
  A flag word that is none of the listed ones stops the program.
\<close>

definition reg_random_range :: "int \<Rightarrow> opflags \<Rightarrow> int res" where
  "reg_random_range globalbits f =
     (if f = REG_SREG then Inr (if globalbits = 16 then 4 else 6)
      else if f \<in> {REG_CREG, REG_GPR OR BITS16, RM_GPR OR BITS16, REG_GPR OR BITS32, RM_GPR OR BITS32}
      then Inr 4
      else if f \<in> {REG_GPR OR BITS8, RM_GPR OR BITS8, FPUREG, MMXREG, REG_CLASS_RM_MMX OR REGISTER, XMMREG}
      then Inr 8
      else Inl Fatal)"

lemma reg_random_range_pos: "reg_random_range gb f = Inr n \<Longrightarrow> 0 < n \<and> n \<le> 8"
  by (auto simp: reg_random_range_def split: if_splits)

end
