(* ===== verification/GenState.thy ===== *)
theory GenState
  imports X86PG Strings Opflags
begin

text \<open>
  What the instruction generator works on: the tables generated from the data files (parameters of
  the model), the token buffer of \<open>engine/buf2token.c\<close>, the variables of the template blocks and
  the testing knowledge, next to the state of \<open>stat/x86pg.c\<close>.
\<close>

subsection \<open>Generated tables\<close>

text \<open>
  A token with its value: what \<open>enum token_type\<close> and \<open>struct tokenval\<close> say together.  A
  single-character operator is its character.  The multi-character operators stand in the
  evaluator only; the scanner of this program never returns them.
\<close>

datatype ifunc = IFUNC_ILOG2E | IFUNC_ILOG2W | IFUNC_ILOG2F | IFUNC_ILOG2C

datatype strfunc = STRFUNC_UTF16 | STRFUNC_UTF16LE | STRFUNC_UTF16BE | STRFUNC_UTF32 |
  STRFUNC_UTF32LE | STRFUNC_UTF32BE

datatype floatize = FLOAT_8 | FLOAT_16 | FLOAT_B16 | FLOAT_32 | FLOAT_64 | FLOAT_80M | FLOAT_80E |
  FLOAT_128L | FLOAT_128H

datatype token =
    TokInvalid | TokEos | TokChar char
  | TokShl | TokShr | TokSar | TokSdiv | TokSmod | TokGe | TokLe | TokNe | TokLeg
  | TokDblAnd | TokDblOr | TokDblXor
  | TokNum "64 word" | TokErrNum | TokStr string | TokId string | TokFloat string
  | TokHere | TokBase | TokSeg | TokWrt | TokQmark
  | TokFloatize floatize | TokStrfunc strfunc | TokIfunc ifunc | TokDecorator int
  | TokMasmPtr | TokMasmFlat
  | TokSize string | TokSpecial string | TokPrefix prefix | TokReg reg | TokInsn opcode int

text \<open>
  An instruction template of \<open>insns.dat\<close>, with its operand flags.  The tables are the generated
  files' \<open>nasm_token_hash\<close> (with the words that are valid in braces only), \<open>nasm_instructions\<close>,
  \<open>nasm_reg_flags\<close>, the register lists of \<open>regdis.h\<close>, the order of the opcode enumeration and the
  numbers of the registers, from 1 to \<open>reg_end\<close>.
\<close>

record itemplate =
  it_opcode :: opcode
  it_opd :: "opflags list"

record tables =
  nasm_token_hash :: "string \<Rightarrow> token"
  token_brc :: "string \<Rightarrow> bool"
  nasm_instructions :: "opcode \<Rightarrow> itemplate list"
  nasm_reg_flags :: "reg \<Rightarrow> opflags"
  opcode_no :: "opcode \<Rightarrow> nat"
  reg_no :: "reg \<Rightarrow> nat"
  reg_end :: nat
  nasm_rd_reg8 :: "reg list"
  nasm_rd_reg16 :: "reg list"
  nasm_rd_reg32 :: "reg list"
  nasm_rd_sreg :: "reg list"
  nasm_rd_fpureg :: "reg list"
  nasm_rd_mmxreg :: "reg list"
  nasm_rd_xmmreg :: "reg list"
  globalbits :: int

text \<open>What the generator relies on: a register class has as many registers as it draws from.\<close>

definition tables_ok :: "tables \<Rightarrow> bool" where
  "tables_ok T \<longleftrightarrow> 8 \<le> length (nasm_rd_reg8 T) \<and> 8 \<le> length (nasm_rd_reg16 T) \<and>
     8 \<le> length (nasm_rd_reg32 T) \<and> 6 \<le> length (nasm_rd_sreg T) \<and> 8 \<le> length (nasm_rd_fpureg T) \<and>
     8 \<le> length (nasm_rd_mmxreg T) \<and> 8 \<le> length (nasm_rd_xmmreg T)"

subsection \<open>Variables, testing knowledge, the whole state\<close>

record blk_var =
  bv_valid :: bool
  bv_name :: string
  bv_opndflags :: opflags
  bv_var_type :: string
  bv_var_val :: "string option"
  bv_is_mem_opnd :: bool
  bv_has_label :: bool
  bv_init_mem_addr :: "string option"

definition init_blk_var :: "string \<Rightarrow> string \<Rightarrow> blk_var" where
  "init_blk_var name ty = \<lparr>bv_valid = False, bv_name = name, bv_opndflags = 0, bv_var_type = ty,
     bv_var_val = None, bv_is_mem_opnd = False, bv_has_label = False, bv_init_mem_addr = None\<rparr>"

text \<open>
  A block is known by the numbers of itself and its ancestors; \<open>blk_vars\<close> gives the variables of
  the block with a number.  \<open>tk_models\<close> is the hash table of testing knowledge, keyed by
  mnemonic.  The token buffer is the text before \<open>token_bufptr\<close> and the text from it on.
\<close>

record gen =
  pg :: x86pg
  rn :: rng
  tok_done :: string
  tok_rest :: string
  blk_vars :: "nat \<Rightarrow> blk_var list"
  tk_models :: "string \<Rightarrow> wd_root list option"

definition token_buf_size :: nat where
  "token_buf_size = 128"

definition get_token_buf :: "gen \<Rightarrow> string" where
  "get_token_buf g = tok_done g @ tok_rest g"

definition get_token_cbufptr :: "gen \<Rightarrow> gen" where
  "get_token_cbufptr g = g\<lparr>tok_done := ''  '', tok_rest := ''''\<rparr>"

text \<open>Writing the text from \<open>token_bufptr\<close> on; the buffer has 128 bytes with the terminator.\<close>

definition set_token_text :: "string \<Rightarrow> gen \<Rightarrow> gen res" where
  "set_token_text t g =
     (if length (tok_done g) + length t < token_buf_size then Inr (g\<lparr>tok_rest := t\<rparr>) else Inl Undefined)"

text \<open>Running an operation of the program state, with and without random choices.\<close>

definition on_pg :: "(x86pg \<Rightarrow> x86pg res) \<Rightarrow> gen \<Rightarrow> gen res" where
  "on_pg f g = bnd (f (pg g)) (\<lambda>s. Inr (g\<lparr>pg := s\<rparr>))"

definition draw :: "(rng \<Rightarrow> ('a \<times> rng) res) \<Rightarrow> gen \<Rightarrow> ('a \<times> gen) res" where
  "draw f g = bnd (f (rn g)) (\<lambda>(x, r). Inr (x, g\<lparr>rn := r\<rparr>))"

lemma on_pg_Inr: "on_pg f g = Inr g' \<longleftrightarrow> (\<exists>s. f (pg g) = Inr s \<and> g' = g\<lparr>pg := s\<rparr>)"
  by (auto simp: on_pg_def)

lemma draw_Inr: "draw f g = Inr (x, g') \<longleftrightarrow> (\<exists>r. f (rn g) = Inr (x, r) \<and> g' = g\<lparr>rn := r\<rparr>)"
  by (auto simp: draw_def)

subsection \<open>Tables of the 32-bit generator\<close>

text \<open>
  A concrete instance of the tables, for evaluating the definitions: the registers in the order of
  \<open>x86/regs.dat\<close>, and a few words of the token table.
\<close>

definition ia32_regs :: "(string \<times> opflags) list" where
  "ia32_regs = [(''al'', REG_AL), (''ax'', REG_AX), (''eax'', REG_EAX), (''cl'', REG_CL), (''cx'', REG_CX),
     (''ecx'', REG_ECX), (''dl'', REG_DL), (''dx'', REG_DX), (''edx'', REG_EDX), (''bl'', REG8NA),
     (''bx'', REG16NA), (''ebx'', REG32NA), (''esi'', REG32NA), (''edi'', REG32NA), (''es'', REG_ES),
     (''cs'', REG_CS), (''ss'', REG_SS), (''ds'', REG_DS), (''fs'', REG_FS), (''gs'', REG_GS)]"

definition ia32_insns :: "string list" where
  "ia32_insns = [''add'', ''and'', ''call'', ''div'', ''jmp'', ''jz'', ''loop'', ''mov'', ''movsx'', ''shl'',
     ''addps'', ''fxsave'', ''maskmovdqu'', ''xorpd'']"

definition ia32_opcode_no :: "opcode \<Rightarrow> nat" where
  "ia32_opcode_no opc = (case opc of I_none \<Rightarrow> 0
     | I s \<Rightarrow> Suc (length (takeWhile (\<lambda>x. x \<noteq> s) ia32_insns)))"

definition ia32_reg_no :: "reg \<Rightarrow> nat" where
  "ia32_reg_no r = Suc (length (takeWhile (\<lambda>x. fst x \<noteq> nasm_reg_names r) ia32_regs))"

definition ia32_hash :: "string \<Rightarrow> token" where
  "ia32_hash s =
     (if s \<in> set ia32_insns then TokInsn (I s) 0
      else if s \<in> fst ` set ia32_regs then TokReg (R s)
      else if s \<in> {''byte'', ''word'', ''dword''} then TokSize s
      else TokId s)"

definition ia32_tables :: tables where
  "ia32_tables = \<lparr>nasm_token_hash = ia32_hash, token_brc = (\<lambda>s. False),
     nasm_instructions = (\<lambda>opc. if opc = I ''add''
       then [\<lparr>it_opcode = opc, it_opd = [RM_GPR OR BITS32, REG_GPR OR BITS32, 0, 0, 0]\<rparr>] else []),
     nasm_reg_flags = (\<lambda>r. case map_of ia32_regs (nasm_reg_names r) of Some f \<Rightarrow> f | None \<Rightarrow> 0),
     opcode_no = ia32_opcode_no, reg_no = ia32_reg_no, reg_end = length ia32_regs,
     nasm_rd_reg8 = map R [''al'', ''cl'', ''dl'', ''bl'', ''ah'', ''ch'', ''dh'', ''bh''],
     nasm_rd_reg16 = map R [''ax'', ''cx'', ''dx'', ''bx'', ''sp'', ''bp'', ''si'', ''di''],
     nasm_rd_reg32 = map R [''eax'', ''ecx'', ''edx'', ''ebx'', ''esp'', ''ebp'', ''esi'', ''edi''],
     nasm_rd_sreg = map R [''es'', ''cs'', ''ss'', ''ds'', ''fs'', ''gs'', ''segr6'', ''segr7''],
     nasm_rd_fpureg = map R [''st0'', ''st1'', ''st2'', ''st3'', ''st4'', ''st5'', ''st6'', ''st7''],
     nasm_rd_mmxreg = map R [''mm0'', ''mm1'', ''mm2'', ''mm3'', ''mm4'', ''mm5'', ''mm6'', ''mm7''],
     nasm_rd_xmmreg = map R [''xmm0'', ''xmm1'', ''xmm2'', ''xmm3'', ''xmm4'', ''xmm5'', ''xmm6'', ''xmm7''],
     globalbits = 32\<rparr>"

lemma ia32_tables_ok: "tables_ok ia32_tables"
  by (simp add: tables_ok_def ia32_tables_def)

end
