(* ===== verification/Mem.thy ===== *)
theory Mem
  imports GenState
begin

text \<open>
  Random memory addresses: \<open>engine/mem.c\<close> with \<open>engine/mem.h\<close>.  The properties say that an access
  of up to 128 bytes at a generated address stays inside the data area it was generated for.
\<close>

subsection \<open>Addressing modes\<close>

datatype sib_mode = SIB_MODE_D | SIB_MODE_B | SIB_MODE_BD | SIB_MODE_ISD | SIB_MODE_BID | SIB_MODE_BISD

text \<open>The enumeration in the order of the code: the random mode is drawn by its number.\<close>

instantiation sib_mode :: linorder
begin

definition sib_no :: "sib_mode \<Rightarrow> nat" where
  "sib_no m = (case m of SIB_MODE_D \<Rightarrow> 0 | SIB_MODE_B \<Rightarrow> 1 | SIB_MODE_BD \<Rightarrow> 2 | SIB_MODE_ISD \<Rightarrow> 3
     | SIB_MODE_BID \<Rightarrow> 4 | SIB_MODE_BISD \<Rightarrow> 5)"

definition less_eq_sib_mode :: "sib_mode \<Rightarrow> sib_mode \<Rightarrow> bool" where
  "less_eq_sib_mode a b \<longleftrightarrow> sib_no a \<le> sib_no b"

definition less_sib_mode :: "sib_mode \<Rightarrow> sib_mode \<Rightarrow> bool" where
  "less_sib_mode a b \<longleftrightarrow> sib_no a < sib_no b"

instance
proof
  fix a b :: sib_mode
  show "a \<le> b \<Longrightarrow> b \<le> a \<Longrightarrow> a = b"
    by (cases a; cases b) (simp_all add: less_eq_sib_mode_def sib_no_def)
qed (auto simp: less_eq_sib_mode_def less_sib_mode_def)

end

definition sib_modes :: "sib_mode list" where
  "sib_modes = [SIB_MODE_D, SIB_MODE_B, SIB_MODE_BD, SIB_MODE_ISD, SIB_MODE_BID, SIB_MODE_BISD]"

definition sib_mode_has_base :: "sib_mode \<Rightarrow> bool" where
  "sib_mode_has_base mode \<longleftrightarrow> mode = SIB_MODE_B \<or> mode = SIB_MODE_BD \<or> mode = SIB_MODE_BID \<or> mode = SIB_MODE_BISD"

definition sib_mode_has_index :: "sib_mode \<Rightarrow> bool" where
  "sib_mode_has_index mode \<longleftrightarrow> mode = SIB_MODE_ISD \<or> mode = SIB_MODE_BID \<or> mode = SIB_MODE_BISD"

subsection \<open>Addresses\<close>

definition is_sse :: "tables \<Rightarrow> opcode \<Rightarrow> bool" where
  "is_sse T opc \<longleftrightarrow> opcode_no T (I ''addps'') \<le> opcode_no T opc \<and> opcode_no T opc \<le> opcode_no T (I ''fxsave'')"

definition is_sse2 :: "tables \<Rightarrow> opcode \<Rightarrow> bool" where
  "is_sse2 T opc \<longleftrightarrow> opcode_no T (I ''maskmovdqu'') \<le> opcode_no T opc \<and> opcode_no T opc \<le> opcode_no T (I ''xorpd'')"

definition XMM_MEM_ALIGN_MASK :: int where
  "XMM_MEM_ALIGN_MASK = 0xffffff80"

record random_mem_addr =
  ma_base :: int
  ma_index :: int
  ma_scale :: int
  ma_disp :: int

definition random_mem_addr_from_data ::
  "tables \<Rightarrow> sib_mode \<Rightarrow> x86pg \<Rightarrow> rng \<Rightarrow> (random_mem_addr \<times> rng) res" where
  "random_mem_addr_from_data T mode s r =
     bnd (nasm_random32 (int SECTION_DATA_NUM) r) (\<lambda>(base, r).
     bnd (nasm_random32 3 r) (\<lambda>(e, r).
     let scale = push_bit (nat (e + 1)) 1 in
     bnd (idx (datasizes (data_sec s)) base) (\<lambda>size.
     let data_size = size - 128 in
     bnd (if is_sse T (st_opcode s) \<or> is_sse2 T (st_opcode s)
          then bnd (run_loop (draw_until data_size (\<lambda>x. x \<noteq> 0) r)) (\<lambda>(data_size, r).
               bnd (nasm_random32 data_size r) (\<lambda>(x, r).
               let disp = and x XMM_MEM_ALIGN_MASK;
                   index = and ((data_size - disp) div scale) XMM_MEM_ALIGN_MASK
               in Inr (index, disp, r)))
          else bnd (nasm_random32 (data_size div scale) r) (\<lambda>(index, r).
               Inr (index, data_size - scale * index, r))) (\<lambda>(index, disp, r).
     Inr (\<lparr>ma_base = base, ma_index = index, ma_scale = scale,
            ma_disp = if mode = SIB_MODE_ISD \<or> mode = SIB_MODE_D then base else disp\<rparr>, r)))))"

text \<open>The mask clears the low seven bits of what is no wider than 32 bits.\<close>

lemma mask_eq: "0 \<le> x \<Longrightarrow> x < 2 ^ 32 \<Longrightarrow> and x XMM_MEM_ALIGN_MASK = x - x mod 128"
proof -
  assume x: "0 \<le> x" "x < 2 ^ 32"
  have m: "XMM_MEM_ALIGN_MASK = and (not (mask 7)) (mask 32)"
    by (simp add: XMM_MEM_ALIGN_MASK_def mask_eq_exp_minus_1)
  have "x = take_bit 32 x" using x by (simp add: take_bit_int_eq_self)
  then have high: "n < 32" if "bit x n" for n using that by (metis bit_take_bit_iff)
  have "and x XMM_MEM_ALIGN_MASK = push_bit 7 (drop_bit 7 x)"
    unfolding m by (rule bit_eqI) (auto simp: bit_simps dest: high)
  also have "\<dots> = x div 128 * 128" by (simp add: push_bit_eq_mult drop_bit_eq_div)
  finally show ?thesis using div_mult_mod_eq [of x 128] by linarith
qed

lemma mask_bounds:
  assumes "0 \<le> x" "x < 2 ^ 32"
  shows "0 \<le> and x XMM_MEM_ALIGN_MASK" "and x XMM_MEM_ALIGN_MASK \<le> x" "128 dvd and x XMM_MEM_ALIGN_MASK"
  using assms by (simp_all add: mask_eq minus_mod_eq_mult_div)

subsection \<open>Generated addresses are inside the section\<close>

text \<open>The areas the generator works with: five of them, of equal size.\<close>

definition data_ok :: "x86pg \<Rightarrow> bool" where
  "data_ok s \<longleftrightarrow> datasizes (data_sec s) = replicate SECTION_DATA_NUM 8192"

lemma data_ok_init:
  assumes "length (datasizes (data_sec s)) = SECTION_DATA_NUM"
  shows "data_ok (init_x86pgstate s)" "data_ok (reset_x86pgstate s)"
  using assms by (simp_all add: data_ok_def init_x86pgstate_def reset_x86pgstate_def init_data_sec_def)

definition addr_ok :: "bool \<Rightarrow> random_mem_addr \<Rightarrow> int \<Rightarrow> bool" where
  "addr_ok sse a disp \<longleftrightarrow> 0 \<le> ma_base a \<and> ma_base a < 5 \<and> ma_scale a \<in> {2, 4, 8} \<and>
     0 \<le> ma_index a \<and> 0 \<le> disp \<and> ma_scale a * ma_index a + disp \<le> 8192 - 128 \<and>
     (sse \<longrightarrow> 128 dvd ma_index a \<and> 128 dvd disp)"

definition sse_op :: "tables \<Rightarrow> x86pg \<Rightarrow> bool" where
  "sse_op T s \<longleftrightarrow> is_sse T (st_opcode s) \<or> is_sse2 T (st_opcode s)"

definition gives_addr :: "tables \<Rightarrow> sib_mode \<Rightarrow> x86pg \<Rightarrow> random_mem_addr \<Rightarrow> bool" where
  "gives_addr T mode s a \<longleftrightarrow> (\<exists>disp. addr_ok (sse_op T s) a disp \<and>
     ma_disp a = (if mode = SIB_MODE_ISD \<or> mode = SIB_MODE_D then ma_base a else disp))"

lemma scale_cases: "0 \<le> e \<Longrightarrow> e < 3 \<Longrightarrow> (2::int) ^ nat (e + 1) \<in> {2, 4, 8}"
proof -
  assume "0 \<le> e" "e < 3"
  then have "e = 0 \<or> e = 1 \<or> e = 2" by linarith
  then show ?thesis by (elim disjE) simp_all
qed

lemma idx_data: "data_ok s \<Longrightarrow> 0 \<le> b \<Longrightarrow> b < 5 \<Longrightarrow> idx (datasizes (data_sec s)) b = Inr 8192"
  by (auto simp: data_ok_def idx_def SECTION_DATA_NUM_def)

lemma random_mem_addr_plain:
  assumes "data_ok s" "\<not> sse_op T s"
  shows "\<exists>a. random_mem_addr_from_data T mode s r = Inr (a, stl (stl (stl r))) \<and> gives_addr T mode s a"
proof -
  define base where "base = draw_no 5 0 r"
  define e where "e = draw_no 3 0 (stl r)"
  define scale where "scale = (2::int) ^ nat (e + 1)"
  define index where "index = draw_no (8064 div scale) 0 (stl (stl r))"
  have base: "0 \<le> base" "base < 5" and e: "0 \<le> e" "e < 3"
    using draw_no_range [of 5 0 r] draw_no_range [of 3 0 "stl r"] by (simp_all add: base_def e_def)
  have scale: "scale \<in> {2, 4, 8}" using scale_cases [OF e] by (simp add: scale_def)
  then have ne: "8064 div scale \<noteq> 0" by auto
  then have index: "0 \<le> index" "index < 8064 div scale"
    using draw_no_range [OF ne, of 0 "stl (stl r)"] scale by (auto simp: index_def)
  have size: "idx (datasizes (data_sec s)) base = Inr 8192"
    using base by (rule idx_data [OF assms(1)])
  let ?a = "\<lparr>ma_base = base, ma_index = index, ma_scale = scale,
     ma_disp = if mode = SIB_MODE_ISD \<or> mode = SIB_MODE_D then base else 8064 - scale * index\<rparr>"
  have "random_mem_addr_from_data T mode s r = Inr (?a, stl (stl (stl r)))"
    using assms(2) size nasm_random32_draw [of 5 r] nasm_random32_draw [of 3 "stl r"]
      nasm_random32_draw [OF ne, of "stl (stl r)"]
    by (simp add: random_mem_addr_from_data_def SECTION_DATA_NUM_def sse_op_def Let_def
        flip: base_def e_def scale_def index_def)
  moreover have "scale * index \<le> 8064" using index scale by auto
  then have "gives_addr T mode s ?a"
    using base scale index assms(2) by (auto simp: gives_addr_def addr_ok_def intro!: exI [of _ "8064 - scale * index"])
  ultimately show ?thesis by blast
qed

lemma random_mem_addr_sse:
  assumes "data_ok s" "sse_op T s" "run_loop (draw_until 8064 (\<lambda>x. x \<noteq> 0) (stl (stl r))) = Inr (room, r2)"
  shows "\<exists>a. random_mem_addr_from_data T mode s r = Inr (a, stl r2) \<and> gives_addr T mode s a"
proof -
  define base where "base = draw_no 5 0 r"
  define e where "e = draw_no 3 0 (stl r)"
  define scale where "scale = (2::int) ^ nat (e + 1)"
  define x where "x = draw_no room 0 r2"
  define disp where "disp = and x XMM_MEM_ALIGN_MASK"
  define index where "index = and ((room - disp) div scale) XMM_MEM_ALIGN_MASK"
  have base: "0 \<le> base" "base < 5" and e: "0 \<le> e" "e < 3"
    using draw_no_range [of 5 0 r] draw_no_range [of 3 0 "stl r"] by (simp_all add: base_def e_def)
  have scale: "scale \<in> {2, 4, 8}" using scale_cases [OF e] by (simp add: scale_def)
  have room: "room \<noteq> 0" "0 \<le> room" "room < 8064"
    using draw_until_result [OF assms(3) [unfolded run_loop_Inr]] by simp_all
  have x: "0 \<le> x" "x < room" using draw_no_range [OF room(1), of 0 r2] room(2) by (simp_all add: x_def)
  have disp: "0 \<le> disp" "disp \<le> x" "128 dvd disp" using mask_bounds [of x] x room by (simp_all add: disp_def)
  have q: "0 \<le> (room - disp) div scale" "(room - disp) div scale \<le> room - disp" "scale * ((room - disp) div scale) \<le> room - disp"
    using disp x scale by auto
  then have index: "0 \<le> index" "index \<le> (room - disp) div scale" "128 dvd index"
    using mask_bounds [of "(room - disp) div scale"] room disp by (simp_all add: index_def)
  have at: "idx (datasizes (data_sec s)) base = Inr 8192"
    using base by (rule idx_data [OF assms(1)])
  let ?a = "\<lparr>ma_base = base, ma_index = index, ma_scale = scale,
     ma_disp = if mode = SIB_MODE_ISD \<or> mode = SIB_MODE_D then base else disp\<rparr>"
  have "random_mem_addr_from_data T mode s r = Inr (?a, stl r2)"
    using assms(2,3) at nasm_random32_draw [of 5 r] nasm_random32_draw [of 3 "stl r"]
      nasm_random32_draw [OF room(1), of r2]
    by (simp add: random_mem_addr_from_data_def SECTION_DATA_NUM_def sse_op_def Let_def
        flip: base_def e_def scale_def x_def disp_def index_def)
  moreover have "scale * index \<le> scale * ((room - disp) div scale)" using index scale by auto
  then have "scale * index + disp \<le> 8064" using q room by linarith
  then have "gives_addr T mode s ?a"
    using base scale index disp by (auto simp: gives_addr_def addr_ok_def intro!: exI [of _ disp])
  ultimately show ?thesis by blast
qed

text \<open>
  C29: A generated address lies in one of the five data areas with at least 128 bytes to its end:
  scaled index plus displacement stay between 0 and 8064, and for an SSE instruction both are
  multiples of 128.  Nothing stops the generation of an address; it goes on for ever exactly when
  it is for an SSE instruction and every further draw is a multiple of 8064.
\<close>

theorem memory_address_in_section:
  assumes "data_ok s"
  shows "if sse_op T s \<and> (\<forall>n. draw_no 8064 n (stl (stl r)) = 0)
         then random_mem_addr_from_data T mode s r = Inl Diverges
         else \<exists>a r'. random_mem_addr_from_data T mode s r = Inr (a, r') \<and> gives_addr T mode s a"
proof (cases "sse_op T s")
  case False
  then show ?thesis using random_mem_addr_plain [OF assms False, of mode r] by auto
next
  case True
  let ?loop = "run_loop (draw_until 8064 (\<lambda>x. x \<noteq> 0) (stl (stl r)))"
  show ?thesis
  proof (cases "\<forall>n. draw_no 8064 n (stl (stl r)) = 0")
    case all: True
    have "?loop = Inl Diverges" using all draw_until_never by simp
    moreover have "idx (datasizes (data_sec s)) (draw_no 5 0 r) = Inr 8192"
      using draw_no_range [of 5 0 r] by (intro idx_data [OF assms]) simp_all
    ultimately show ?thesis using True all
      by (simp add: random_mem_addr_from_data_def SECTION_DATA_NUM_def sse_op_def Let_def nasm_random32_draw)
  next
    case False
    then obtain room r2 where "?loop = Inr (room, r2)"
      using draw_until_iff [of 8064 "\<lambda>x. x \<noteq> 0" "stl (stl r)"] by auto
    then show ?thesis using random_mem_addr_sse [OF assms True] False by metis
  qed
qed

theorem memory_address_in_section_witness:
  "let s = reset_x86pgstate zero_x86pgstate in
   data_ok s \<and> (\<exists>a r'. random_mem_addr_from_data ia32_tables SIB_MODE_BISD s (sconst 77) = Inr (a, r') \<and>
     gives_addr ia32_tables SIB_MODE_BISD s a)"
proof -
  have ok: "data_ok (reset_x86pgstate zero_x86pgstate)"
    by (intro data_ok_init) (simp add: zero_x86pgstate_def zero_sec_def)
  have "\<not> sse_op ia32_tables (reset_x86pgstate zero_x86pgstate)"
    by (simp add: sse_op_def is_sse_def is_sse2_def ia32_tables_def reset_x86pgstate_def ia32_opcode_no_def ia32_insns_def)
  then show ?thesis
    using ok memory_address_in_section [OF ok, of ia32_tables "sconst 77" SIB_MODE_BISD] by (simp add: Let_def)
qed

end
