(* ===== verification/Seeds.thy ===== *)
theory Seeds
  imports GenState
begin

text \<open>
  What an operand or an instruction is to be generated from: \<open>engine/asmlib.c\<close>, \<open>engine/seed.c\<close>,
  the variable lookup of \<open>engine/tmplt.c\<close>, and the testing knowledge of \<open>engine/tk.c\<close>.
\<close>

subsection \<open>Operand texts\<close>

definition opnd_ids :: "(string \<times> opflags) list" where
  "opnd_ids =
     [(''reg'', REG_GPR), (''mem'', MEMORY), (''memory_offs'', MEM_OFFS), (''imm'', IMMEDIATE),
      (''rm'', RM_GPR), (''unity'', UNITY), (''sbyteword'', SBYTEWORD), (''sbytedword'', SBYTEDWORD),
      (''reg_sreg'', REG_SREG), (''reg_creg'', REG_CREG), (''reg_dreg'', REG_DREG),
      (''fpureg'', FPUREG), (''fpu'', FPU0), (''mmxreg'', MMXREG),
      (''mmxmem'', MEMORY OR REG_CLASS_RM_MMX), (''mmxrm'', RM_MMX), (''xmmreg'', XMMREG),
      (''xmmmem'', MEMORY OR REG_CLASS_RM_XMM)]"

definition size_flag :: "64 word \<Rightarrow> opflags" where
  "size_flag n =
     (if n = 8 then BITS8 else if n = 16 then BITS16 else if n = 32 then BITS32
      else if n = 64 then BITS64 else if n = 80 then BITS80 else if n = 128 then BITS128
      else if n = 256 then BITS256 else if n = 512 then BITS512 else 0)"

text \<open>The identifier is copied to a buffer of 128 bytes; the size is read at 64 bits.\<close>

definition parse_asm_opnd_type_opflags :: "string \<Rightarrow> opflags res" where
  "parse_asm_opnd_type_opflags asm_opnd =
     (let opnd_id = takeWhile (\<lambda>c. \<not> is_dec c) asm_opnd;
          digits = takeWhile is_dec (dropWhile (\<lambda>c. \<not> is_dec c) asm_opnd);
          opnd_size = foldl (\<lambda>n c. n * 10 + of_char c - 48) (0 :: 64 word) digits
      in bnd (guard_res (length opnd_id < 128) Undefined) (\<lambda>_.
         Inr (case map_of opnd_ids opnd_id of None \<Rightarrow> 0 | Some f \<Rightarrow> f OR size_flag opnd_size)))"

definition parse_asm_opnd_opflags :: "tables \<Rightarrow> string \<Rightarrow> opflags" where
  "parse_asm_opnd_opflags T asm_opnd =
     (case nasm_token_hash T asm_opnd of TokReg r \<Rightarrow> nasm_reg_flags T r | _ \<Rightarrow> 0)"

definition asm_is_blank :: "string option \<Rightarrow> bool" where
  "asm_is_blank asm_opnd =
     (case nasm_skip_spaces asm_opnd of None \<Rightarrow> False
      | Some p \<Rightarrow> (case p of [] \<Rightarrow> True | c # _ \<Rightarrow> code c = 10))"

definition asm_is_immediate :: "string option \<Rightarrow> bool res" where
  "asm_is_immediate asm_opnd =
     (case nasm_skip_spaces asm_opnd of None \<Rightarrow> Inr False
      | Some p \<Rightarrow>
          if p \<noteq> [] \<and> nasm_isnumstart (hd p) then Inr True
          else bnd (parse_asm_opnd_type_opflags p) (\<lambda>f. Inr (is_class IMMEDIATE f)))"

definition copy_asm_opnd :: "string \<Rightarrow> nat \<times> string" where
  "copy_asm_opnd src =
     (let dst = takeWhile (\<lambda>c. code c \<noteq> 10 \<and> c \<noteq> CHR '','') src in (length dst, dst))"

definition parse_asm_opcode :: "tables \<Rightarrow> string \<Rightarrow> opcode res" where
  "parse_asm_opcode T asm_opcode =
     (case nasm_token_hash T asm_opcode of TokInsn opc _ \<Rightarrow> Inr opc | _ \<Rightarrow> Inl Undefined)"

subsection \<open>Seeds\<close>

record operand_seed =
  is_var :: bool
  is_opnd_type :: bool
  has_label :: bool
  opndflags :: opflags

record insn_seed =
  seed_opcode :: opcode
  seed_opd :: "opflags list"

definition init_opnd_seed :: operand_seed where
  "init_opnd_seed = \<lparr>is_var = False, is_opnd_type = False, has_label = False, opndflags = 0\<rparr>"

definition itemplate_size :: "itemplate list \<Rightarrow> int" where
  "itemplate_size itmplt = int (length (takeWhile (\<lambda>t. it_opcode t \<noteq> I_none) itmplt))"

definition create_insn_seed :: "tables \<Rightarrow> string \<Rightarrow> rng \<Rightarrow> (insn_seed \<times> rng) res" where
  "create_insn_seed T instname r =
     bnd (parse_asm_opcode T instname) (\<lambda>opc.
     let itmplt = nasm_instructions T opc in
     bnd (nasm_random32 (itemplate_size itmplt) r) (\<lambda>(operandsi, r).
     bnd (idx itmplt operandsi) (\<lambda>t. Inr (\<lparr>seed_opcode = opc, seed_opd = it_opd t\<rparr>, r))))"

text \<open>
  The address of a variable is its block and its index there; a block's ancestors follow it in the
  list that stands for it.
\<close>

fun find_var :: "blk_var list \<Rightarrow> string \<Rightarrow> nat \<Rightarrow> nat option" where
  "find_var [] name i = None"
| "find_var (v # vs) name i = (if bv_name v = name then Some i else find_var vs name (Suc i))"

fun blk_search_var :: "(nat \<Rightarrow> blk_var list) \<Rightarrow> nat list \<Rightarrow> string \<Rightarrow> (nat \<times> nat) option" where
  "blk_search_var vars [] var_name = None"
| "blk_search_var vars (b # parents) var_name =
     (case dropWhile nasm_isspace var_name of
        [] \<Rightarrow> None
      | c # name \<Rightarrow>
          if c \<noteq> CHR ''@'' then None
          else (case find_var (vars b) name 0 of
                  Some i \<Rightarrow> Some (b, i)
                | None \<Rightarrow> blk_search_var vars parents (c # name)))"

definition create_opnd_seed :: "tables \<Rightarrow> string option \<Rightarrow> operand_seed \<Rightarrow> gen \<Rightarrow> operand_seed res" where
  "create_opnd_seed T asm_opnd seed g =
     (case asm_opnd of None \<Rightarrow> Inr seed
      | Some opnd \<Rightarrow>
          if opnd \<noteq> [] \<and> hd opnd = CHR ''@'' then
            (case blk_search_var (blk_vars g) (curr_blk (pg g)) opnd of
               None \<Rightarrow> Inl Fatal
             | Some (b, i) \<Rightarrow>
                 let var = blk_vars g b ! i; seed = seed\<lparr>is_var := True\<rparr> in
                 if \<not> bv_valid var
                 then bnd (parse_asm_opnd_type_opflags (bv_var_type var)) (\<lambda>f. Inr (seed\<lparr>opndflags := f\<rparr>))
                 else Inr seed)
          else bnd (parse_asm_opnd_type_opflags opnd) (\<lambda>f.
            if f \<noteq> 0 then Inr (seed\<lparr>opndflags := f, is_opnd_type := True\<rparr>)
            else Inr (seed\<lparr>opndflags := parse_asm_opnd_opflags T opnd\<rparr>)))"

subsection \<open>Testing knowledge\<close>

definition get_implied_operands_num :: "opcode \<Rightarrow> int" where
  "get_implied_operands_num opc =
     (if opc \<in> set (map I [''div'', ''idiv'', ''cmpxchg'', ''cbw'', ''cwde'', ''cwd'', ''cdq'', ''popf'',
        ''jcxz'', ''jecxz'']) then 1 else -1)"

definition adjust_operands_num :: "opcode \<Rightarrow> int" where
  "adjust_operands_num opc =
     (if opc \<in> set (map I
        [''fadd'', ''faddp'', ''fiadd'', ''fcmovb'', ''fcmovbe'', ''fcmove'', ''fcmovnb'', ''fcmovnbe'',
         ''fcmovne'', ''fcmovnu'', ''fcmovu'', ''fcom'', ''fcomp'', ''fcompp'', ''fcomi'', ''fcomip'',
         ''fucomi'', ''fucomip'', ''fdiv'', ''fdivp'', ''fidiv'', ''fdivr'', ''fdivrp'', ''fidivr'',
         ''fmul'', ''fmulp'', ''fimul'', ''fprem'', ''fprem1'', ''fpatan'', ''fscale'', ''fsub'', ''fsubp'',
         ''fisub'', ''fsubr'', ''fsubrp'', ''fisubr'', ''fyl2x'', ''fyl2xp1'', ''fxch'', ''fucom'',
         ''fucomp'', ''fucompp'', ''ficom'', ''ficomp'']) then 2
      else if opc \<in> set (map I
        [''fabs'', ''fchs'', ''fcos'', ''ftst'', ''fsin'', ''fsincos'', ''fptan'', ''frndint'', ''fxtract'',
         ''fild'', ''f2xm1'']) then 1
      else -1)"

definition get_tkm_from_hashtbl :: "string \<Rightarrow> gen \<Rightarrow> wd_root list res" where
  "get_tkm_from_hashtbl op_name g = deref (tk_models g op_name)"

text \<open>The trees a traversal goes through: one for every operand, written or implied.\<close>

definition create_trv_state :: "tables \<Rightarrow> string \<Rightarrow> gen \<Rightarrow> wd_root list res" where
  "create_trv_state T asm_inst g =
     (let stops = (\<lambda>c. c = CHR '' '' \<or> code c = 10);
          asm_opcode = takeWhile (\<lambda>c. \<not> stops c) asm_inst;
          rest = takeWhile (\<lambda>c. code c \<noteq> 10) (dropWhile (\<lambda>c. \<not> stops c) asm_inst)
      in bnd (guard_res (length asm_opcode < 128) Undefined) (\<lambda>_.
         bnd (parse_asm_opcode T asm_opcode) (\<lambda>opc.
         bnd (get_tkm_from_hashtbl asm_opcode g) (\<lambda>tk_trees.
         case tk_trees of
           [tk_tree] \<Rightarrow>
             let first = (if rest = [] then 0 else 1);
                 others = length (filter (\<lambda>c. c = CHR '','') rest);
                 opi = first + others;
                 adjusted = nat (adjust_operands_num opc - int opi);
                 implied = nat (get_implied_operands_num opc)
             in Inr (replicate (opi + adjusted + implied) tk_tree)
         | [] \<Rightarrow> Inl Undefined
         | _ \<Rightarrow> Inr tk_trees))))"

definition request_val_node :: "string \<Rightarrow> int \<Rightarrow> gen \<Rightarrow> (const_node option \<times> gen) res" where
  "request_val_node op_name n g =
     bnd (get_tkm_from_hashtbl op_name g) (\<lambda>tk_trees.
     bnd (idx tk_trees (if length tk_trees = 1 then 0 else n)) (\<lambda>tk_tree.
     draw (wdtree_select_leaf_node tk_tree) g))"

fun select_nodes :: "nat \<Rightarrow> wd_root \<Rightarrow> rng \<Rightarrow> (const_node option list \<times> rng) res" where
  "select_nodes 0 tk_tree r = Inr ([], r)"
| "select_nodes (Suc n) tk_tree r =
     bnd (wdtree_select_leaf_node tk_tree r) (\<lambda>(c, r).
     bnd (select_nodes n tk_tree r) (\<lambda>(cs, r). Inr (c # cs, r)))"

definition request_packed_val_node :: "string \<Rightarrow> int \<Rightarrow> gen \<Rightarrow> (const_node option list \<times> gen) res" where
  "request_packed_val_node op_name n g =
     bnd (get_tkm_from_hashtbl op_name g) (\<lambda>tk_trees.
     bnd (idx tk_trees (if length tk_trees = 1 then 0 else n)) (\<lambda>tk_tree.
     draw (select_nodes (nat (packedn tk_tree)) tk_tree) g))"

text \<open>The constants of the enclosing traversal, when there is one.\<close>

definition request_packed_trv_node :: "int \<Rightarrow> x86pg \<Rightarrow> const_node list option res" where
  "request_packed_trv_node n s =
     (case trv_nodes s of None \<Rightarrow> Inr None | Some nodes \<Rightarrow> bnd (idx nodes n) (\<lambda>vs. Inr (Some vs)))"

definition request_trv_node :: "int \<Rightarrow> x86pg \<Rightarrow> const_node option res" where
  "request_trv_node n s =
     (case trv_nodes s of None \<Rightarrow> Inr None
      | Some nodes \<Rightarrow> bnd (idx nodes n) (\<lambda>vs. bnd (idx vs 0) (\<lambda>v. Inr (Some v))))"

subsection \<open>What the lookups find\<close>

lemma find_var_Some:
  "find_var vs name i = Some k \<longleftrightarrow>
     i \<le> k \<and> k - i < length vs \<and> bv_name (vs ! (k - i)) = name \<and> (\<forall>j < k - i. bv_name (vs ! j) \<noteq> name)"
proof (induction vs arbitrary: i)
  case (Cons v vs)
  show ?case
  proof (cases "bv_name v = name")
    case True
    then show ?thesis by (auto simp: nth_Cons split: nat.splits)
  next
    case False
    have "(i \<le> k \<and> k - i < length (v # vs) \<and> bv_name ((v # vs) ! (k - i)) = name \<and>
        (\<forall>j < k - i. bv_name ((v # vs) ! j) \<noteq> name)) \<longleftrightarrow>
      (Suc i \<le> k \<and> k - Suc i < length vs \<and> bv_name (vs ! (k - Suc i)) = name \<and>
        (\<forall>j < k - Suc i. bv_name (vs ! j) \<noteq> name))"
    proof (cases "i < k")
      case True
      then obtain d where d: "k = Suc (i + d)" by (auto simp: less_iff_Suc_add)
      show ?thesis unfolding d using False by (auto simp: All_less_Suc2)
    next
      case n: False
      then show ?thesis using False by (cases "k = i") auto
    qed
    then show ?thesis using False Cons.IH [of "Suc i"] by simp
  qed
qed simp

lemma find_var_None: "find_var vs name i = None \<longleftrightarrow> name \<notin> bv_name ` set vs"
  by (induction vs arbitrary: i) auto

text \<open>The variable found is one of the block or of an ancestor, by the name after the sign.\<close>

lemma blk_search_var_Some:
  "blk_search_var vars bs s = Some (b, i) \<Longrightarrow>
     b \<in> set bs \<and> i < length (vars b) \<and>
     (\<exists>name. dropWhile nasm_isspace s = CHR ''@'' # name \<and> bv_name (vars b ! i) = name)"
proof (induction bs arbitrary: s)
  case (Cons b' bs)
  obtain c name where s: "dropWhile nasm_isspace s = c # name" "c = CHR ''@''"
    using Cons.prems by (auto split: list.splits if_splits)
  show ?case
  proof (cases "find_var (vars b') name 0")
    case None
    then have "blk_search_var vars bs (c # name) = Some (b, i)" using Cons.prems s by simp
    from Cons.IH [OF this] obtain nm where "b \<in> set bs" "i < length (vars b)"
      "dropWhile nasm_isspace (c # name) = CHR ''@'' # nm" "bv_name (vars b ! i) = nm" by blast
    moreover have "\<not> nasm_isspace c" using s(2) by (simp add: nasm_isspace_iff)
    ultimately show ?thesis using s by simp
  next
    case (Some k)
    then have "k < length (vars b')" "bv_name (vars b' ! k) = name"
      using find_var_Some [of "vars b'" name 0 k] by simp_all
    moreover have "b = b'" "i = k" using Cons.prems s Some by simp_all
    ultimately show ?thesis using s by simp
  qed
qed simp

lemma blk_search_var_None:
  "dropWhile nasm_isspace s = CHR ''@'' # name \<Longrightarrow>
     blk_search_var vars bs s = None \<longleftrightarrow> (\<forall>b \<in> set bs. name \<notin> bv_name ` set (vars b))"
proof (induction bs arbitrary: s)
  case (Cons b bs)
  have "dropWhile nasm_isspace (CHR ''@'' # name) = CHR ''@'' # name" by (simp add: nasm_isspace_iff)
  from Cons.IH [OF this] Cons.prems show ?case
    using find_var_None [of "vars b" name 0] by (cases "find_var (vars b) name 0") auto
qed simp

lemma select_nodes_length: "select_nodes n t r = Inr (cs, r') \<Longrightarrow> length cs = n"
  by (induction n arbitrary: cs r r') auto

end
