(* ===== verification/Operand.thy ===== *)
theory Operand
  imports Mem Seeds Ctrl
begin

text \<open>
  Generating operands: \<open>engine/operand.c\<close>.  An operation returns the text it writes to its
  buffer, together with the seed and the state where it changes them; the calls of
  \<open>dfmt->print\<close>, a log, are left out.
\<close>

subsection \<open>Registers\<close>

definition create_specific_register :: "reg \<Rightarrow> string" where
  "create_specific_register r = nasm_reg_names r"

text \<open>Control registers are given up at once: the function returns false and writes nothing.\<close>

definition create_control_register :: "string option" where
  "create_control_register = None"

text \<open>The part the register classes share: a random one of the table of the class.\<close>

definition random_reg :: "tables \<Rightarrow> opflags \<Rightarrow> reg list \<Rightarrow> rng \<Rightarrow> (reg \<times> rng) res" where
  "random_reg T f regs r =
     bnd (reg_random_range (globalbits T) f) (\<lambda>n.
     bnd (nasm_random32 n r) (\<lambda>(i, r).
     bnd (idx regs i) (\<lambda>reg. Inr (reg, r))))"

definition create_segment_register :: "tables \<Rightarrow> rng \<Rightarrow> (string \<times> rng) res" where
  "create_segment_register T r =
     bnd (random_reg T REG_SREG (nasm_rd_sreg T) r) (\<lambda>(sreg, r). Inr (nasm_reg_names sreg, r))"

definition create_fpu_register :: "tables \<Rightarrow> operand_seed \<Rightarrow> rng \<Rightarrow> (string \<times> rng) res" where
  "create_fpu_register T seed r =
     bnd (random_reg T (opndflags seed) (nasm_rd_fpureg T) r) (\<lambda>(reg, r). Inr ('' '' @ nasm_reg_names reg, r))"

definition create_mmx_register :: "tables \<Rightarrow> operand_seed \<Rightarrow> rng \<Rightarrow> (string \<times> rng) res" where
  "create_mmx_register T seed r =
     bnd (random_reg T (opndflags seed) (nasm_rd_mmxreg T) r) (\<lambda>(reg, r). Inr ('' '' @ nasm_reg_names reg, r))"

definition create_xmm_register :: "tables \<Rightarrow> operand_seed \<Rightarrow> rng \<Rightarrow> (string \<times> rng) res" where
  "create_xmm_register T seed r =
     bnd (random_reg T (opndflags seed) (nasm_rd_xmmreg T) r) (\<lambda>(reg, r). Inr ('' '' @ nasm_reg_names reg, r))"

text \<open>
  A general register is drawn again while it is locked.  For another size than the three listed
  the variable of the code is never assigned.
\<close>

definition gpr_regs :: "tables \<Rightarrow> opflags \<Rightarrow> reg list option" where
  "gpr_regs T f =
     (if size_mask f = BITS8 then Some (nasm_rd_reg8 T)
      else if size_mask f = BITS16 then Some (nasm_rd_reg16 T)
      else if size_mask f = BITS32 then Some (nasm_rd_reg32 T)
      else None)"

definition create_gpr_register :: "tables \<Rightarrow> operand_seed \<Rightarrow> x86pg \<Rightarrow> rng \<Rightarrow> (string \<times> rng) res" where
  "create_gpr_register T seed s r =
     bnd (reg_random_range (globalbits T) (opndflags seed)) (\<lambda>gprn.
     bnd (deref (gpr_regs T (opndflags seed))) (\<lambda>regs.
     bnd (guard_res (nat gprn \<le> length regs) Undefined) (\<lambda>_.
     bnd (run_loop (draw_until gprn (\<lambda>i. \<not> stat_reg_locked (regs ! nat i) s) r)) (\<lambda>(gpri, r).
     Inr (nasm_reg_names (regs ! nat gpri), r)))))"

subsection \<open>Immediates\<close>

definition RAND_BITS8_BND :: int where "RAND_BITS8_BND = 0x10000"
definition RAND_BITS16_BND :: int where "RAND_BITS16_BND = 0x10000"
definition RAND_BITS32_BND :: int where "RAND_BITS32_BND = 0x100000000"

text \<open>The text \<open>0x%x\<close> of an int is that of its low 32 bits.\<close>

definition hex_text :: "int \<Rightarrow> string" where
  "hex_text i = ''0x'' @ fmt_x (word_of_int i)"

definition create_unity :: "operand_seed \<Rightarrow> rng \<Rightarrow> (string \<times> rng) res" where
  "create_unity seed r =
     (let opndsize = size_mask (opndflags seed) in
      bnd (deref (if opndsize = BITS8 then Some 8 else if opndsize = BITS16 then Some 16
                  else if opndsize = BITS32 then Some 32 else None)) (\<lambda>shiftCount.
      bnd (nasm_random32 (shiftCount + 1) r) (\<lambda>(unity, r). Inr (hex_text unity, r))))"

definition create_sbyteword :: "rng \<Rightarrow> (string \<times> rng) res" where
  "create_sbyteword r = bnd (nasm_random32 RAND_BITS16_BND r) (\<lambda>(x, r). Inr (hex_text x, r))"

definition create_sbytedword :: "rng \<Rightarrow> (string \<times> rng) res" where
  "create_sbytedword r = bnd (nasm_random64 RAND_BITS32_BND r) (\<lambda>(x, r). Inr (hex_text x, r))"

definition create_immediate :: "operand_seed \<Rightarrow> rng \<Rightarrow> (string \<times> rng) res" where
  "create_immediate seed r =
     (let f = size_mask (opndflags seed) in
      bnd (if f = BITS8 then Inr RAND_BITS8_BND else if f = BITS16 then Inr RAND_BITS16_BND
           else if f = BITS32 then Inr RAND_BITS32_BND else Inl Fatal) (\<lambda>immn.
      bnd (nasm_random64 immn r) (\<lambda>(imm, r). Inr (hex_text imm, r))))"

subsection \<open>Memory operands\<close>

definition modrm_regs :: "reg list" where
  "modrm_regs = map R [''eax'', ''ecx'', ''edx'', ''ebx'', ''esi'', ''edi'']"

definition draw_free_reg :: "x86pg \<Rightarrow> rng \<Rightarrow> (reg \<times> rng) res" where
  "draw_free_reg s r =
     bnd (run_loop (draw_until 6 (\<lambda>i. \<not> stat_reg_locked (modrm_regs ! nat i) s) r)) (\<lambda>(i, r).
     Inr (modrm_regs ! nat i, r))"

definition modrm_text :: "sib_mode \<Rightarrow> random_mem_addr \<Rightarrow> string \<Rightarrow> string \<Rightarrow> string" where
  "modrm_text mode a base_reg index_reg =
     (case mode of
        SIB_MODE_D \<Rightarrow> ''[data'' @ fmt_d (ma_base a) @ '']''
      | SIB_MODE_B \<Rightarrow> ''['' @ base_reg @ '']''
      | SIB_MODE_BD \<Rightarrow> ''['' @ base_reg @ '' + '' @ hex_text (ma_disp a) @ '']''
      | SIB_MODE_ISD \<Rightarrow> ''['' @ index_reg @ ''*'' @ fmt_d (ma_scale a) @ '' + data'' @ fmt_d (ma_base a) @ '']''
      | SIB_MODE_BID \<Rightarrow> ''['' @ base_reg @ '' + '' @ index_reg @ '' + '' @ hex_text (ma_disp a) @ '']''
      | SIB_MODE_BISD \<Rightarrow> ''['' @ base_reg @ '' + '' @ index_reg @ ''*'' @ fmt_d (ma_scale a) @ '' + ''
          @ hex_text (ma_disp a) @ '']'')"

definition choose_mode :: "operand_seed \<Rightarrow> gen \<Rightarrow> (sib_mode \<times> gen) res" where
  "choose_mode seed g =
     (if is_class MEM_OFFS (opndflags seed) then Inr (SIB_MODE_D, g)
      else bnd (draw (nasm_random32 6) g) (\<lambda>(m, g). bnd (idx sib_modes m) (\<lambda>mode. Inr (mode, g))))"

text \<open>
  The two instructions that set up the registers go to \<open>init_mem_addr\<close>, the operand to the buffer.
  The base register is locked while the index register is drawn.
\<close>

definition create_random_modrm ::
  "tables \<Rightarrow> operand_seed \<Rightarrow> gen \<Rightarrow> (string \<times> operand_seed \<times> gen) res" where
  "create_random_modrm T seed g =
     bnd (choose_mode seed g) (\<lambda>(mode, g).
     bnd (draw (random_mem_addr_from_data T mode (pg g)) g) (\<lambda>(a, g).
     bnd (if sib_mode_has_base mode
          then bnd (draw (draw_free_reg (pg g)) g) (\<lambda>(basereg, g).
               Inr (nasm_reg_names basereg,
                    ''  lea '' @ nasm_reg_names basereg @ '', data'' @ fmt_d (ma_base a),
                    g\<lparr>pg := stat_lock_reg basereg LOCK_REG_CASE_MEM (pg g)\<rparr>))
          else Inr ('''', '''', g)) (\<lambda>(base_reg, init, g).
     bnd (if sib_mode_has_index mode
          then bnd (draw (draw_free_reg (pg g)) g) (\<lambda>(indexreg, g).
               Inr (nasm_reg_names indexreg,
                    init @ (if sib_mode_has_base mode then [CHR 0x0A] else '''') @ ''  mov ''
                         @ nasm_reg_names indexreg @ '', '' @ hex_text (ma_index a), g))
          else Inr ('''', init, g)) (\<lambda>(index_reg, init, g).
     let s = stat_unlock_reg LOCK_REG_CASE_MEM (pg g);
         s = s\<lparr>init_mem_addr := init, has_mem_opnd := has_mem_opnd s \<or> mode \<noteq> SIB_MODE_D\<rparr>;
         seed = seed\<lparr>has_label := has_label seed \<or> mode = SIB_MODE_D \<or> mode = SIB_MODE_ISD\<rparr>
     in Inr (modrm_text mode a base_reg index_reg, seed, g\<lparr>pg := s\<rparr>)))))"

definition create_memory :: "tables \<Rightarrow> operand_seed \<Rightarrow> gen \<Rightarrow> (string \<times> operand_seed \<times> gen) res" where
  "create_memory T seed g =
     (if globalbits T = 16 then Inl Fatal else create_random_modrm T seed g)"

text \<open>The size keyword in front of a memory operand: inserted at the start of the text.\<close>

definition mem_size_word :: "opflags \<Rightarrow> string" where
  "mem_size_word opndsize =
     (if opndsize = BITS8 then ''byte '' else if opndsize = BITS16 then ''word ''
      else if opndsize = BITS32 then ''dword '' else if opndsize = BITS64 then ''qword''
      else if opndsize = BITS80 then ''tword'' else '' '')"

definition preappend_mem_size :: "string \<Rightarrow> opflags \<Rightarrow> string" where
  "preappend_mem_size asm_mem opndsize = mem_size_word opndsize @ asm_mem"

subsection \<open>Registers that are generated are free\<close>

text \<open>The candidates of a class: as many registers of its table as the generator draws from.\<close>

definition gpr_class :: "opflags \<Rightarrow> bool" where
  "gpr_class f \<longleftrightarrow> f \<in> {REG_GPR OR BITS8, RM_GPR OR BITS8, REG_GPR OR BITS16, RM_GPR OR BITS16,
     REG_GPR OR BITS32, RM_GPR OR BITS32}"

definition gpr_candidates :: "tables \<Rightarrow> opflags \<Rightarrow> reg list" where
  "gpr_candidates T f =
     (if size_mask f = BITS8 then take 8 (nasm_rd_reg8 T)
      else if size_mask f = BITS16 then take 4 (nasm_rd_reg16 T) else take 4 (nasm_rd_reg32 T))"

lemma gpr_class_cases:
  assumes "gpr_class f" "tables_ok T"
  obtains n regs where "reg_random_range (globalbits T) f = Inr (int n)" "gpr_regs T f = Some regs"
    "n \<le> length regs" "0 < n" "n \<le> 8" "gpr_candidates T f = take n regs"
proof -
  have d: "size_mask f = BITS8 \<or> size_mask f = BITS16 \<or> size_mask f = BITS32"
    "reg_random_range (globalbits T) f = Inr (if size_mask f = BITS8 then 8 else 4)"
    using assms(1) unfolding gpr_class_def
    by (auto simp: reg_random_range_def size_mask_def flag_defs field_defs)
  show ?thesis
  proof (cases "size_mask f = BITS8")
    case True
    then show ?thesis using d assms(2) that [of 8 "nasm_rd_reg8 T"]
      by (simp add: gpr_regs_def gpr_candidates_def tables_ok_def)
  next
    case False
    then show ?thesis using d assms(2) that [of 4 "the (gpr_regs T f)"]
      by (auto simp: gpr_regs_def gpr_candidates_def tables_ok_def)
  qed
qed

text \<open>Draw number \<open>n\<close> gives a candidate that is not locked.\<close>

definition free_draw :: "tables \<Rightarrow> opflags \<Rightarrow> x86pg \<Rightarrow> rng \<Rightarrow> nat \<Rightarrow> bool" where
  "free_draw T f s r n =
     (let cands = gpr_candidates T f
      in \<not> stat_reg_locked (cands ! nat (draw_no (int (length cands)) n r)) s)"

text \<open>
  C30: Asked for a general register, the generator gives one of the candidates of the size that is
  not locked, neither for the loop counter nor for a memory operand, if some draw to come is such
  a candidate; if none is (all candidates are locked, say) it never returns.
\<close>

theorem gpr_register_free:
  assumes "gpr_class (opndflags seed)" "tables_ok T"
  shows "if \<exists>n. free_draw T (opndflags seed) s r n
    then \<exists>q r'. create_gpr_register T seed s r = Inr (nasm_reg_names q, r') \<and>
      q \<in> set (gpr_candidates T (opndflags seed)) \<and> \<not> stat_reg_locked q s
    else create_gpr_register T seed s r = Inl Diverges"
proof -
  obtain n regs where n: "reg_random_range (globalbits T) (opndflags seed) = Inr (int n)"
    "gpr_regs T (opndflags seed) = Some regs" "n \<le> length regs" "0 < n" "n \<le> 8"
    "gpr_candidates T (opndflags seed) = take n regs"
    by (rule gpr_class_cases [OF assms])
  let ?P = "\<lambda>i. \<not> stat_reg_locked (regs ! nat i) s"
  have less: "nat (draw_no (int n) k r) < n" for k
    using draw_no_range [of "int n" k r] n(4) by auto
  then have free: "free_draw T (opndflags seed) s r k \<longleftrightarrow> ?P (draw_no (int n) k r)" for k
    using n(3,6) by (simp add: free_draw_def Let_def min_absorb2)
  have run: "create_gpr_register T seed s r = bnd (run_loop (draw_until (int n) ?P r))
      (\<lambda>(i, r). Inr (nasm_reg_names (regs ! nat i), r))"
    using n by (simp add: create_gpr_register_def guard_res_def)
  show ?thesis
  proof (cases "\<exists>k. free_draw T (opndflags seed) s r k")
    case True
    then obtain i r' where i: "run_loop (draw_until (int n) ?P r) = Inr (i, r')"
      using draw_until_iff [of "int n" ?P r] n(4) free by auto
    then have "?P i" "0 \<le> i" "i < int n"
      using draw_until_result [of "int n" ?P r i r'] by (simp_all add: run_loop_Inr)
    moreover from this have "regs ! nat i \<in> set (gpr_candidates T (opndflags seed))"
      using n(3,6) by (auto simp: in_set_conv_nth intro!: exI [of _ "nat i"])
    ultimately show ?thesis using run i True by auto
  next
    case False
    then have "run_loop (draw_until (int n) ?P r) = Inl Diverges"
      using draw_until_never [of "int n" ?P r] n(4) free by simp
    then show ?thesis using run False by simp
  qed
qed

lemma all_locked_no_draw:
  assumes "gpr_class f" "tables_ok T" "\<forall>q \<in> set (gpr_candidates T f). stat_reg_locked q s"
  shows "\<not> free_draw T f s r n"
proof -
  obtain m regs where m: "m \<le> length regs" "0 < m" "gpr_candidates T f = take m regs"
    by (rule gpr_class_cases [OF assms(1,2)])
  then have "nat (draw_no (int m) n r) < m" using draw_no_range [of "int m" n r] by auto
  then have "take m regs ! nat (draw_no (int m) n r) \<in> set (take m regs)"
    using m(1) by (intro nth_mem) simp
  then show ?thesis using m assms(3) by (simp add: free_draw_def Let_def min_absorb2)
qed

definition ecx_locked :: x86pg where
  "ecx_locked = stat_lock_reg (R ''ecx'') LOCK_REG_CASE_LOOP (reset_x86pgstate zero_x86pgstate)"

theorem gpr_register_free_witness:
  "\<exists>q r'. create_gpr_register ia32_tables \<lparr>is_var = False, is_opnd_type = True, has_label = False,
      opndflags = REG_GPR OR BITS32\<rparr> ecx_locked (sconst 2) = Inr (nasm_reg_names q, r') \<and>
    q \<in> set (map R [''eax'', ''ecx'', ''edx'', ''ebx'']) \<and> \<not> stat_reg_locked q ecx_locked"
proof -
  let ?f = "REG_GPR OR BITS32"
  have c: "gpr_candidates ia32_tables ?f = map R [''eax'', ''ecx'', ''edx'', ''ebx'']"
    by (simp add: gpr_candidates_def size_mask_def flag_defs field_defs ia32_tables_def)
  have "\<not> stat_reg_locked (R ''edx'') ecx_locked"
    by (simp add: ecx_locked_def stat_reg_locked_def stat_lock_reg_def get_lock_reg_type_def
        is_reg_ax_def is_reg_bx_def is_reg_cx_def is_reg_dx_def reset_x86pgstate_def LOCK_REG_NUM_def
        numeral_nat)
  then have "free_draw ia32_tables ?f ecx_locked (sconst 2) 0"
    by (simp add: free_draw_def c draw_no_def Let_def)
  then show ?thesis
    using gpr_register_free [of "\<lparr>is_var = False, is_opnd_type = True, has_label = False, opndflags = ?f\<rparr>"
        ia32_tables ecx_locked "sconst 2"] ia32_tables_ok
    by (auto simp: gpr_class_def c simp del: ex_simps split: if_splits)
qed

subsection \<open>Memory operands and their register set-up\<close>

text \<open>The text that sets up the registers, and what the operation may rely on.\<close>

definition modrm_init :: "sib_mode \<Rightarrow> random_mem_addr \<Rightarrow> string \<Rightarrow> string \<Rightarrow> string" where
  "modrm_init mode a base_reg index_reg =
     (let lea = ''  lea '' @ base_reg @ '', data'' @ fmt_d (ma_base a);
          mov = ''  mov '' @ index_reg @ '', '' @ hex_text (ma_index a)
      in if sib_mode_has_base mode
         then (if sib_mode_has_index mode then lea @ [CHR 0x0A] @ mov else lea)
         else if sib_mode_has_index mode then mov else '''')"

definition mem_ready :: "gen \<Rightarrow> bool" where
  "mem_ready g \<longleftrightarrow> data_ok (pg g) \<and> locks_ok (pg g) \<and>
     LOCK_REG_CASE_MEM \<notin> set (lock_reg_cases (pg g)) \<and> fair (rn g) \<and>
     (\<exists>p \<in> set modrm_regs. \<exists>q \<in> set modrm_regs. p \<noteq> q \<and>
        \<not> stat_reg_locked p (pg g) \<and> \<not> stat_reg_locked q (pg g))"

lemma modrm_regs_inj:
  "p \<in> set modrm_regs \<Longrightarrow> q \<in> set modrm_regs \<Longrightarrow> get_lock_reg_type p = get_lock_reg_type q \<longleftrightarrow> p = q"
  unfolding modrm_regs_def list.map list.set insert_iff empty_iff simp_thms
  by (elim disjE) (simp_all add: get_lock_reg_type_def is_reg_ax_def is_reg_bx_def is_reg_cx_def
      is_reg_dx_def is_reg_si_def is_reg_di_def)

lemma draw_free_reg_fair:
  assumes "fair r" "q \<in> set modrm_regs" "\<not> stat_reg_locked q s"
  shows "\<exists>p r'. draw_free_reg s r = Inr (p, r') \<and> p \<in> set modrm_regs \<and>
    \<not> stat_reg_locked p s \<and> fair r'"
proof -
  let ?P = "\<lambda>i. \<not> stat_reg_locked (modrm_regs ! nat i) s"
  have len: "length modrm_regs = 6" by (simp add: modrm_regs_def)
  obtain k where k: "k < 6" "modrm_regs ! k = q" using assms(2) len by (auto simp: in_set_conv_nth)
  have "\<exists>x r'. run_loop (draw_until 6 ?P r) = Inr (x, r') \<and> ?P x \<and> 0 \<le> x \<and> x < 6 \<and> fair r'"
    using k assms by (intro draw_until_fair [where y = "int k"]) auto
  then obtain x r' where "run_loop (draw_until 6 ?P r) = Inr (x, r')" "?P x" "0 \<le> x" "x < 6" "fair r'"
    by blast
  moreover from this have "modrm_regs ! nat x \<in> set modrm_regs" using len by (intro nth_mem) simp
  ultimately show ?thesis by (simp add: draw_free_reg_def)
qed

lemma random_mem_addr_fair:
  assumes "data_ok s" "fair r"
  shows "\<exists>a r'. random_mem_addr_from_data T mode s r = Inr (a, r') \<and> gives_addr T mode s a \<and> fair r'"
proof (cases "sse_op T s")
  case False
  then show ?thesis using random_mem_addr_plain [OF assms(1), of T mode r] fair_stl assms(2) by metis
next
  case True
  have f2: "fair (stl (stl r))" by (intro fair_stl assms(2))
  from draw_until_fair [OF f2, of 8064 1 "\<lambda>x. x \<noteq> 0"] obtain x r' where
    x: "run_loop (draw_until 8064 (\<lambda>x. x \<noteq> 0) (stl (stl r))) = Inr (x, r')" "fair r'" by auto
  then show ?thesis using random_mem_addr_sse [OF assms(1) True x(1), of mode] fair_stl by blast
qed

lemma choose_mode_fair:
  assumes "fair (rn g)"
  shows "\<exists>mode r. choose_mode seed g = Inr (mode, g\<lparr>rn := r\<rparr>) \<and> fair r \<and>
    (is_class MEM_OFFS (opndflags seed) \<longrightarrow> mode = SIB_MODE_D)"
proof (cases "is_class MEM_OFFS (opndflags seed)")
  case True
  then show ?thesis using assms by (auto simp: choose_mode_def intro: exI [of _ "rn g"])
next
  case False
  have d: "nasm_random32 6 (rn g) = Inr (draw_no 6 0 (rn g), stl (rn g))" by (simp add: nasm_random32_draw)
  have "idx sib_modes (draw_no 6 0 (rn g)) = Inr (sib_modes ! nat (draw_no 6 0 (rn g)))"
    using draw_no_range [of 6 0 "rn g"] by (auto simp: idx_def sib_modes_def)
  then have "choose_mode seed g = Inr (sib_modes ! nat (draw_no 6 0 (rn g)), g\<lparr>rn := stl (rn g)\<rparr>)"
    using False d by (simp add: draw_def choose_mode_def)
  then show ?thesis using False fair_stl [OF assms] by blast
qed

text \<open>Locking the base register and unlocking it again, and the other free register meanwhile.\<close>

lemma modrm_locks:
  assumes "locks_ok s" "LOCK_REG_CASE_MEM \<notin> set (lock_reg_cases s)" "b \<in> set modrm_regs"
    "\<not> stat_reg_locked b s"
  shows "stat_unlock_reg LOCK_REG_CASE_MEM (stat_lock_reg b LOCK_REG_CASE_MEM s) = s"
    and "stat_unlock_reg LOCK_REG_CASE_MEM s = s"
    and "x \<in> set modrm_regs \<Longrightarrow>
      stat_reg_locked x (stat_lock_reg b LOCK_REG_CASE_MEM s) \<longleftrightarrow> x = b \<or> stat_reg_locked x s"
proof -
  show "stat_unlock_reg LOCK_REG_CASE_MEM (stat_lock_reg b LOCK_REG_CASE_MEM s) = s"
    by (rule lock_unlock_mem [OF assms(1,4,2)])
  have "map (\<lambda>c. if c = LOCK_REG_CASE_MEM then LOCK_REG_CASE_NULL else c) (lock_reg_cases s) = lock_reg_cases s"
    using assms(2) by (intro map_idI) auto
  then show "stat_unlock_reg LOCK_REG_CASE_MEM s = s" by (simp add: stat_unlock_reg_def)
  show "stat_reg_locked x (stat_lock_reg b LOCK_REG_CASE_MEM s) \<longleftrightarrow> x = b \<or> stat_reg_locked x s"
    if "x \<in> set modrm_regs"
    using that assms(3) modrm_regs_inj [of x b] stat_reg_locked_lock [OF assms(1), of x b LOCK_REG_CASE_MEM]
    by auto
qed

text \<open>The text does not depend on a register the mode does not have.\<close>

lemma modrm_text_no_base:
  "\<not> sib_mode_has_base mode \<Longrightarrow> modrm_text mode a base_reg index_reg = modrm_text mode a '''' index_reg"
  by (cases mode) (simp_all add: modrm_text_def sib_mode_has_base_def)

lemma modrm_text_no_index:
  "\<not> sib_mode_has_index mode \<Longrightarrow> modrm_text mode a base_reg index_reg = modrm_text mode a base_reg ''''"
  by (cases mode) (simp_all add: modrm_text_def sib_mode_has_index_def)

text \<open>What a generated memory operand and the state after it look like.\<close>

definition modrm_outcome ::
  "tables \<Rightarrow> operand_seed \<Rightarrow> gen \<Rightarrow> sib_mode \<Rightarrow> random_mem_addr \<Rightarrow> reg \<Rightarrow> reg \<Rightarrow> rng \<Rightarrow> bool" where
  "modrm_outcome T seed g mode a b i r' \<longleftrightarrow>
     gives_addr T mode (pg g) a \<and> (is_class MEM_OFFS (opndflags seed) \<longrightarrow> mode = SIB_MODE_D) \<and>
     b \<in> set modrm_regs \<and> i \<in> set modrm_regs \<and> b \<noteq> i \<and>
     \<not> stat_reg_locked b (pg g) \<and> \<not> stat_reg_locked i (pg g) \<and> fair r' \<and>
     create_memory T seed g = Inr (modrm_text mode a (nasm_reg_names b) (nasm_reg_names i),
       seed\<lparr>has_label := has_label seed \<or> mode = SIB_MODE_D \<or> mode = SIB_MODE_ISD\<rparr>,
       g\<lparr>rn := r', pg := (pg g)\<lparr>
         init_mem_addr := modrm_init mode a (nasm_reg_names b) (nasm_reg_names i),
         has_mem_opnd := has_mem_opnd (pg g) \<or> mode \<noteq> SIB_MODE_D\<rparr>\<rparr>)"

text \<open>
  C14: With a fair random source and two of the six registers free, generating a memory operand
  always returns.  Its address is inside a data area, for a plain offset it is a data label; base
  and index register are different and were both free; operand and set-up text name exactly these
  registers and this address; and the state afterwards differs from the one before only in the
  set-up text and the note that a memory operand has one, the register locks being as they were.
\<close>

theorem memory_operand_generated:
  assumes "mem_ready g" "globalbits T \<noteq> 16"
  shows "\<exists>mode a b i r'. modrm_outcome T seed g mode a b i r'"
proof -
  let ?s = "pg g"
  have ok: "data_ok ?s" "locks_ok ?s" "LOCK_REG_CASE_MEM \<notin> set (lock_reg_cases ?s)" and f0: "fair (rn g)"
    using assms(1) by (simp_all add: mem_ready_def)
  obtain p q where pq: "p \<in> set modrm_regs" "q \<in> set modrm_regs" "p \<noteq> q"
    "\<not> stat_reg_locked p ?s" "\<not> stat_reg_locked q ?s" using assms(1) by (auto simp: mem_ready_def)
  obtain mode r1 where m: "choose_mode seed g = Inr (mode, g\<lparr>rn := r1\<rparr>)" "fair r1"
    "is_class MEM_OFFS (opndflags seed) \<longrightarrow> mode = SIB_MODE_D"
    using choose_mode_fair [OF f0] by blast
  obtain a r2 where a: "random_mem_addr_from_data T mode ?s r1 = Inr (a, r2)" "gives_addr T mode ?s a" "fair r2"
    using random_mem_addr_fair [OF ok(1) m(2)] by blast
  obtain b r3 where b: "draw_free_reg ?s r2 = Inr (b, r3)" "b \<in> set modrm_regs"
    "\<not> stat_reg_locked b ?s" "fair r3" using draw_free_reg_fair [OF a(3) pq(1,4)] by blast
  let ?l = "stat_lock_reg b LOCK_REG_CASE_MEM ?s"
  note locks = modrm_locks [OF ok(2,3) b(2,3)]
  obtain i r4 where i: "draw_free_reg ?l r3 = Inr (i, r4)" "i \<in> set modrm_regs"
    "i \<noteq> b" "\<not> stat_reg_locked i ?s" "fair r4"
  proof -
    define x where "x = (if p = b then q else p)"
    have "x \<in> set modrm_regs" "\<not> stat_reg_locked x ?l" using pq locks(3) by (auto simp: x_def)
    from draw_free_reg_fair [OF b(4) this] obtain y r' where
      "draw_free_reg ?l r3 = Inr (y, r')" "y \<in> set modrm_regs" "\<not> stat_reg_locked y ?l" "fair r'" by blast
    then show ?thesis using that locks(3) by blast
  qed
  note run = create_memory_def create_random_modrm_def draw_def Let_def
    modrm_init_def locks(1,2)
  show ?thesis
  proof (cases "sib_mode_has_base mode")
    case True
    show ?thesis
    proof (cases "sib_mode_has_index mode")
      case ix: True
      have "modrm_outcome T seed g mode a b i r4"
        unfolding modrm_outcome_def using assms(2) True ix a b i m
        by (simp add: run del: bnd_eq_Inr)
      then show ?thesis by blast
    next
      case ix: False
      have "modrm_outcome T seed g mode a b i r3"
        unfolding modrm_outcome_def using assms(2) True ix a b i m
        by (simp add: run modrm_text_no_index [OF ix, of a "nasm_reg_names b" "nasm_reg_names i"] del: bnd_eq_Inr)
      then show ?thesis by blast
    qed
  next
    case False
    show ?thesis
    proof (cases "sib_mode_has_index mode")
      case ix: True
      have "modrm_outcome T seed g mode a i b r3"
        unfolding modrm_outcome_def using assms(2) False ix a b i m
        by (simp add: run modrm_text_no_base [OF False, of a "nasm_reg_names i" "nasm_reg_names b"] del: bnd_eq_Inr)
      then show ?thesis by blast
    next
      case ix: False
      have "modrm_outcome T seed g mode a b i r2"
        unfolding modrm_outcome_def using assms(2) False ix a b i m
        by (simp add: run modrm_text_no_base [OF False, of a "nasm_reg_names b"]
            modrm_text_no_index [OF ix, of a "''''" "nasm_reg_names i"] del: bnd_eq_Inr)
      then show ?thesis by blast
    qed
  qed
qed

text \<open>A state in which the operands can be generated: freshly reset, with the loop counter locked.\<close>

definition ready_gen :: gen where
  "ready_gen = \<lparr>pg = ecx_locked, rn = counting, tok_done = '''', tok_rest = '''',
     blk_vars = (\<lambda>_. []), tk_models = (\<lambda>_. None)\<rparr>"

lemma ready_gen_ready: "mem_ready ready_gen"
proof -
  have "data_ok (reset_x86pgstate zero_x86pgstate)"
    by (intro data_ok_init) (simp add: zero_x86pgstate_def zero_sec_def)
  then have d: "data_ok ecx_locked" by (simp add: ecx_locked_def data_ok_def stat_lock_reg_def)
  have c: "lock_reg_cases ecx_locked = [LOCK_REG_CASE_NULL, LOCK_REG_CASE_NULL, LOCK_REG_CASE_LOOP,
      LOCK_REG_CASE_NULL, LOCK_REG_CASE_NULL, LOCK_REG_CASE_NULL]"
    by (simp add: ecx_locked_def stat_lock_reg_def get_lock_reg_type_def is_reg_ax_def is_reg_bx_def
        is_reg_cx_def reset_x86pgstate_def LOCK_REG_NUM_def numeral_nat)
  then have l: "\<not> stat_reg_locked (R ''eax'') ecx_locked" "\<not> stat_reg_locked (R ''ebx'') ecx_locked"
    by (simp_all add: stat_reg_locked_def get_lock_reg_type_def is_reg_ax_def is_reg_bx_def)
  have m: "R ''eax'' \<in> set modrm_regs" "R ''ebx'' \<in> set modrm_regs" by (simp_all add: modrm_regs_def)
  have "\<exists>q \<in> set modrm_regs. R ''eax'' \<noteq> q \<and>
      \<not> stat_reg_locked (R ''eax'') ecx_locked \<and> \<not> stat_reg_locked q ecx_locked"
    by (rule bexI [OF _ m(2)]) (simp add: l)
  then have "\<exists>p \<in> set modrm_regs. \<exists>q \<in> set modrm_regs. p \<noteq> q \<and>
      \<not> stat_reg_locked p ecx_locked \<and> \<not> stat_reg_locked q ecx_locked"
    by (rule bexI [OF _ m(1)])
  moreover have "locks_ok ecx_locked" "LOCK_REG_CASE_MEM \<notin> set (lock_reg_cases ecx_locked)"
    using c by (simp_all add: locks_ok_def LOCK_REG_NUM_def)
  ultimately show ?thesis
    unfolding mem_ready_def ready_gen_def gen.select_convs using d counting_fair by (intro conjI)
qed

theorem memory_operand_generated_witness:
  "mem_ready ready_gen \<and> (\<exists>mode a b i r'. modrm_outcome ia32_tables init_opnd_seed ready_gen mode a b i r')"
proof -
  have "globalbits ia32_tables \<noteq> 16" by (simp add: ia32_tables_def)
  from memory_operand_generated [OF ready_gen_ready this] ready_gen_ready show ?thesis by blast
qed

end
