(* ===== verification/InitData.thy ===== *)
theory InitData
  imports Operand
begin

text \<open>
  Initialising operands: the \<open>init_\<close> functions of \<open>engine/operand.c\<close> and \<open>engine/gendata.c\<close>,
  which put instructions in front of the generated one that load its operands with constants of
  the testing knowledge.  The functions that go back through the assembler
  (\<open>one_insn_gen_const\<close>) take it as the argument \<open>gen_const\<close>.
\<close>

subsection \<open>Texts\<close>

text \<open>One \<open>mov\<close> of a value to the memory at an address text plus an offset.\<close>

type_synonym move = "nat \<times> 32 word"

definition move_line :: "string \<Rightarrow> string \<Rightarrow> move \<Rightarrow> string" where
  "move_line size_word addr m =
     ''  mov '' @ size_word @ '' ['' @ addr @ (if fst m = 0 then '''' else '' + 0x'' @ fmt_x (word_of_nat (fst m)))
     @ ''], 0x'' @ fmt_x (snd m)"

fun lines :: "string list \<Rightarrow> string" where
  "lines [] = ''''"
| "lines [l] = l"
| "lines (l # ls) = l @ [CHR 0x0A] @ lines ls"

definition move_lines :: "string \<Rightarrow> string \<Rightarrow> move list \<Rightarrow> string list" where
  "move_lines size_word addr ms = map (move_line size_word addr) ms"

text \<open>The words of a constant: low word first.\<close>

definition low32 :: "64 word \<Rightarrow> 32 word" where
  "low32 w = ucast w"

definition high32 :: "64 word \<Rightarrow> 32 word" where
  "high32 w = ucast (drop_bit 32 w)"

subsection \<open>Emitting and asking for constants\<close>

definition emit_text :: "string \<Rightarrow> gen \<Rightarrow> gen res" where
  "emit_text t g = on_pg (one_insn_gen_ctrl (Some t) INSERT_AFTER) g"

text \<open>The constant for the current operand: of the enclosing traversal, else a random one.\<close>

definition request_value :: "gen \<Rightarrow> (const_node option \<times> gen) res" where
  "request_value g =
     bnd (request_trv_node (opi (pg g)) (pg g)) (\<lambda>v.
     case v of Some c \<Rightarrow> Inr (Some c, g)
     | None \<Rightarrow> request_val_node (nasm_insn_names (st_opcode (pg g))) (opi (pg g)) g)"

definition request_values :: "gen \<Rightarrow> (const_node option list \<times> gen) res" where
  "request_values g =
     bnd (request_packed_trv_node (opi (pg g)) (pg g)) (\<lambda>v.
     case v of Some cs \<Rightarrow> Inr (map Some cs, g)
     | None \<Rightarrow> request_packed_val_node (nasm_insn_names (st_opcode (pg g))) (opi (pg g)) g)"

text \<open>The address inside the brackets of a memory operand, copied to 64 bytes.\<close>

definition mem_address :: "string \<Rightarrow> string res" where
  "mem_address asm_opnd =
     (if 2 \<le> length asm_opnd \<and> length asm_opnd \<le> 64 then Inr (butlast (tl asm_opnd)) else Inl Undefined)"

definition const_words :: "const_node option list \<Rightarrow> const_node list res" where
  "const_words vs = (if None \<in> set vs then Inl Undefined else Inr (map the vs))"

subsection \<open>Registers and memory for implied operands\<close>

definition st_regs :: "reg list" where
  "st_regs = map R [''st0'', ''st1'', ''st2'', ''st3'', ''st4'', ''st5'', ''st6'', ''st7'']"

text \<open>Loading an x87 register through \<open>float_data\<close>; the top of the stack needs no exchange.\<close>

definition st_load :: "reg \<Rightarrow> const_node \<Rightarrow> string list" where
  "st_load r c =
     (let src = nasm_reg_names r; addr = ''float_data'' in
      if cn_type c = CONST_FLOAT32I then
        (if r = R ''st0'' then
           [''  fstp st0''] @ move_lines ''dword'' addr [(0, cn_imm32 c)] @ [''  fld dword ['' @ addr @ '']'']
         else
           [''  ffree '' @ src, ''  fst '' @ src, ''  fstp st0''] @ move_lines ''dword'' addr [(0, cn_imm32 c)]
           @ [''  fld dword ['' @ addr @ '']'', ''  fxch '' @ src])
      else
        (if r = R ''st0'' then
           [''  fstp st0''] @ move_lines ''dword'' addr [(0, low32 (float64 c)), (4, high32 (float64 c))]
           @ [''  fld qword ['' @ addr @ '']'']
         else
           [''  ffree '' @ src, ''  fst '' @ src, ''  fstp st0'']
           @ move_lines ''dword'' addr [(0, low32 (float64 c)), (4, high32 (float64 c))]
           @ [''  fld qword ['' @ addr @ '']'', ''  fxch '' @ src]))"

definition imm32_or_random :: "const_node option \<Rightarrow> gen \<Rightarrow> (32 word \<times> gen) res" where
  "imm32_or_random v g =
     (case v of Some c \<Rightarrow> Inr (cn_imm32 c, g)
      | None \<Rightarrow> bnd (draw (nasm_random64 RAND_BITS32_BND) g) (\<lambda>(x, g). Inr (word_of_int x, g)))"

definition init_specific_register ::
  "(string \<Rightarrow> gen \<Rightarrow> gen res) \<Rightarrow> reg \<Rightarrow> gen \<Rightarrow> gen res" where
  "init_specific_register gen_const r g =
     bnd (request_value g) (\<lambda>(v, g).
     let old = has_mem_opnd (pg g);
         g = g\<lparr>pg := (pg g)\<lparr>has_mem_opnd := False\<rparr>\<rparr> in
     bnd (if r \<in> set st_regs then bnd (deref v) (\<lambda>c. emit_text (lines (st_load r c)) g)
          else bnd (imm32_or_random v g) (\<lambda>(x, g).
               gen_const (''mov '' @ nasm_reg_names r @ '', 0x'' @ fmt_x x) g)) (\<lambda>g.
     Inr (g\<lparr>pg := (pg g)\<lparr>has_mem_opnd := old\<rparr>\<rparr>)))"

definition init_specific_mem :: "reg \<Rightarrow> gen \<Rightarrow> gen res" where
  "init_specific_mem r g =
     (if r = R ''esi'' then emit_text ''  lea esi,data1'' g
      else if r = R ''edi'' then emit_text ''  lea edi,data2'' g
      else Inl Fatal)"

definition init_popf :: "gen \<Rightarrow> gen res" where
  "init_popf g =
     bnd (request_value g) (\<lambda>(v, g).
     bnd (deref v) (\<lambda>c. emit_text (''  push 0x'' @ fmt_x (cn_imm32 c)) g))"

definition init_fpu_dest_register :: "reg \<Rightarrow> gen \<Rightarrow> gen res" where
  "init_fpu_dest_register r g = emit_text (''  ffree '' @ nasm_reg_names r) g"

subsection \<open>Memory operands\<close>

definition init_memory_opnd_float :: "string \<Rightarrow> operand_seed \<Rightarrow> const_node \<Rightarrow> gen \<Rightarrow> gen res" where
  "init_memory_opnd_float asm_opnd seed c g =
     bnd (mem_address asm_opnd) (\<lambda>addr.
     let opndsize = size_mask (opndflags seed) in
     bnd (if opndsize = BITS32 then Inr [(0, float32 c)]
          else if opndsize = BITS64 then Inr [(0, low32 (float64 c)), (4, high32 (float64 c))]
          else if opndsize = BITS80 then
            Inr [(0, low32 (float80_low c)), (4, high32 (float80_low c)), (8, ucast (float80_high c))]
          else Inl Undefined) (\<lambda>ms.
     emit_text (lines (move_lines ''dword'' addr ms)) g))"

definition init_memory_opnd_x87env :: "string \<Rightarrow> const_node \<Rightarrow> gen \<Rightarrow> gen res" where
  "init_memory_opnd_x87env asm_opnd c g =
     bnd (mem_address asm_opnd) (\<lambda>addr.
     emit_text (lines (move_lines ''dword'' addr (zip [0, 4, 8, 12, 16, 20, 24] (x87env c)))) g)"

definition init_memory_opnd_bcd80 :: "string \<Rightarrow> const_node \<Rightarrow> gen \<Rightarrow> gen res" where
  "init_memory_opnd_bcd80 asm_opnd c g =
     bnd (mem_address asm_opnd) (\<lambda>addr.
     emit_text (lines (move_lines ''dword'' addr [(0, cn_bcd c 0), (4, cn_bcd c 1), (8, cn_bcd c 2)])) g)"

definition init_memory_opnd_imm64 :: "string \<Rightarrow> const_node \<Rightarrow> gen \<Rightarrow> gen res" where
  "init_memory_opnd_imm64 asm_opnd c g =
     bnd (mem_address asm_opnd) (\<lambda>addr.
     emit_text (lines (move_lines ''dword'' addr
       [(0, low32 (cn_imm64 c)), (4, high32 (cn_imm64 c))])) g)"

text \<open>
  The moves for packed constants: the size word and the moves.  A number of constants the code
  does not provide for leaves its buffer unwritten.
\<close>

definition mmx_moves :: "const_node list \<Rightarrow> (string \<times> move list) res" where
  "mmx_moves cs =
     (if length cs = 8 then Inr (''byte'', zip [0, 1, 2, 3, 4, 5, 6, 7] (map (low32 \<circ> cn_imm64) cs))
      else if length cs = 4 then Inr (''word'', zip [0, 2, 4, 6] (map (low32 \<circ> cn_imm64) cs))
      else if length cs = 2 then Inr (''dword'', zip [0, 4] (map (low32 \<circ> cn_imm64) cs))
      else if length cs = 1 then
        Inr (''dword'', [(0, low32 (cn_imm64 (hd cs))), (4, high32 (cn_imm64 (hd cs)))])
      else Inl Undefined)"

definition init_memory_opnd_mmx :: "string \<Rightarrow> gen \<Rightarrow> gen res" where
  "init_memory_opnd_mmx asm_opnd g =
     bnd (request_values g) (\<lambda>(vs, g).
     bnd (mem_address asm_opnd) (\<lambda>addr.
     bnd (const_words vs) (\<lambda>cs.
     bnd (mmx_moves cs) (\<lambda>(size_word, ms).
     emit_text (lines (move_lines size_word addr ms)) g))))"

text \<open>
  The moves for an SSE operand, with the instruction that loads them into a register.  Two packed
  32-bit constants are written as the code does: the first one twice.
\<close>

definition xmm_moves :: "const_node list \<Rightarrow> (move list \<times> string) res" where
  "xmm_moves cs =
     (case cs of
        [a, b, c, d] \<Rightarrow>
          if cn_type a = CONST_FLOAT32F then
            Inr ([(0, float32 a), (4, float32 b), (8, float32 c), (12, float32 d)], ''movups'')
          else if cn_type a = CONST_IMM32 then
            Inr ([(0, cn_imm32 a), (4, cn_imm32 b), (8, cn_imm32 c), (12, cn_imm32 d)], ''movups'')
          else Inl Undefined
      | [a, b] \<Rightarrow>
          if cn_type a = CONST_FLOAT64F then
            Inr ([(0, low32 (float64 a)), (4, high32 (float64 a)), (8, low32 (float64 b)), (12, high32 (float64 b))],
              ''movupd'')
          else if cn_type a = CONST_IMM64 then
            Inr ([(0, low32 (cn_imm64 a)), (4, high32 (cn_imm64 a)), (8, low32 (cn_imm64 b)), (12, high32 (cn_imm64 b))],
              ''movupd'')
          else if cn_type a = CONST_FLOAT32F then Inr ([(0, float32 a), (4, float32 a)], ''movups'')
          else if cn_type a = CONST_IMM32 then Inr ([(0, cn_imm32 a), (4, cn_imm32 a)], ''movups'')
          else Inl Undefined
      | [a] \<Rightarrow>
          if cn_type a = CONST_FLOAT32F then Inr ([(0, float32 a), (4, 0), (8, 0), (12, 0)], ''movups'')
          else if cn_type a = CONST_FLOAT64F then
            Inr ([(0, low32 (float64 a)), (4, high32 (float64 a))], ''movupd'')
          else if cn_type a = CONST_IMM64 then
            Inr ([(0, low32 (cn_imm64 a)), (4, high32 (cn_imm64 a))], ''movupd'')
          else Inl Undefined
      | _ \<Rightarrow> Inl Undefined)"

definition init_memory_opnd_xmm :: "string \<Rightarrow> gen \<Rightarrow> gen res" where
  "init_memory_opnd_xmm asm_opnd g =
     bnd (request_values g) (\<lambda>(vs, g).
     bnd (mem_address asm_opnd) (\<lambda>addr.
     bnd (const_words vs) (\<lambda>cs.
     bnd (xmm_moves cs) (\<lambda>(ms, _).
     emit_text (lines (move_lines ''dword'' addr ms)) g))))"

definition init_memory_opnd :: "string \<Rightarrow> operand_seed \<Rightarrow> gen \<Rightarrow> gen res" where
  "init_memory_opnd asm_opnd seed g =
     bnd (request_value g) (\<lambda>(v, g).
     let f = opndflags seed; size = size_mask f;
         is = (\<lambda>t. case v of Some c \<Rightarrow> cn_type c = t | None \<Rightarrow> False) in
     if is CONST_FLOAT then init_memory_opnd_float asm_opnd seed (the v) g
     else if is CONST_X87ENV then init_memory_opnd_x87env asm_opnd (the v) g
     else if is_class REG_CLASS_RM_MMX f then init_memory_opnd_mmx asm_opnd g
     else if v \<noteq> None \<and> size = BITS64 then init_memory_opnd_imm64 asm_opnd (the v) g
     else if v \<noteq> None \<and> size = BITS80 then init_memory_opnd_bcd80 asm_opnd (the v) g
     else if is_class REG_CLASS_RM_XMM f then init_memory_opnd_xmm asm_opnd g
     else bnd (imm32_or_random v g) (\<lambda>(val, g).
       let val = (if size = BITS8 then val AND 0xFF else if size = BITS16 then val AND 0xFFFF else val)
       in emit_text (''  mov '' @ preappend_mem_size (asm_opnd @ '', 0x'' @ fmt_x val) size) g))"

subsection \<open>Register operands\<close>

definition init_fpu_register_opnd :: "string \<Rightarrow> gen \<Rightarrow> gen res" where
  "init_fpu_register_opnd asm_opnd g =
     bnd (request_value g) (\<lambda>(v, g).
     bnd (deref v) (\<lambda>c.
     emit_text (lines ([''  ffree '' @ asm_opnd, ''  fst '' @ asm_opnd, ''  fstp st0'']
       @ move_lines ''dword'' ''float_data'' [(0, low32 (float64 c)), (4, high32 (float64 c))]
       @ [''  fld qword [float_data]'', ''  fxch '' @ asm_opnd])) g))"

definition init_mmx_register_opnd :: "string \<Rightarrow> gen \<Rightarrow> gen res" where
  "init_mmx_register_opnd asm_opnd g =
     bnd (request_values g) (\<lambda>(vs, g).
     bnd (const_words vs) (\<lambda>cs.
     bnd (mmx_moves cs) (\<lambda>(size_word, ms).
     emit_text (lines (move_lines size_word ''float_data'' ms @ [''  movq qword '' @ asm_opnd @ '', [float_data]''])) g)))"

definition init_xmm_register_opnd :: "string \<Rightarrow> gen \<Rightarrow> gen res" where
  "init_xmm_register_opnd asm_opnd g =
     bnd (request_values g) (\<lambda>(vs, g).
     bnd (const_words vs) (\<lambda>cs.
     bnd (xmm_moves cs) (\<lambda>(ms, movu).
     emit_text (lines (move_lines ''dword'' ''float_data'' ms @ [''  '' @ movu @ '' '' @ asm_opnd @ '', [float_data]''])) g)))"

definition init_register_opnd ::
  "(string \<Rightarrow> gen \<Rightarrow> gen res) \<Rightarrow> string \<Rightarrow> gen \<Rightarrow> gen res" where
  "init_register_opnd gen_const asm_opnd g =
     bnd (request_value g) (\<lambda>(v, g).
     bnd (imm32_or_random v g) (\<lambda>(x, g). gen_const (''mov '' @ asm_opnd @ '', 0x'' @ fmt_x x) g))"

subsection \<open>Immediates\<close>

text \<open>Without a constant the buffer keeps what it has, which may be nothing at all.\<close>

definition init_immediate_opnd :: "string res \<Rightarrow> operand_seed \<Rightarrow> gen \<Rightarrow> (string \<times> gen) res" where
  "init_immediate_opnd buffer seed g =
     bnd (request_value g) (\<lambda>(v, g).
     case v of
       None \<Rightarrow> bnd buffer (\<lambda>b. Inr (b, g))
     | Some c \<Rightarrow>
         let size = size_mask (opndflags seed);
             immediate = (if size = BITS8 then ucast (cn_imm8 c) else if size = BITS16 then ucast (cn_imm16 c)
                          else cn_imm32 c) :: 32 word
         in Inr (''0x'' @ fmt_x immediate, g))"

definition init_opnd ::
  "(string \<Rightarrow> gen \<Rightarrow> gen res) \<Rightarrow> string \<Rightarrow> operand_seed \<Rightarrow> blk_var option \<Rightarrow> gen \<Rightarrow> gen res" where
  "init_opnd gen_const asm_opnd seed var g =
     (if \<not> need_init (pg g) then Inr g
      else let f = opndflags seed; old = has_mem_opnd (pg g);
               g = g\<lparr>pg := (pg g)\<lparr>need_init := False, has_mem_opnd := False\<rparr>\<rparr> in
        bnd (if is_class REGISTER f then
               (if is_class REG_CLASS_FPUREG f then init_fpu_register_opnd asm_opnd g
                else if is_class REG_CLASS_RM_MMX f then init_mmx_register_opnd asm_opnd g
                else if is_class REG_CLASS_RM_XMM f then init_xmm_register_opnd asm_opnd g
                else init_register_opnd gen_const asm_opnd g)
             else if is_class REGMEM f then
               bnd (on_pg (one_insn_gen_ctrl (case var of Some v \<Rightarrow> bv_init_mem_addr v
                                              | None \<Rightarrow> Some (init_mem_addr (pg g))) INSERT_AFTER) g)
                 (init_memory_opnd asm_opnd seed)
             else Inr g) (\<lambda>g.
        Inr (g\<lparr>pg := (pg g)\<lparr>has_mem_opnd := old, need_init := True\<rparr>\<rparr>)))"

end
