(* ===== verification/Gendata.thy ===== *)
theory Gendata
  imports InitData
begin

text \<open>
  Generating the operands of an instruction: \<open>engine/gendata.c\<close>.  An instruction is generated from
  a seed (its operand flags) or from pseudo code in the token buffer (registers, operand types,
  variables).
\<close>

subsection \<open>Operand sizes\<close>

definition is_shift_or_rotate :: "opcode \<Rightarrow> bool" where
  "is_shift_or_rotate opc \<longleftrightarrow> opc \<in> set (map I
     [''rcl'', ''rcr'', ''rol'', ''ror'', ''sal'', ''sar'', ''shl'', ''shr'', ''shld'', ''shrd''])"

definition getCurOperandSize :: "opflags \<Rightarrow> opflags" where
  "getCurOperandSize f = (if f AND SIZE_MASK \<noteq> 0 then f AND SIZE_MASK else 0)"

fun first_size :: "opflags list \<Rightarrow> opflags" where
  "first_size [] = 0"
| "first_size (f # fs) =
     (if f = 0 then 0 else if getCurOperandSize f \<noteq> 0 then getCurOperandSize f else first_size fs)"

definition calOperandSize :: "tables \<Rightarrow> insn_seed \<Rightarrow> nat \<Rightarrow> opflags res" where
  "calOperandSize T seed opdi =
     bnd (idx (seed_opd seed) (int opdi)) (\<lambda>f.
     let own = getCurOperandSize f;
         opndsize = (if own = 0 then first_size (seed_opd seed) else own)
     in Inr (if opndsize \<noteq> 0 then opndsize
             else if seed_opcode seed \<in> {I ''ret'', I ''retf''} then BITS16
             else if seed_opcode seed = I ''enter'' then (if opdi = 1 then BITS16 else BITS8)
             else if globalbits T = 16 then BITS16 else BITS32))"

subsection \<open>Implied operands\<close>

definition string_insns :: "opcode list" where
  "string_insns = map I
     [''movsb'', ''movsd'', ''movsw'', ''cmpsb'', ''cmpsd'', ''cmpsw'', ''scasb'', ''scasd'', ''scasw'',
      ''lodsb'', ''lodsd'', ''lodsw'', ''stosb'', ''stosd'', ''stosw'']"

definition fpu_st0_insns :: "opcode list" where
  "fpu_st0_insns = map I
     [''fbstp'', ''fchs'', ''fcos'', ''fiadd'', ''ficom'', ''ficomp'', ''fidiv'', ''fidivr'', ''fimul'', ''fist'',
      ''fistp'', ''fisub'', ''fisubr'', ''fptan'', ''frndint'', ''fsin'', ''fsincos'', ''fsqrt'', ''ftst'',
      ''fabs'', ''f2xm1'']"

definition fpu_binary_insns :: "opcode list" where
  "fpu_binary_insns = map I
     [''fadd'', ''faddp'', ''fcmovb'', ''fcmovbe'', ''fcmove'', ''fcmovnb'', ''fcmovnbe'', ''fcmovne'',
      ''fcmovnu'', ''fcmovu'', ''fcom'', ''fcomi'', ''fcomip'', ''fcomp'', ''fcompp'', ''fdiv'', ''fdivp'',
      ''fdivr'', ''fdivrp'', ''fmul'', ''fmulp'', ''fsub'', ''fsubp'', ''fsubr'', ''fsubrp'', ''fucom'',
      ''fucomi'', ''fucomip'', ''fucomp'', ''fucompp'', ''fxch'']"

definition fpu_two_insns :: "opcode list" where
  "fpu_two_insns = map I [''fpatan'', ''fprem'', ''fprem1'', ''fscale'', ''fyl2x'', ''fyl2xp1'']"

text \<open>What to load before an instruction, in order: registers, memory pointers, flags, x87 targets.\<close>

datatype implied = ImpReg reg | ImpMem reg | ImpFlags | ImpFpuDest reg

definition implied_operands :: "opcode \<Rightarrow> int \<Rightarrow> opflags \<Rightarrow> implied list" where
  "implied_operands opc operand_num sz =
     (if opc \<in> {I ''div'', I ''idiv''} then
        (if sz = BITS8 then [ImpReg (R ''ax'')]
         else if sz = BITS16 then [ImpReg (R ''dx''), ImpReg (R ''ax'')]
         else if sz = BITS32 then [ImpReg (R ''edx''), ImpReg (R ''eax'')] else [])
      else if opc = I ''cmpxchg'' then
        (if sz = BITS8 then [ImpReg (R ''al'')] else if sz = BITS16 then [ImpReg (R ''ax'')]
         else if sz = BITS32 then [ImpReg (R ''eax'')] else [])
      else if opc \<in> {I ''cwd'', I ''cbw''} then [ImpReg (R ''ax'')]
      else if opc \<in> {I ''cdq'', I ''cwde''} then [ImpReg (R ''eax'')]
      else if opc \<in> {I ''jcxz'', I ''jecxz''} then [ImpReg (R ''ecx'')]
      else if opc \<in> set string_insns then [ImpMem (R ''esi''), ImpMem (R ''edi'')]
      else if opc = I ''popf'' then [ImpFlags]
      else if opc = I ''fxtract'' then [ImpReg (R ''st0''), ImpFpuDest (R ''st7'')]
      else if opc \<in> set fpu_st0_insns then [ImpReg (R ''st0'')]
      else if opc \<in> set fpu_binary_insns then
        (if operand_num = 1 then [ImpReg (R ''st0'')]
         else if operand_num = 0 then [ImpReg (R ''st0''), ImpReg (R ''st1'')] else [])
      else if opc = I ''fld'' then
        (if operand_num = 0 then [ImpReg (R ''st1'')] else []) @ [ImpFpuDest (R ''st7'')]
      else if opc \<in> set fpu_two_insns then [ImpReg (R ''st0''), ImpReg (R ''st1'')]
      else [])"

definition init_implied :: "(string \<Rightarrow> gen \<Rightarrow> gen res) \<Rightarrow> implied \<Rightarrow> gen \<Rightarrow> gen res" where
  "init_implied gen_const i =
     (case i of ImpReg r \<Rightarrow> init_specific_register gen_const r | ImpMem r \<Rightarrow> init_specific_mem r
      | ImpFlags \<Rightarrow> init_popf | ImpFpuDest r \<Rightarrow> init_fpu_dest_register r)"

definition init_implied_operands ::
  "tables \<Rightarrow> (string \<Rightarrow> gen \<Rightarrow> gen res) \<Rightarrow> insn \<Rightarrow> gen \<Rightarrow> gen res" where
  "init_implied_operands T gen_const result g =
     (let g = g\<lparr>pg := (pg g)\<lparr>need_init := False\<rparr>\<rparr>;
          seed = \<lparr>seed_opcode = opcode_of result, seed_opd = map op_type (oprs result)\<rparr> in
      bnd (calOperandSize T seed 0) (\<lambda>sz.
      bnd (foldM (init_implied gen_const) (implied_operands (opcode_of result) (operands result) sz) g) (\<lambda>g.
      Inr (g\<lparr>pg := (pg g)\<lparr>need_init := True\<rparr>\<rparr>))))"

definition gen_opcode :: "insn_seed option \<Rightarrow> gen \<Rightarrow> gen res" where
  "gen_opcode seed g =
     (case seed of None \<Rightarrow> Inr g
      | Some sd \<Rightarrow> set_token_text (nasm_insn_names (seed_opcode sd) @ '' '') (get_token_cbufptr g))"

subsection \<open>Operands by class\<close>

definition specific_registers :: "(opflags \<times> reg) list" where
  "specific_registers =
     [(REG_AL, R ''al''), (REG_AX, R ''ax''), (REG_EAX, R ''eax''), (REG_DL, R ''dl''), (REG_DX, R ''dx''),
      (REG_EDX, R ''edx''), (REG_CL, R ''cl''), (REG_CX, R ''cx''), (REG_ECX, R ''ecx''), (FPU0, R ''st0''),
      (XMM0, R ''xmm0''), (YMM0, R ''ymm0''), (ZMM0, R ''zmm0''), (REG_ES, R ''es''), (REG_CS, R ''cs''),
      (REG_SS, R ''ss''), (REG_DS, R ''ds''), (REG_FS, R ''fs''), (REG_GS, R ''gs'')]"

text \<open>The text of a register, or \<open>None\<close> when the function returns false.\<close>

definition gen_register :: "tables \<Rightarrow> operand_seed \<Rightarrow> gen \<Rightarrow> (string option \<times> gen) res" where
  "gen_register T seed g =
     (let f = opndflags seed;
          ret = (\<lambda>m. bnd (draw m g) (\<lambda>(t, g). Inr (Some t, g))) in
      case find (\<lambda>(c, r). is_class c f) specific_registers of
        Some (_, r) \<Rightarrow> Inr (Some (create_specific_register r), g)
      | None \<Rightarrow>
          if is_class REG_CLASS_CDT f then
            Inr (if is_class REG_CREG f then create_control_register else None, g)
          else if is_class REG_CLASS_GPR f then ret (create_gpr_register T seed (pg g))
          else if is_class REG_CLASS_SREG f then ret (create_segment_register T)
          else if is_class REG_CLASS_FPUREG f then ret (create_fpu_register T seed)
          else if is_class REG_CLASS_RM_MMX f then ret (create_mmx_register T seed)
          else if is_class REG_CLASS_RM_XMM f then ret (create_xmm_register T seed)
          else if is_class REG_CLASS_RM_YMM f \<or> is_class REG_CLASS_RM_ZMM f \<or>
                  is_class REG_CLASS_BND f \<or> is_class REG_CLASS_RM_TMM f then Inr (None, g)
          else Inl Fatal)"

definition gen_immediate :: "operand_seed \<Rightarrow> string res \<Rightarrow> gen \<Rightarrow> (string \<times> gen) res" where
  "gen_immediate seed buffer g =
     (let f = opndflags seed;
          ret = (\<lambda>m. if need_init (pg g) then init_immediate_opnd buffer seed g else draw m g) in
      if is_class UNITY f then ret (create_unity seed)
      else if is_class SBYTEDWORD f then ret create_sbytedword
      else if is_class SBYTEWORD f then ret create_sbyteword
      else if is_class IMMEDIATE f then ret (create_immediate seed)
      else Inl Fatal)"

definition gen_reg_mem :: "tables \<Rightarrow> operand_seed \<Rightarrow> gen \<Rightarrow> (string option \<times> operand_seed \<times> gen) res" where
  "gen_reg_mem T seed g =
     (if is_class MEMORY (opndflags seed) then
        bnd (create_memory T seed g) (\<lambda>(t, seed, g). Inr (Some t, seed, g))
      else bnd (draw (likely_happen_p (1 / 2)) g) (\<lambda>(select_mem, g).
        if select_mem then
          let seed = seed\<lparr>opndflags := (opndflags seed AND NOT OPTYPE_MASK) OR MEMORY\<rparr> in
          bnd (create_memory T seed g) (\<lambda>(t, seed, g). Inr (Some t, seed, g))
        else
          let seed = seed\<lparr>opndflags := opndflags seed OR REGISTER\<rparr> in
          bnd (gen_register T seed g) (\<lambda>(t, g). Inr (t, seed, g))))"

definition gen_operand_internal ::
  "tables \<Rightarrow> operand_seed \<Rightarrow> string res \<Rightarrow> gen \<Rightarrow> (string option \<times> operand_seed \<times> gen) res" where
  "gen_operand_internal T seed buffer g =
     (let f = opndflags seed in
      if is_class REGISTER f then bnd (gen_register T seed g) (\<lambda>(t, g). Inr (t, seed, g))
      else if is_class IMMEDIATE f then bnd (gen_immediate seed buffer g) (\<lambda>(t, g). Inr (Some t, seed, g))
      else if is_class REGMEM f then gen_reg_mem T seed g
      else Inl Fatal)"

subsection \<open>Operands into the token buffer\<close>

definition get_var :: "nat \<times> nat \<Rightarrow> gen \<Rightarrow> blk_var" where
  "get_var p g = blk_vars g (fst p) ! snd p"

definition set_var :: "nat \<times> nat \<Rightarrow> blk_var \<Rightarrow> gen \<Rightarrow> gen" where
  "set_var p v g = g\<lparr>blk_vars := (blk_vars g)(fst p := (blk_vars g (fst p))[snd p := v])\<rparr>"

text \<open>
  A variable is generated at its first use and keeps its text, flags and set-up until its block
  is entered again.
\<close>

definition gen_var_operand ::
  "tables \<Rightarrow> nat \<times> nat \<Rightarrow> operand_seed \<Rightarrow> string \<Rightarrow> gen \<Rightarrow> (string option \<times> operand_seed \<times> gen) res" where
  "gen_var_operand T p seed asm_opnd g =
     (let var = get_var p g in
      if \<not> bv_valid var then
        bnd (gen_operand_internal T seed (Inr asm_opnd) g) (\<lambda>(t, seed, g).
        case t of None \<Rightarrow> Inr (None, seed, g)
        | Some txt \<Rightarrow>
            let var = var\<lparr>bv_opndflags := opndflags seed, bv_var_val := Some txt,
                  bv_init_mem_addr := (if is_class MEMORY (opndflags seed) \<and> opndflags seed \<noteq> MEM_OFFS
                                       then Some (init_mem_addr (pg g)) else bv_init_mem_addr var),
                  bv_valid := True, bv_is_mem_opnd := has_mem_opnd (pg g), bv_has_label := has_label seed\<rparr>
            in Inr (Some txt, seed, set_var p var g))
      else bnd (deref (bv_var_val var)) (\<lambda>txt.
        Inr (Some txt, seed\<lparr>opndflags := bv_opndflags var, has_label := bv_has_label var\<rparr>,
             g\<lparr>pg := (pg g)\<lparr>has_mem_opnd := bv_is_mem_opnd var\<rparr>\<rparr>)))"

text \<open>Whether the operand needs a size keyword in front of it, given the next operand.\<close>

definition needs_size :: "opcode \<Rightarrow> int \<Rightarrow> opflags \<Rightarrow> bool res \<Rightarrow> bool res" where
  "needs_size opc n f next_no_size =
     (if opc = I ''movsx'' \<or> n = 0 \<and> is_shift_or_rotate opc then Inr True
      else if n = 0 \<and> is_class MEMORY f then next_no_size
      else Inr False)"

definition opnd_var :: "operand_seed \<Rightarrow> string \<Rightarrow> gen \<Rightarrow> (nat \<times> nat) option" where
  "opnd_var seed asm_opnd g =
     (if is_var seed then blk_search_var (blk_vars g) (curr_blk (pg g)) asm_opnd else None)"

definition gen_operand_pseudo_code ::
  "tables \<Rightarrow> (string \<Rightarrow> gen \<Rightarrow> gen res) \<Rightarrow> operand_seed \<Rightarrow> gen \<Rightarrow> (bool \<times> operand_seed \<times> gen) res" where
  "gen_operand_pseudo_code T gen_const seed g =
     (let n = opi (pg g);
          spaces = takeWhile nasm_isspace (tok_rest g);
          bufptr = dropWhile nasm_isspace (tok_rest g);
          (opnd_len, asm_opnd) = copy_asm_opnd bufptr in
      bnd (create_opnd_seed T (Some asm_opnd) seed g) (\<lambda>seed.
      let var = opnd_var seed asm_opnd g;
          replaced = is_var seed \<or> is_opnd_type seed in
      bnd (case var of
             Some p \<Rightarrow> gen_var_operand T p seed asm_opnd g
           | None \<Rightarrow> if is_opnd_type seed then gen_operand_internal T seed (Inr asm_opnd) g
                     else Inr (Some asm_opnd, seed, g)) (\<lambda>(t, seed, g).
      case t of None \<Rightarrow> Inr (False, seed, g)
      | Some txt \<Rightarrow>
          let bufptr = (if replaced then txt @ drop opnd_len bufptr else bufptr) in
          bnd (set_token_text (spaces @ bufptr) g) (\<lambda>g.
          bnd (if \<not> replaced then Inr False
               else let next_opnd = nasm_skip_a_comma (Some bufptr) in
                 needs_size (st_opcode (pg g)) n (opndflags seed)
                   (if asm_is_blank next_opnd then Inr True else asm_is_immediate next_opnd)) (\<lambda>sized.
          bnd (if sized then set_token_text (spaces @ preappend_mem_size bufptr (size_mask (opndflags seed))) g
               else Inr g) (\<lambda>g.
          bnd (init_opnd gen_const txt seed (map_option (\<lambda>p. get_var p g) var) g) (\<lambda>g.
          Inr (True, seed, g))))))))"

definition gen_operand_insn_seed ::
  "tables \<Rightarrow> (string \<Rightarrow> gen \<Rightarrow> gen res) \<Rightarrow> insn_seed \<Rightarrow> operand_seed \<Rightarrow> gen \<Rightarrow>
   (bool \<times> operand_seed \<times> gen) res" where
  "gen_operand_insn_seed T gen_const sd seed g =
     (let n = opi (pg g) in
      bnd (idx (seed_opd sd) n) (\<lambda>f.
      if f = 0 then Inr (True, seed, g)
      else
      bnd (calOperandSize T sd (nat n)) (\<lambda>size.
      let seed = seed\<lparr>opndflags := f OR size\<rparr>;
          sep = (if n = 0 then CHR '' '' else CHR '','');
          g = g\<lparr>tok_done := tok_done g @ [sep], tok_rest := drop 1 (tok_rest g)\<rparr> in
      bnd (gen_operand_internal T seed (Inl Undefined) g) (\<lambda>(t, seed, g).
      case t of None \<Rightarrow> Inr (False, seed, g)
      | Some txt \<Rightarrow>
          bnd (set_token_text (txt @ tok_rest g) g) (\<lambda>g.
          bnd (needs_size (st_opcode (pg g)) n (opndflags seed)
                 (bnd (idx (seed_opd sd) 1) (\<lambda>f1. Inr (f1 = 0 \<or> is_class IMMEDIATE f1)))) (\<lambda>sized.
          bnd (if sized then set_token_text (preappend_mem_size (tok_rest g) (size_mask (opndflags seed))) g
               else Inr g) (\<lambda>g.
          bnd (init_opnd gen_const txt seed None g) (\<lambda>g.
          Inr (True, seed, g)))))))))"

text \<open>Success, and whether the operand uses a data label.\<close>

definition gen_operand ::
  "tables \<Rightarrow> (string \<Rightarrow> gen \<Rightarrow> gen res) \<Rightarrow> insn_seed option \<Rightarrow> bool \<Rightarrow> gen \<Rightarrow> (bool \<times> bool \<times> gen) res" where
  "gen_operand T gen_const sd is_label g =
     bnd (case sd of None \<Rightarrow> gen_operand_pseudo_code T gen_const init_opnd_seed g
          | Some sd \<Rightarrow> gen_operand_insn_seed T gen_const sd init_opnd_seed g) (\<lambda>(success, seed, g).
     Inr (success, is_label \<or> has_label seed, g))"

end
