(* ===== verification/Expr.thy ===== *)
theory Expr
  imports GenState
begin

text \<open>
  The expression data type of \<open>include/nasm.h\<close> and its library \<open>engine/exprlib.c\<close>, with the vector
  operations of \<open>engine/eval.c\<close>.  An expression is a list of components, each a type with a
  64-bit multiple; the terminating record of type 0 is the end of the list.  Signed arithmetic is
  that of 64-bit two's complement.
\<close>

unbundle bit_operations_syntax

subsection \<open>Components\<close>

datatype etype = EReg reg | EUnknown | ESimple | EWrt | ERdsae | ESegbase int

type_synonym vec = "(etype \<times> 64 word) list"

definition SEG_ABS :: int where
  "SEG_ABS = 0x40000000"

definition NO_SEG :: int where
  "NO_SEG = -1"

text \<open>The number of a type: registers first, then the special types, then the segment bases.\<close>

definition etype_no :: "tables \<Rightarrow> etype \<Rightarrow> int" where
  "etype_no T t = (case t of EReg r \<Rightarrow> int (reg_no T r) | EUnknown \<Rightarrow> int (reg_end T) + 1
     | ESimple \<Rightarrow> int (reg_end T) + 2 | EWrt \<Rightarrow> int (reg_end T) + 3 | ERdsae \<Rightarrow> int (reg_end T) + 4
     | ESegbase s \<Rightarrow> int (reg_end T) + 5 + s)"

definition EXPR_SEGBASE :: "tables \<Rightarrow> int" where
  "EXPR_SEGBASE T = etype_no T (ESegbase 0)"

definition far_abs :: "tables \<Rightarrow> etype \<Rightarrow> bool" where
  "far_abs T t \<longleftrightarrow> EXPR_SEGBASE T + SEG_ABS \<le> etype_no T t"

subsection \<open>Tests\<close>

abbreviation skip_zero :: "vec \<Rightarrow> vec" where
  "skip_zero v \<equiv> dropWhile (\<lambda>c. snd c = 0) v"

definition is_simple :: "tables \<Rightarrow> vec \<Rightarrow> bool" where
  "is_simple T vect = (case skip_zero vect of [] \<Rightarrow> True
     | (t, _) # r \<Rightarrow> t = ESimple \<and>
         (case skip_zero r of [] \<Rightarrow> True | (t', _) # _ \<Rightarrow> \<not> etype_no T t' < EXPR_SEGBASE T + SEG_ABS))"

definition is_really_simple :: "vec \<Rightarrow> bool" where
  "is_really_simple vect = (case skip_zero vect of [] \<Rightarrow> True
     | (t, _) # r \<Rightarrow> t = ESimple \<and> skip_zero r = [])"

fun is_reloc_loop :: "tables \<Rightarrow> int \<Rightarrow> bool \<Rightarrow> bool \<Rightarrow> vec \<Rightarrow> bool" where
  "is_reloc_loop T lseg has_rel has_seg [] = True"
| "is_reloc_loop T lseg has_rel has_seg ((t, val) # vect) =
     (if val = 0 then is_reloc_loop T lseg has_rel has_seg vect
      else if etype_no T t < etype_no T ESimple then False
      else if t = ESimple \<or> t = EWrt then is_reloc_loop T lseg has_rel has_seg vect
      else if etype_no T t < EXPR_SEGBASE T then False
      else if val = 1 then (if has_seg then False else is_reloc_loop T lseg has_rel True vect)
      else if val = -1 then
        (if etype_no T t \<noteq> lseg + EXPR_SEGBASE T then False
         else if has_rel then False else is_reloc_loop T lseg True has_seg vect)
      else is_reloc_loop T lseg has_rel has_seg vect)"

text \<open>The location's segment, a global variable of the code, is an argument here.\<close>

definition is_reloc :: "tables \<Rightarrow> int \<Rightarrow> vec \<Rightarrow> bool" where
  "is_reloc T lseg vect = is_reloc_loop T lseg False False vect"

definition is_unknown :: "tables \<Rightarrow> vec \<Rightarrow> bool" where
  "is_unknown T vect = (case dropWhile (\<lambda>c. etype_no T (fst c) < etype_no T EUnknown) vect of
     [] \<Rightarrow> False | (t, _) # _ \<Rightarrow> t = EUnknown)"

definition is_just_unknown :: "vec \<Rightarrow> bool" where
  "is_just_unknown vect = (case skip_zero vect of [] \<Rightarrow> False | (t, _) # _ \<Rightarrow> t = EUnknown)"

definition reloc_value :: "vec \<Rightarrow> 64 word" where
  "reloc_value vect = (case skip_zero vect of [] \<Rightarrow> 0 | (t, val) # _ \<Rightarrow> if t = ESimple then val else 0)"

definition reloc_seg :: "tables \<Rightarrow> vec \<Rightarrow> int" where
  "reloc_seg T vect = (case find (\<lambda>(t, val). EXPR_SEGBASE T \<le> etype_no T t \<and> val = 1) vect of
     None \<Rightarrow> NO_SEG | Some (t, _) \<Rightarrow> etype_no T t - EXPR_SEGBASE T)"

definition reloc_wrt :: "tables \<Rightarrow> vec \<Rightarrow> int" where
  "reloc_wrt T vect = (case dropWhile (\<lambda>c. etype_no T (fst c) < etype_no T EWrt) vect of
     [] \<Rightarrow> NO_SEG | (t, val) # _ \<Rightarrow> if t = EWrt then sint (ucast val :: 32 word) else NO_SEG)"

definition is_self_relative :: "tables \<Rightarrow> int \<Rightarrow> vec \<Rightarrow> bool" where
  "is_self_relative T lseg vect = (\<exists>(t, val) \<in> set vect. etype_no T t = lseg + EXPR_SEGBASE T \<and> val = -1)"

subsection \<open>Vector operations\<close>

text \<open>The two loops that copy what is left of the operands.\<close>

definition add_rest :: "tables \<Rightarrow> bool \<Rightarrow> vec \<Rightarrow> vec" where
  "add_rest T preserve p = takeWhile (\<lambda>c. preserve \<or> \<not> far_abs T (fst c)) p"

text \<open>The merge of \<open>add_vectors\<close>: the sum, and whether two components were summed.\<close>

function add_merge :: "tables \<Rightarrow> bool \<Rightarrow> vec \<Rightarrow> vec \<Rightarrow> vec \<times> bool" where
  "add_merge T preserve [] q = (add_rest T preserve q, False)"
| "add_merge T preserve (c # p) [] = (add_rest T preserve (c # p), False)"
| "add_merge T preserve ((tp, vp) # p) ((tq, vq) # q) =
     (if far_abs T tp \<or> far_abs T tq then
        (add_rest T preserve ((tp, vp) # p) @ add_rest T preserve ((tq, vq) # q), False)
      else if etype_no T tq < etype_no T tp then
        (if tq = EUnknown then ([(tq, vq)], False)
         else map_prod (Cons (tq, vq)) id (add_merge T preserve ((tp, vp) # p) q))
      else if etype_no T tp < etype_no T tq then
        (if tp = EUnknown then ([(tp, vp)], False)
         else map_prod (Cons (tp, vp)) id (add_merge T preserve p ((tq, vq) # q)))
      else if vp + vq = 0 then
        (if tp = EUnknown then ([], False) else add_merge T preserve p q)
      else
        (if tp = EUnknown then ([(tp, vp + vq)], True)
         else map_prod (Cons (tp, vp + vq)) (\<lambda>_. True) (add_merge T preserve p q)))"
  by pat_completeness auto
termination by (relation "measure (\<lambda>(T, preserve, p, q). length p + length q)") auto

definition add_vectors :: "tables \<Rightarrow> vec \<Rightarrow> vec \<Rightarrow> vec \<times> bool" where
  "add_vectors T p q = add_merge T (is_really_simple p \<or> is_really_simple q) p q"

text \<open>
  The product with a scalar, cut at the far-absolute part; the second result is whether the loop
  met the register of the hint.
\<close>

definition scalar_mult :: "tables \<Rightarrow> vec \<Rightarrow> 64 word \<Rightarrow> vec" where
  "scalar_mult T vect scalar =
     map (\<lambda>(t, val). (t, scalar * val)) (takeWhile (\<lambda>c. \<not> far_abs T (fst c)) vect)"

definition mult_hint :: "tables \<Rightarrow> vec \<Rightarrow> bool \<Rightarrow> reg option \<Rightarrow> eval_hint \<Rightarrow> eval_hint" where
  "mult_hint T vect affect_hints base hint =
     (if affect_hints \<and> hint = EAH_MAKEBASE \<and>
         (\<exists>r. base = Some r \<and> EReg r \<in> fst ` set (takeWhile (\<lambda>c. \<not> far_abs T (fst c)) vect))
      then EAH_NOTBASE else hint)"

definition scalarvect :: "64 word \<Rightarrow> vec" where
  "scalarvect scalar = [(ESimple, scalar)]"

definition unknown_expr :: vec where
  "unknown_expr = [(EUnknown, 1)]"

text \<open>The \<open>SEG\<close> operator; no result after an error.\<close>

definition segment_part :: "tables \<Rightarrow> int \<Rightarrow> vec \<Rightarrow> vec option" where
  "segment_part T loc_seg e =
     (if is_unknown T e then Some unknown_expr
      else if \<not> is_reloc T loc_seg e then None
      else let sg = reloc_seg T e in
        if sg = NO_SEG then None
        else if sg AND SEG_ABS \<noteq> 0 then Some (scalarvect (word_of_int (sg AND NOT SEG_ABS)))
        else if sg AND 1 \<noteq> 0 then None
        else Some [(ESegbase 0, 1)])"

subsection \<open>What a vector denotes\<close>

definition den :: "(etype \<Rightarrow> 64 word) \<Rightarrow> vec \<Rightarrow> 64 word" where
  "den env v = (\<Sum>(t, val) \<leftarrow> v. val * env t)"

lemma den_simps [simp]:
  "den env [] = 0" "den env ((t, val) # v) = val * env t + den env v" "den env (v @ w) = den env v + den env w"
  by (simp_all add: den_def)

text \<open>The registers the tables know have numbers of their own.\<close>

definition known_regs :: "tables \<Rightarrow> reg set" where
  "known_regs T = {r. 1 \<le> reg_no T r \<and> reg_no T r \<le> reg_end T}"

definition regs_ok :: "tables \<Rightarrow> bool" where
  "regs_ok T \<longleftrightarrow> inj_on (reg_no T) (known_regs T)"

text \<open>Components an effective address is made of: known registers and a number.\<close>

definition plain_type :: "tables \<Rightarrow> etype \<Rightarrow> bool" where
  "plain_type T t \<longleftrightarrow> t = ESimple \<or> (\<exists>r \<in> known_regs T. t = EReg r)"

definition plain_vec :: "tables \<Rightarrow> vec \<Rightarrow> bool" where
  "plain_vec T v \<longleftrightarrow> (\<forall>c \<in> set v. plain_type T (fst c))"

lemma plain_near: "plain_type T t \<Longrightarrow> \<not> far_abs T t" and plain_not_unknown: "plain_type T t \<Longrightarrow> t \<noteq> EUnknown"
  by (auto simp: plain_type_def far_abs_def EXPR_SEGBASE_def etype_no_def known_regs_def SEG_ABS_def)

lemma plain_vec_simps [simp]:
  "plain_vec T []"
  "plain_vec T ((t, val) # v) \<longleftrightarrow> plain_type T t \<and> plain_vec T v"
  by (auto simp: plain_vec_def)

lemma plain_vec_takeWhile: "plain_vec T v \<Longrightarrow> takeWhile (\<lambda>c. pr \<or> \<not> far_abs T (fst c)) v = v"
  by (simp add: plain_vec_def takeWhile_eq_all_conv plain_near)

lemma add_rest_plain: "plain_vec T v \<Longrightarrow> add_rest T pr v = v"
  unfolding add_rest_def by (rule plain_vec_takeWhile)

lemma plain_no_eq:
  assumes "regs_ok T" "plain_type T s" "plain_type T t" "etype_no T s = etype_no T t"
  shows "s = t"
  using assms unfolding regs_ok_def inj_on_def plain_type_def
  by (auto simp: etype_no_def known_regs_def)

lemma add_merge_den:
  assumes "regs_ok T" "plain_vec T p" "plain_vec T q"
  shows "den env (fst (add_merge T pr p q)) = den env p + den env q \<and> plain_vec T (fst (add_merge T pr p q))"
  using assms
proof (induction T pr p q rule: add_merge.induct)
  case (3 T pr tp vp p tq vq q)
  have near: "\<not> far_abs T tp" "\<not> far_abs T tq" "tp \<noteq> EUnknown" "tq \<noteq> EUnknown"
    using 3(6,7) plain_near [of T] plain_not_unknown [of T] by auto
  consider "etype_no T tq < etype_no T tp" | "etype_no T tp < etype_no T tq" | "etype_no T tp = etype_no T tq"
    by linarith
  then show ?case
  proof cases
    case 1
    then have "den env (fst (add_merge T pr ((tp, vp) # p) q)) = den env ((tp, vp) # p) + den env q \<and>
        plain_vec T (fst (add_merge T pr ((tp, vp) # p) q))"
      using 3(1,5-7) near by (simp only: plain_vec_simps simp_thms)
    then show ?thesis using 1 near 3(7) by (simp add: ac_simps)
  next
    case 2
    then have "den env (fst (add_merge T pr p ((tq, vq) # q))) = den env p + den env ((tq, vq) # q) \<and>
        plain_vec T (fst (add_merge T pr p ((tq, vq) # q)))"
      using 3(2,5-7) near by (simp only: plain_vec_simps simp_thms)
    then show ?thesis using 2 near 3(6) by (simp add: ac_simps)
  next
    case eq: 3
    then have t: "tp = tq" using plain_no_eq [OF 3(5), of tp tq] 3(6,7) by simp
    have IH: "den env (fst (add_merge T pr p q)) = den env p + den env q \<and> plain_vec T (fst (add_merge T pr p q))"
    proof (cases "vp + vq = 0")
      case True
      then show ?thesis using 3(3) 3(5-7) near eq by simp
    next
      case False
      then show ?thesis using 3(4) 3(5-7) near eq by simp
    qed
    have d: "vp * env tq + vq * env tq = (vp + vq) * env tq" by (simp only: distrib_right)
    show ?thesis
    proof (cases "vp + vq = 0")
      case True
      then have "vp * env tq + vq * env tq = 0" unfolding d by simp
      then show ?thesis using IH near t True by (simp add: add.assoc add.left_commute [of "den env p"])
    next
      case False
      then show ?thesis using IH near t 3(6) d by (simp add: ac_simps)
    qed
  qed
qed (simp_all only: add_merge.simps add_rest_plain fst_conv den_simps(1) add_0_left add_0_right simp_thms)

lemma add_vectors_den:
  assumes "regs_ok T" "plain_vec T p" "plain_vec T q"
  shows "den env (fst (add_vectors T p q)) = den env p + den env q" "plain_vec T (fst (add_vectors T p q))"
  using add_merge_den [OF assms] by (simp_all add: add_vectors_def)

lemma scalar_mult_plain: "plain_vec T v \<Longrightarrow> scalar_mult T v k = map (\<lambda>(t, val). (t, k * val)) v"
  using plain_vec_takeWhile [of T v False] unfolding scalar_mult_def by (simp only: simp_thms)

lemma scalar_mult_den:
  assumes "plain_vec T v"
  shows "den env (scalar_mult T v k) = k * den env v" "plain_vec T (scalar_mult T v k)"
proof -
  have "den env (map (\<lambda>(t, val). (t, k * val)) v) = k * den env v"
    by (induction v) (auto simp: algebra_simps)
  moreover have "plain_vec T (map (\<lambda>(t, val). (t, k * val)) v)" using assms by (induction v) auto
  ultimately show "den env (scalar_mult T v k) = k * den env v" "plain_vec T (scalar_mult T v k)"
    by (simp_all add: scalar_mult_plain [OF assms])
qed

end
