(* ===== verification/Integers.thy ===== *)
theory Integers
  imports Strings
begin

text \<open>
  Integer helpers of the expression evaluator: the portable logarithm of \<open>include/ilog2.h\<close>,
  \<open>is_power2\<close> of \<open>include/nasmlib.h\<close> and the character constants of \<open>engine/rdstrnum.c\<close>.
\<close>

unbundle bit_operations_syntax

subsection \<open>Binary logarithms\<close>

text \<open>The macro \<open>ROUND(v, a, w)\<close>: if a bit of the upper half of 2w bits is set, shift it down.\<close>

definition ROUND :: "nat \<Rightarrow> 32 word \<times> nat \<Rightarrow> 32 word \<times> nat" where
  "ROUND w va =
     (let (v, a) = va in
      if v AND push_bit w (push_bit w 1 - 1) \<noteq> 0 then (drop_bit w v, a + w) else (v, a))"

definition ilog2_32 :: "32 word \<Rightarrow> nat" where
  "ilog2_32 v = snd (ROUND 1 (ROUND 2 (ROUND 4 (ROUND 8 (ROUND 16 (v, 0))))))"

definition ilog2_64 :: "64 word \<Rightarrow> nat" where
  "ilog2_64 vv =
     (let v = ucast (drop_bit 32 vv) :: 32 word
      in if v \<noteq> 0 then 32 + ilog2_32 v else ilog2_32 (ucast vv))"

definition is_power2 :: "64 word \<Rightarrow> bool" where
  "is_power2 v \<longleftrightarrow> v \<noteq> 0 \<and> v AND (v - 1) = 0"

definition alignlog2_32 :: "32 word \<Rightarrow> int" where
  "alignlog2_32 v = (if v AND (v - 1) \<noteq> 0 then -1 else int (ilog2_32 v))"

definition alignlog2_64 :: "64 word \<Rightarrow> int" where
  "alignlog2_64 v = (if v AND (v - 1) \<noteq> 0 then -1 else int (ilog2_64 v))"

lemma unat_drop: "unat (drop_bit w v) = unat v div 2 ^ w" for v :: "'a::len word"
  using unat_drop_bit_eq [of w v] by (simp only: drop_bit_nat_def)

text \<open>The mask of the macro decides whether the value needs more than \<open>w\<close> bits.\<close>

lemma round_mask:
  fixes v :: "32 word"
  assumes "unat v < 2 ^ (2 * w)" "2 * w \<le> 32"
  shows "v AND push_bit w (push_bit w 1 - 1) \<noteq> 0 \<longleftrightarrow> 2 ^ w \<le> unat v"
proof -
  have m: "push_bit w (push_bit w 1 - 1) = push_bit w (mask w :: 32 word)"
    by (simp add: mask_eq_exp_minus_1 push_bit_eq_mult)
  have "v AND push_bit w (mask w) = push_bit w (take_bit w (drop_bit w v))"
    by (rule bit_word_eqI) (auto simp: bit_simps)
  moreover have "take_bit w (drop_bit w v) = drop_bit w v"
  proof -
    have "unat (drop_bit w v) < 2 ^ w"
      using assms(1) unfolding unat_drop by (simp add: less_mult_imp_div_less power_add mult_2)
    then have "unat (take_bit w (drop_bit w v)) = unat (drop_bit w v)"
      by (simp only: unsigned_take_bit_eq take_bit_nat_eq_self)
    then show ?thesis by (simp only: word_unat_eq_iff)
  qed
  ultimately have e: "v AND push_bit w (mask w) = push_bit w (drop_bit w v)" by (simp only:)
  have "push_bit w (drop_bit w v) = 0 \<longleftrightarrow> drop_bit w v = 0"
  proof
    assume "push_bit w (drop_bit w v) = 0"
    then have "drop_bit w (push_bit w (drop_bit w v)) = 0" by simp
    moreover have "drop_bit w (push_bit w (drop_bit w v)) = drop_bit w v"
      by (rule bit_word_eqI) (auto simp: bit_simps dest: bit_imp_le_length)
    ultimately show "drop_bit w v = 0" by simp
  qed simp
  also have "\<dots> \<longleftrightarrow> unat v div 2 ^ w = 0"
    by (simp only: word_unat_eq_iff unat_drop unat_0)
  finally show ?thesis unfolding m e by (simp add: div_eq_0_iff not_less)
qed

text \<open>What the rounds keep: \<open>a\<close> is how far the original value was shifted.\<close>

definition round_ok :: "nat \<Rightarrow> nat \<Rightarrow> 32 word \<times> nat \<Rightarrow> bool" where
  "round_ok v0 w va \<longleftrightarrow> unat (fst va) < 2 ^ w \<and> unat (fst va) = v0 div 2 ^ snd va \<and> 0 < unat (fst va)"

lemma round_step:
  assumes "round_ok v0 (2 * w) va" "2 * w \<le> 32"
  shows "round_ok v0 w (ROUND w va)"
proof -
  obtain v a where va: "va = (v, a)" by (cases va)
  have v: "unat v < 2 ^ (2 * w)" "unat v = v0 div 2 ^ a" "0 < unat v"
    using assms(1) by (simp_all add: round_ok_def va)
  show ?thesis
  proof (cases "2 ^ w \<le> unat v")
    case True
    have "unat v div 2 ^ w < 2 ^ w"
      using v(1) by (simp add: less_mult_imp_div_less power_add mult_2)
    moreover have "0 < unat v div 2 ^ w" using True by (simp add: div_greater_zero_iff)
    moreover have "unat v div 2 ^ w = v0 div 2 ^ (a + w)" using v(2) by (simp add: div_mult2_eq power_add)
    ultimately show ?thesis
      using round_mask [OF v(1) assms(2)] True
      by (simp add: ROUND_def va round_ok_def unat_drop)
  next
    case False
    then show ?thesis using round_mask [OF v(1) assms(2)] v by (simp add: ROUND_def va round_ok_def)
  qed
qed

lemma ilog2_32_round:
  assumes "v \<noteq> 0"
  shows "unat v div 2 ^ ilog2_32 v = 1"
proof -
  have "unat v < 2 ^ 32" using unsigned_less [of v] by simp
  moreover have "0 < unat v" using assms by (simp add: unat_gt_0)
  ultimately have "round_ok (unat v) (2 * 16) (v, 0)" by (simp add: round_ok_def)
  from round_step [OF this] have "round_ok (unat v) (2 * 8) (ROUND 16 (v, 0))" by simp
  from round_step [OF this] have "round_ok (unat v) (2 * 4) (ROUND 8 (ROUND 16 (v, 0)))" by simp
  from round_step [OF this] have "round_ok (unat v) (2 * 2) (ROUND 4 (ROUND 8 (ROUND 16 (v, 0))))" by simp
  from round_step [OF this] have "round_ok (unat v) (2 * 1) (ROUND 2 (ROUND 4 (ROUND 8 (ROUND 16 (v, 0)))))" by simp
  from round_step [OF this]
  have "round_ok (unat v) 1 (ROUND 1 (ROUND 2 (ROUND 4 (ROUND 8 (ROUND 16 (v, 0))))))" by simp
  then show ?thesis by (simp add: round_ok_def ilog2_32_def)
qed

lemma ilog2_64_div:
  assumes "v \<noteq> 0"
  shows "unat v div 2 ^ ilog2_64 v = 1"
proof -
  let ?h = "ucast (drop_bit 32 v) :: 32 word"
  have h: "unat ?h = unat v div 2 ^ 32"
  proof -
    have "unat v < 2 ^ 64" using unsigned_less [of v] by simp
    then have "unat v div 2 ^ 32 < 2 ^ 32" by (simp add: less_mult_imp_div_less)
    moreover have "unat ?h = take_bit 32 (unat (drop_bit 32 v))"
      by (simp add: unsigned_ucast_eq unsigned_take_bit_eq)
    ultimately show ?thesis by (simp only: unat_drop take_bit_nat_eq_self)
  qed
  show ?thesis
  proof (cases "?h = 0")
    case False
    have "unat v div 2 ^ (32 + ilog2_32 ?h) = unat ?h div 2 ^ ilog2_32 ?h"
      by (simp add: h power_add div_mult2_eq)
    then show ?thesis using ilog2_32_round [OF False] False by (simp add: ilog2_64_def Let_def)
  next
    case True
    then have "unat v div 2 ^ 32 = 0" using h by simp
    then have s: "unat v < 2 ^ 32" by (simp add: div_eq_0_iff)
    then have u: "unat (ucast v :: 32 word) = unat v" by (simp add: unsigned_ucast_eq unsigned_take_bit_eq take_bit_nat_eq_self)
    have "(ucast v :: 32 word) \<noteq> 0"
    proof
      assume "(ucast v :: 32 word) = 0"
      then have "unat v = 0" using u by simp
      then show False using assms by (simp add: unsigned_eq_0_iff)
    qed
    from ilog2_32_round [OF this] show ?thesis using True u by (simp add: ilog2_64_def Let_def)
  qed
qed

lemma power2_test:
  fixes v :: "64 word"
  assumes "unat v div 2 ^ k = 1"
  shows "v AND (v - 1) = 0 \<longleftrightarrow> unat v = 2 ^ k"
proof -
  obtain r where r: "unat v = 2 ^ k + r" "r < 2 ^ k"
  proof -
    have "unat v = 2 ^ k * 1 + unat v mod 2 ^ k"
      using assms mult_div_mod_eq [of "2 ^ k" "unat v"] by simp
    then show ?thesis using that [of "unat v mod 2 ^ k"] by simp
  qed
  have pos: "v \<noteq> 0" using r(1) by auto
  then have u: "unat (v - 1) = unat v - 1" by (simp add: unat_minus_one)
  have a: "unat (v AND (v - 1)) = and (unat v) (unat v - 1)" by (simp add: unsigned_and_eq u)
  show ?thesis
  proof (cases "r = 0")
    case True
    have "and (2 ^ k) (2 ^ k - 1) = (0 :: nat)"
    proof -
      have "and (2 ^ k) (mask k) = (0 :: nat)"
        by (rule bit_eqI) (auto simp: bit_simps)
      then show ?thesis by (simp add: mask_eq_exp_minus_1)
    qed
    then show ?thesis using True r a by (simp add: word_unat_eq_iff)
  next
    case False
    have "(unat v - 1) div 2 ^ k = 1"
    proof -
      have "unat v - 1 = (r - 1) + 2 ^ k * 1" "r - 1 < 2 ^ k" using False r by simp_all
      then show ?thesis by (simp only: div_mult_self2 div_less)
    qed
    then have "bit (unat v - 1) k" "bit (unat v) k" using assms by (simp_all add: bit_iff_odd)
    then have "bit (and (unat v) (unat v - 1)) k" by (simp only: bit_and_iff)
    then have "and (unat v) (unat v - 1) \<noteq> 0" by (metis bit_0_eq bot_apply bot_bool_def)
    then show ?thesis using False r a by (simp add: word_unat_eq_iff)
  qed
qed

text \<open>
  C34: The portable logarithm is the floor of the binary logarithm for every nonzero 64-bit value,
  and 0 for 0; the alignment logarithm is the exponent of a power of two, 0 for 0 and -1 for
  every other value.
\<close>

theorem ilog2_is_floor_log:
  "(if v = 0 then ilog2_64 v = 0 else 2 ^ ilog2_64 v \<le> unat v \<and> unat v < 2 ^ Suc (ilog2_64 v)) \<and>
   is_power2 v = (\<exists>n. unat v = 2 ^ n) \<and>
   alignlog2_64 v = (if v = 0 then 0 else if is_power2 v then int (ilog2_64 v) else -1)"
proof -
  have z: "ilog2_64 0 = 0" by (simp add: ilog2_64_def ilog2_32_def ROUND_def)
  show ?thesis
  proof (cases "v = 0")
    case True
    then show ?thesis using z by (simp add: is_power2_def alignlog2_64_def)
  next
    case False
    have d: "unat v div 2 ^ ilog2_64 v = 1" by (rule ilog2_64_div [OF False])
    have "unat v = 2 ^ ilog2_64 v + unat v mod 2 ^ ilog2_64 v"
      using d mult_div_mod_eq [of "2 ^ ilog2_64 v" "unat v"] by simp
    moreover have "unat v mod 2 ^ ilog2_64 v < 2 ^ ilog2_64 v" by (rule mod_less_divisor) simp
    ultimately have "2 ^ ilog2_64 v \<le> unat v" "unat v < 2 * 2 ^ ilog2_64 v" by linarith+
    then have b: "2 ^ ilog2_64 v \<le> unat v" "unat v < 2 ^ Suc (ilog2_64 v)" by simp_all
    have "(\<exists>n. unat v = 2 ^ n) \<longleftrightarrow> unat v = 2 ^ ilog2_64 v"
    proof
      assume "\<exists>n. unat v = 2 ^ n"
      then obtain n where n: "unat v = 2 ^ n" ..
      then have "ilog2_64 v \<le> n" "n < Suc (ilog2_64 v)" using b
        by (simp_all only: n power_increasing_iff power_strict_increasing_iff)
      then show "unat v = 2 ^ ilog2_64 v" using n by (simp add: le_antisym)
    qed blast
    then show ?thesis using False z b power2_test [OF d] by (simp add: is_power2_def alignlog2_64_def)
  qed
qed


subsection \<open>Character constants\<close>

text \<open>
  The loop of \<open>readstrnum\<close> runs from the last character to the first; the two branches for the
  bit size differ in the mask of the top byte only.  The result is the 64-bit pattern of the
  signed value.
\<close>

definition readstrnum_step :: "64 word \<Rightarrow> char \<Rightarrow> 64 word \<times> bool \<Rightarrow> 64 word \<times> bool" where
  "readstrnum_step tp c st =
     (push_bit 8 (fst st AND NOT tp) + of_char c, snd st \<or> fst st AND tp \<noteq> 0)"

definition readstrnum :: "nat \<Rightarrow> string \<Rightarrow> nat \<Rightarrow> 64 word \<times> bool" where
  "readstrnum globalbits str len =
     foldr (readstrnum_step (if globalbits = 64 then 0xFF00000000000000 else 0xFF000000)) (take len str) (0, False)"

text \<open>The reference: a little-endian number of base 256.\<close>

primrec bytes_num :: "string \<Rightarrow> nat" where
  "bytes_num [] = 0"
| "bytes_num (c # cs) = of_char c + 256 * bytes_num cs"

lemma of_char_less: "(of_char c :: nat) < 256"
  by (simp add: of_char_def)

lemma of_char_zero: "0 < (of_char c :: nat) \<longleftrightarrow> c \<noteq> CHR 0x00"
  proof -
  have "(of_char c :: nat) = 0 \<longleftrightarrow> c = CHR 0x00"
    using of_char_eq_iff [of c "CHR 0x00", where ?'a = nat] by simp
  then show ?thesis by (metis gr0I less_numeral_extra(3))
qed


lemma bytes_num_digit: "bytes_num s div 256 ^ j mod 256 = (if j < length s then of_char (s ! j) else 0)"
proof (induction s arbitrary: j)
  case (Cons c cs)
  show ?case
  proof (cases j)
    case 0
    then show ?thesis using of_char_less [of c] by simp
  next
    case (Suc i)
    have "(of_char c + 256 * bytes_num cs) div 256 = bytes_num cs" using of_char_less [of c] by simp
    then have "bytes_num (c # cs) div 256 ^ j = bytes_num cs div 256 ^ i"
      by (simp add: Suc div_mult2_eq)
    then show ?thesis using Cons [of i] Suc by simp
  qed
qed simp

lemma bytes_num_take: "bytes_num (take k s) = bytes_num s mod 256 ^ k"
proof (induction s arbitrary: k)
  case (Cons c cs)
  show ?case
  proof (cases k)
    case (Suc j)
    have "(of_char c + 256 * bytes_num cs) mod (256 * 256 ^ j) = 256 * (bytes_num cs mod 256 ^ j) + of_char c"
      using of_char_less [of c] by (subst mod_mult2_eq) simp
    then show ?thesis using Cons [of j] Suc by simp
  qed simp
qed simp

text \<open>One step in the numbers: \<open>b\<close> is the position of the top byte.\<close>

lemma readstrnum_step_num:
  fixes v :: "64 word"
  assumes b: "b + 8 \<le> 64" and v: "unat v < 2 ^ (b + 8)"
  shows "unat (push_bit 8 (v AND NOT (push_bit b 0xFF)) + of_char c) = of_char c + 256 * (unat v mod 2 ^ b)"
    and "v AND push_bit b 0xFF \<noteq> 0 \<longleftrightarrow> unat v div 2 ^ b \<noteq> 0"
proof -
  have high: "\<not> bit v n" if "b + 8 \<le> n" for n
  proof -
    have "take_bit (b + 8) (unat v) = unat v" using v by (simp add: take_bit_nat_eq_self)
    then have "bit (unat v) n \<longleftrightarrow> n < b + 8 \<and> bit (unat v) n" by (metis bit_take_bit_iff)
    then show ?thesis using that by (simp add: bit_unsigned_iff)
  qed
  have ff: "(0xFF :: 64 word) = mask 8" by (simp add: mask_eq_exp_minus_1)
  have m: "v AND NOT (push_bit b 0xFF) = take_bit b v"
    unfolding ff by (rule bit_word_eqI) (use high in \<open>force simp: bit_simps\<close>)
  have u: "unat (take_bit b v) = unat v mod 2 ^ b" 
    using unsigned_take_bit_eq [of b v, where ?'a = nat] by (simp only: take_bit_nat_def)
  have l: "unat v mod 2 ^ b < 2 ^ b" by simp
  have "2 ^ b * 256 = (2 :: nat) ^ (b + 8)" by (simp add: power_add)
  also have "\<dots> \<le> 2 ^ 64" using b by (intro power_increasing) simp_all
  finally have p: "(2 :: nat) ^ b * 256 \<le> 2 ^ 64" .
  have "of_char c + 256 * (unat v mod 2 ^ b) < 2 ^ 64" using l p of_char_less [of c] by linarith
  moreover have "push_bit 8 (take_bit b v) + of_char c
      = (of_nat (of_char c + 256 * unat (take_bit b v)) :: 64 word)"
    by (simp add: push_bit_eq_mult of_nat_of_char)
  ultimately show "unat (push_bit 8 (v AND NOT (push_bit b 0xFF)) + of_char c) = of_char c + 256 * (unat v mod 2 ^ b)"
    unfolding m u by (simp only: unat_of_nat) simp
  have "v AND push_bit b 0xFF = push_bit b (drop_bit b v)"
    unfolding ff
  proof (rule bit_word_eqI)
    fix n assume n: "n < LENGTH(64)"
    show "bit (v AND push_bit b (mask 8)) n = bit (push_bit b (drop_bit b v)) n"
      by (cases "b \<le> n"; cases "b + 8 \<le> n") (use n high [of n] in \<open>auto simp: bit_simps\<close>)
  qed
  moreover have "push_bit b (drop_bit b v) = 0 \<longleftrightarrow> drop_bit b v = 0"
  proof
    assume "push_bit b (drop_bit b v) = 0"
    then have "take_bit b v = v" using bits_ident [of b v] by (simp only: add_0_left)
    then have "drop_bit b v = drop_bit b (take_bit b v)" by (simp only:)
    also have "\<dots> = 0" by (simp only: drop_bit_take_bit diff_self_eq_0 take_bit_0)
    finally show "drop_bit b v = 0" .
  qed simp
  moreover have "drop_bit b v = 0 \<longleftrightarrow> unat v div 2 ^ b = 0"
    by (simp only: word_unat_eq_iff unat_drop unat_0)
  ultimately show "v AND push_bit b 0xFF \<noteq> 0 \<longleftrightarrow> unat v div 2 ^ b \<noteq> 0" by simp
qed

lemma readstrnum_foldr:
  assumes "8 * Suc k \<le> 64"
  shows "unat (fst (foldr (readstrnum_step (push_bit (8 * k) 0xFF)) s (0, False))) = bytes_num s mod 256 ^ Suc k
     \<and> snd (foldr (readstrnum_step (push_bit (8 * k) 0xFF)) s (0, False)) = (\<exists>j < length s. k < j \<and> s ! j \<noteq> CHR 0x00)"
proof (induction s)
  case (Cons c cs)
  let ?v = "fst (foldr (readstrnum_step (push_bit (8 * k) 0xFF)) cs (0, False))"
  let ?n = "bytes_num cs"
  have p: "(2 :: nat) ^ (8 * k) = 256 ^ k" by (simp add: power_mult)
  have p': "(2 :: nat) ^ (8 * k + 8) = 256 ^ Suc k" by (simp add: power_mult power_add)
  have IH: "unat ?v = ?n mod 256 ^ Suc k" using Cons by blast
  have b: "8 * k + 8 \<le> 64" using assms by simp
  have "unat ?v < 2 ^ (8 * k + 8)" unfolding IH p' by simp
  note step = readstrnum_step_num [OF b this, unfolded p]
  have "?n mod 256 ^ Suc k mod 256 ^ k = ?n mod 256 ^ k" by (simp add: mod_mod_cancel)
  moreover have "of_char c + 256 * (?n mod 256 ^ k) = bytes_num (take (Suc k) (c # cs))"
    by (simp add: bytes_num_take)
  ultimately have val: "unat (push_bit 8 (?v AND NOT (push_bit (8 * k) 0xFF)) + of_char c) = bytes_num (c # cs) mod 256 ^ Suc k"
    unfolding step(1) IH bytes_num_take by simp
  have "?n mod 256 ^ Suc k div 256 ^ k = ?n div 256 ^ k mod 256"
    by (simp only: power_Suc2 mod_mult2_eq) simp
  then have "?v AND push_bit (8 * k) 0xFF \<noteq> 0 \<longleftrightarrow> k < length cs \<and> cs ! k \<noteq> CHR 0x00"
    unfolding step(2) IH by (simp add: bytes_num_digit of_char_zero)
  moreover have "(\<exists>j < length (c # cs). k < j \<and> (c # cs) ! j \<noteq> CHR 0x00)
      \<longleftrightarrow> (\<exists>j < length cs. k \<le> j \<and> cs ! j \<noteq> CHR 0x00)"
  proof
    assume "\<exists>j < length (c # cs). k < j \<and> (c # cs) ! j \<noteq> CHR 0x00"
    then obtain j where "j < length (c # cs)" "k < j" "(c # cs) ! j \<noteq> CHR 0x00" by blast
    then show "\<exists>j < length cs. k \<le> j \<and> cs ! j \<noteq> CHR 0x00" by (intro exI [of _ "j - 1"]) (cases j; simp)
  next
    assume "\<exists>j < length cs. k \<le> j \<and> cs ! j \<noteq> CHR 0x00"
    then obtain j where "j < length cs" "k \<le> j" "cs ! j \<noteq> CHR 0x00" by blast
    then show "\<exists>j < length (c # cs). k < j \<and> (c # cs) ! j \<noteq> CHR 0x00" by (intro exI [of _ "Suc j"]) simp
  qed
  moreover have "(\<exists>j < length cs. k \<le> j \<and> cs ! j \<noteq> CHR 0x00)
      \<longleftrightarrow> (\<exists>j < length cs. k < j \<and> cs ! j \<noteq> CHR 0x00) \<or> k < length cs \<and> cs ! k \<noteq> CHR 0x00"
    by (metis le_eq_less_or_eq)
  ultimately show ?case using val Cons
      readstrnum_step_def [of "push_bit (8 * k) 0xFF" c "foldr (readstrnum_step (push_bit (8 * k) 0xFF)) cs (0, False)"]
    by (simp del: bytes_num.simps push_bit_and)
qed simp

text \<open>
  C33: A character constant has the little-endian value of its first four characters, eight in
  64-bit mode, and the warning is raised exactly when one of the further characters is not zero.
\<close>

theorem readstrnum_little_endian:
  "unat (fst (readstrnum bits str (length str))) = bytes_num (take (if bits = 64 then 8 else 4) str) \<and>
   snd (readstrnum bits str (length str))
     = (\<exists>c \<in> set (drop (if bits = 64 then 8 else 4) str). c \<noteq> CHR 0x00)"
proof -
  have set: "(\<exists>c \<in> set (drop (Suc k) str). c \<noteq> CHR 0x00) \<longleftrightarrow> (\<exists>j < length str. k < j \<and> str ! j \<noteq> CHR 0x00)" for k
  proof
    assume "\<exists>c \<in> set (drop (Suc k) str). c \<noteq> CHR 0x00"
    then obtain i where "i < length str - Suc k" "str ! (Suc k + i) \<noteq> CHR 0x00"
      by (auto simp: in_set_conv_nth)
    then show "\<exists>j < length str. k < j \<and> str ! j \<noteq> CHR 0x00" by (intro exI [of _ "Suc k + i"]) simp
  next
    assume "\<exists>j < length str. k < j \<and> str ! j \<noteq> CHR 0x00"
    then obtain j where "j < length str" "k < j" "str ! j \<noteq> CHR 0x00" by blast
    then show "\<exists>c \<in> set (drop (Suc k) str). c \<noteq> CHR 0x00"
      by (intro bexI [of _ "str ! j"]) (auto simp: in_set_conv_nth intro!: exI [of _ "j - Suc k"])
  qed
  show ?thesis
  proof (cases "bits = 64")
    case True
    then show ?thesis using readstrnum_foldr [of 7 str] set [of 7]
      by (simp add: readstrnum_def bytes_num_take)
  next
    case False
    then show ?thesis using readstrnum_foldr [of 3 str] set [of 3]
      by (simp add: readstrnum_def bytes_num_take)
  qed
qed

end
