(* ===== verification/Lexer.thy ===== *)
theory Lexer
  imports GenState
begin

text \<open>
  The scanner \<open>get_token\<close> of \<open>engine/buf2token.c\<close>, as a function from the text at
  \<open>token_bufptr\<close> to the token and the text behind it; what it reads from the texts the generator
  writes, and its progress, which the evaluator of expressions relies on.
\<close>

subsection \<open>The scanner\<close>

definition IDLEN_MAX :: nat where
  "IDLEN_MAX = 4096"

definition get_token :: "tables \<Rightarrow> string \<Rightarrow> token \<times> string" where
  "get_token T buf =
     (let p = dropWhile nasm_isspace buf in
      case p of
        [] \<Rightarrow> (TokEos, [])
      | c # r \<Rightarrow>
          if nasm_isidstart c then
            (let word = take (IDLEN_MAX - 1) (c # takeWhile nasm_isidchar r)
             in (if token_brc T word then TokId word else nasm_token_hash T word, dropWhile nasm_isidchar r))
          else if nasm_isnumstart c then
            (case readnum (takeWhile nasm_isnumchar p) of
               None \<Rightarrow> TokErrNum
             | Some (n, _) \<Rightarrow> TokNum n, dropWhile nasm_isnumchar p)
          else if c = CHR '';'' \<or> code c = 10 then (TokEos, p)
          else (TokChar c, r))"

subsection \<open>Progress\<close>

text \<open>
  The scanner stays where it is at the end of the text only, and at a lone \<open>$\<close>, which is a
  malformed number.
\<close>

lemma readnum_empty: "readnum [] = None"
  by (simp add: readnum_def Let_def)

lemma get_token_blank: "dropWhile nasm_isspace buf = [] \<Longrightarrow> get_token T buf = (TokEos, [])"
  unfolding get_token_def Let_def by (simp only: list.case)

lemma get_token_length: "length (snd (get_token T buf)) \<le> length buf"
proof (cases "dropWhile nasm_isspace buf")
  case (Cons c r)
  then have "length (c # r) \<le> length buf" using length_dropWhile_le [of nasm_isspace buf] by simp
  moreover have "length (snd (get_token T buf)) \<le> length (c # r)"
    using length_dropWhile_le [of nasm_isnumchar r] length_dropWhile_le [of nasm_isidchar r]
    by (simp add: get_token_def Cons Let_def)
  ultimately show ?thesis by linarith
qed (simp add: get_token_blank)

lemma get_token_progress:
  assumes "get_token T buf = (t, rest)" "t \<noteq> TokEos" "t \<noteq> TokErrNum"
  shows "length rest < length buf"
proof (cases "dropWhile nasm_isspace buf")
  case (Cons c r)
  have "length (c # r) \<le> length buf" using length_dropWhile_le [of nasm_isspace buf] Cons by simp
  moreover have "length rest \<le> length r"
  proof (cases "nasm_isnumchar c")
    case True
    then show ?thesis
      using assms Cons length_dropWhile_le [of nasm_isnumchar r] length_dropWhile_le [of nasm_isidchar r]
      by (auto simp: get_token_def Let_def split: if_splits option.splits)
  next
    case False
    then show ?thesis using assms Cons length_dropWhile_le [of nasm_isidchar r]
      by (auto simp: get_token_def Let_def readnum_empty split: if_splits)
  qed
  ultimately show ?thesis by simp
qed (use assms in \<open>simp add: get_token_blank\<close>)

subsection \<open>Reading what the generator writes\<close>

text \<open>A word of the text: it starts an identifier, and no identifier character follows.\<close>

definition is_word :: "tables \<Rightarrow> string \<Rightarrow> bool" where
  "is_word T w \<longleftrightarrow> w \<noteq> [] \<and> nasm_isidstart (hd w) \<and> (\<forall>c \<in> set w. nasm_isidchar c) \<and>
     length w < IDLEN_MAX \<and> \<not> token_brc T w"

definition ends_word :: "string \<Rightarrow> bool" where
  "ends_word r \<longleftrightarrow> (case r of [] \<Rightarrow> True | c # _ \<Rightarrow> \<not> nasm_isidchar c)"

lemma space_classes:
  assumes "nasm_isspace c"
  shows "\<not> nasm_isidchar c \<and> \<not> nasm_isidstart c \<and> \<not> nasm_isnumchar c"
proof -
  have "code c \<in> set [9, 11, 12, 13, 32]" using assms by (simp add: nasm_isspace_iff)
  then have "c \<in> set (map char_of [9, 11, 12, 13, 32 :: nat])"
    unfolding set_map by (intro image_eqI [where x = "code c"]) simp_all
  moreover have "list_all (\<lambda>c. \<not> nasm_isidchar c \<and> \<not> nasm_isidstart c \<and> \<not> nasm_isnumchar c)
      (map char_of [9, 11, 12, 13, 32 :: nat])" by code_simp
  ultimately show ?thesis unfolding list_all_iff by blast
qed

text \<open>The operators and brackets of an effective address.\<close>

lemma op_chars:
  assumes "c \<in> set ''[]+-*,''"
  shows "\<not> nasm_isspace c \<and> \<not> nasm_isidchar c \<and> \<not> nasm_isidstart c \<and> \<not> nasm_isnumstart c \<and>
    \<not> nasm_isnumchar c \<and> c \<noteq> CHR '';'' \<and> code c \<noteq> 10"
proof -
  have "list_all (\<lambda>c. \<not> nasm_isspace c \<and> \<not> nasm_isidchar c \<and> \<not> nasm_isidstart c \<and> \<not> nasm_isnumstart c \<and>
    \<not> nasm_isnumchar c \<and> c \<noteq> CHR '';'' \<and> code c \<noteq> 10) ''[]+-*,''" by code_simp
  then show ?thesis using assms unfolding list_all_iff by blast
qed

lemma takeWhile_ends: "\<forall>c \<in> set w. Q c \<Longrightarrow> r = [] \<or> \<not> Q (hd r) \<Longrightarrow>
    takeWhile Q (w @ r) = w \<and> dropWhile Q (w @ r) = r"
  by (cases r) (auto simp: takeWhile_append2)

lemma get_token_space: "nasm_isspace c \<Longrightarrow> get_token T (c # buf) = get_token T buf"
  by (simp add: get_token_def)

lemma get_token_word:
  assumes "is_word T w" "ends_word r"
  shows "get_token T (w @ r) = (nasm_token_hash T w, r)"
proof -
  obtain c cs where w: "w = c # cs" using assms(1) by (cases w) (auto simp: is_word_def)
  have c: "nasm_isidstart c" "\<forall>c \<in> set cs. nasm_isidchar c" "length w < IDLEN_MAX" "\<not> token_brc T w"
    using assms(1) by (auto simp: is_word_def w)
  have ns: "\<not> nasm_isspace c" using c(1) space_classes by blast
  have "r = [] \<or> \<not> nasm_isidchar (hd r)" using assms(2) by (cases r) (auto simp: ends_word_def)
  with takeWhile_ends [OF c(2)] have "takeWhile nasm_isidchar (cs @ r) = cs" "dropWhile nasm_isidchar (cs @ r) = r"
    by simp_all
  then show ?thesis using c ns by (simp add: get_token_def w Let_def)
qed

lemma get_token_char:
  assumes "\<not> nasm_isspace c" "\<not> nasm_isidstart c" "\<not> nasm_isnumstart c" "c \<noteq> CHR '';''" "code c \<noteq> 10"
  shows "get_token T (c # r) = (TokChar c, r)"
  using assms by (simp add: get_token_def)

lemma digit_char_set: "d < 10 \<Longrightarrow> digit_char d \<in> set ''0123456789''"
  "d < 16 \<Longrightarrow> digit_char d \<in> set ''0123456789abcdef''"
proof -
  show l: "d < 16 \<Longrightarrow> digit_char d \<in> set ''0123456789abcdef''"
    by (frule less_16_cases) (elim disjE, simp_all add: digit_char_def char_of_def bit_Suc_0_iff)
  assume a: "d < 10"
  then have "d < 16" by simp
  from less_16_cases [OF this] a show "digit_char d \<in> set ''0123456789''"
    by (elim disjE) (simp_all add: digit_char_def char_of_def bit_Suc_0_iff)
qed

lemma digit_classes:
  "d < 16 \<Longrightarrow> nasm_isnumchar (digit_char d)"
  "d < 10 \<Longrightarrow> \<not> nasm_isspace (digit_char d) \<and> \<not> nasm_isidstart (digit_char d) \<and> nasm_isnumstart (digit_char d)"
proof -
  have "list_all nasm_isnumchar ''0123456789abcdef''" by code_simp
  then show "d < 16 \<Longrightarrow> nasm_isnumchar (digit_char d)"
    using digit_char_set(2) unfolding list_all_iff by blast
  have "list_all (\<lambda>c. \<not> nasm_isspace c \<and> \<not> nasm_isidstart c \<and> nasm_isnumstart c) ''0123456789''" by code_simp
  then show "d < 10 \<Longrightarrow> \<not> nasm_isspace (digit_char d) \<and> \<not> nasm_isidstart (digit_char d) \<and> nasm_isnumstart (digit_char d)"
    using digit_char_set(1) unfolding list_all_iff by blast
qed

definition ends_number :: "string \<Rightarrow> bool" where
  "ends_number r \<longleftrightarrow> (case r of [] \<Rightarrow> True | c # _ \<Rightarrow> \<not> nasm_isnumchar c)"

lemma get_token_number:
  assumes "num = c # cs" "\<not> nasm_isspace c" "\<not> nasm_isidstart c" "nasm_isnumstart c"
    "\<forall>c \<in> set num. nasm_isnumchar c" "ends_number r" "readnum num = Some (n, w)"
  shows "get_token T (num @ r) = (TokNum n, r)"
proof -
  have "r = [] \<or> \<not> nasm_isnumchar (hd r)" using assms(6) by (cases r) (auto simp: ends_number_def)
  from takeWhile_ends [OF assms(5) this] show ?thesis
    using assms by (simp add: get_token_def Let_def)
qed

lemma numeral_isnumchar: "2 \<le> b \<Longrightarrow> b \<le> 16 \<Longrightarrow> \<forall>c \<in> set (numeral_string b n). nasm_isnumchar c"
proof
  fix c
  assume b: "2 \<le> b" "b \<le> 16" "c \<in> set (numeral_string b n)"
  obtain d where "d < b" "d < 16" "c = digit_char d" using numeral_string_digit [OF b(3,1,2)] .
  then show "nasm_isnumchar c" using digit_classes(1) by simp
qed

lemma get_token_hex:
  assumes "ends_number r"
  shows "get_token T (''0x'' @ numeral_string 16 n @ r) = (TokNum (word_of_nat n), r)"
proof -
  have "\<not> nasm_isspace (CHR ''0'') \<and> \<not> nasm_isidstart (CHR ''0'') \<and> nasm_isnumstart (CHR ''0'') \<and>
     nasm_isnumchar (CHR ''0'') \<and> nasm_isnumchar (CHR ''x'')" by code_simp
  then show ?thesis
    using get_token_number [of "''0x'' @ numeral_string 16 n" "CHR ''0''" "CHR ''x'' # numeral_string 16 n" r]
      readnum_hex [of n] numeral_isnumchar [of 16 n] assms by simp
qed

lemma get_token_dec:
  assumes "ends_number r"
  shows "get_token T (numeral_string 10 n @ r) = (TokNum (word_of_nat n), r)"
proof -
  obtain c cs where c: "numeral_string 10 n = c # cs" by (cases "numeral_string 10 n") auto
  then have "c \<in> set (numeral_string 10 n)" by simp
  then obtain d where d: "d < 10" "numeral_string 10 n = digit_char d # cs"
    using numeral_string_digit [of c 10 n] c by auto
  show ?thesis
    using get_token_number [OF d(2) _ _ _ _ assms readnum_dec] digit_classes(2) [of d] d(1) numeral_isnumchar [of 10 n]
    by simp
qed

end
