(* ===== verification/Eval.thy ===== *)
theory Eval
  imports Expr Integers Lexer "HOL-Library.Signed_Division"
begin

text \<open>
  The expression evaluator of \<open>engine/eval.c\<close>: a recursive-descent parser with one function per
  level of precedence, over any scanner.  A null result, after which the error has been reported,
  is no vector; nonfatal errors that only print go on.  The recursion runs on fuel; that enough
  fuel never runs out is proved for every scanner that comes to an end.

  \<open>location.known\<close> is set nowhere in the program and so is 0: every symbol is an unknown.
  \<open>float_const\<close> and \<open>string_transform\<close> (with the reading of their bytes) are arguments of the
  evaluator; the scanner of this program returns no string.
\<close>

unbundle bit_operations_syntax

subsection \<open>State and sequencing\<close>

record 'sc eval_env =
  ee_tables :: tables
  scanfunc :: "'sc \<Rightarrow> token \<times> 'sc"
  loc_segment :: int
  critical :: bool
  float_value :: "floatize \<Rightarrow> bool \<Rightarrow> string \<Rightarrow> 64 word option"
  string_value :: "strfunc \<Rightarrow> string \<Rightarrow> 64 word option"

record 'sc estate =
  es_tt :: token
  es_sc :: 'sc
  es_base :: "reg option"
  es_hint :: eval_hint

type_synonym 'sc ev = "(vec option \<times> 'sc estate) res"

definition scan :: "'sc eval_env \<Rightarrow> 'sc estate \<Rightarrow> 'sc estate" where
  "scan E s = (let (t, sc) = scanfunc E (es_sc s) in s\<lparr>es_tt := t, es_sc := sc\<rparr>)"

definition andthen :: "'sc ev \<Rightarrow> (vec \<Rightarrow> 'sc estate \<Rightarrow> 'sc ev) \<Rightarrow> 'sc ev" where
  "andthen m f = bnd m (\<lambda>(e, s). case e of None \<Rightarrow> Inr (None, s) | Some v \<Rightarrow> f v s)"

definition null_ev :: "'sc estate \<Rightarrow> 'sc ev" where
  "null_ev s = Inr (None, s)"

definition ret_ev :: "vec \<Rightarrow> 'sc estate \<Rightarrow> 'sc ev" where
  "ret_ev e s = Inr (Some e, s)"

text \<open>The loops \<open>while (tt is one of the operators) { scan(); f = next(); e = \<dots>; }\<close>.\<close>

fun left_loop ::
  "nat \<Rightarrow> 'sc eval_env \<Rightarrow> (token \<Rightarrow> bool) \<Rightarrow> ('sc estate \<Rightarrow> 'sc ev) \<Rightarrow>
   (token \<Rightarrow> vec \<Rightarrow> vec \<Rightarrow> 'sc estate \<Rightarrow> 'sc ev) \<Rightarrow> vec \<Rightarrow> 'sc estate \<Rightarrow> 'sc ev" where
  "left_loop 0 E ops next comb e s = Inl Diverges"
| "left_loop (Suc n) E ops next comb e s =
     (if ops (es_tt s) then
        andthen (next (scan E s)) (\<lambda>f s1.
        andthen (comb (es_tt s) e f s1) (left_loop n E ops next comb))
      else ret_ev e s)"

definition level ::
  "nat \<Rightarrow> 'sc eval_env \<Rightarrow> (token \<Rightarrow> bool) \<Rightarrow> ('sc estate \<Rightarrow> 'sc ev) \<Rightarrow>
   (token \<Rightarrow> vec \<Rightarrow> vec \<Rightarrow> 'sc estate \<Rightarrow> 'sc ev) \<Rightarrow> 'sc estate \<Rightarrow> 'sc ev" where
  "level n E ops next comb s = andthen (next s) (left_loop n E ops next comb)"

subsection \<open>Operators\<close>

definition scalar_op :: "(64 word \<Rightarrow> 64 word \<Rightarrow> 64 word) \<Rightarrow> vec \<Rightarrow> vec \<Rightarrow> vec" where
  "scalar_op f e g =
     (if is_just_unknown e \<or> is_just_unknown g then unknown_expr
      else scalarvect (f (reloc_value e) (reloc_value g)))"

definition add_ev :: "'sc eval_env \<Rightarrow> vec \<Rightarrow> vec \<Rightarrow> 'sc estate \<Rightarrow> 'sc ev" where
  "add_ev E e f s =
     (let (v, summed) = add_vectors (ee_tables E) e f
      in ret_ev v (if summed then s\<lparr>es_hint := EAH_SUMMED\<rparr> else s))"

definition mult_ev :: "'sc eval_env \<Rightarrow> vec \<Rightarrow> 64 word \<Rightarrow> bool \<Rightarrow> 'sc estate \<Rightarrow> 'sc ev" where
  "mult_ev E e k affect_hints s =
     ret_ev (scalar_mult (ee_tables E) e k)
       (s\<lparr>es_hint := mult_hint (ee_tables E) e affect_hints (es_base s) (es_hint s)\<rparr>)"

definition compare_value :: "'sc eval_env \<Rightarrow> token \<Rightarrow> vec \<Rightarrow> int" where
  "compare_value E tto e =
     (let vv = sint (reloc_value e) in
      if is_unknown (ee_tables E) e then -1
      else if tto = TokChar (CHR ''='') \<or> tto = TokNe then
        (if \<not> is_really_simple e \<or> vv \<noteq> 0 then of_bool (tto = TokNe) else of_bool (tto = TokChar (CHR ''='')))
      else if \<not> is_really_simple e then 0
      else if tto = TokLeg then (if vv < 0 then -1 else if vv > 0 then 1 else 0)
      else if vv = 0 then of_bool (tto = TokLe \<or> tto = TokGe)
      else if vv > 0 then of_bool (tto = TokGe \<or> tto = TokChar (CHR ''>''))
      else of_bool (tto = TokLe \<or> tto = TokChar (CHR ''<'')))"

definition compare_op :: "'sc eval_env \<Rightarrow> token \<Rightarrow> vec \<Rightarrow> vec \<Rightarrow> 'sc estate \<Rightarrow> 'sc ev" where
  "compare_op E tto e f s =
     andthen (add_ev E e (scalar_mult (ee_tables E) f (-1)) s) (\<lambda>e s.
     let v = compare_value E tto e in
     ret_ev (if v = -1 then unknown_expr else scalarvect (word_of_int v)) s)"

definition shift_op :: "'sc eval_env \<Rightarrow> token \<Rightarrow> vec \<Rightarrow> vec \<Rightarrow> 'sc estate \<Rightarrow> 'sc ev" where
  "shift_op E tto e f s =
     (let T = ee_tables E in
      if \<not> (is_simple T e \<or> is_just_unknown e) \<or> \<not> (is_simple T f \<or> is_just_unknown f) then ret_ev e s
      else if is_just_unknown e \<or> is_just_unknown f then ret_ev unknown_expr s
      else let a = reloc_value e; n = reloc_value f in
        if 64 \<le> n then Inl Undefined
        else ret_ev (scalarvect (if tto = TokShl then push_bit (unat n) a
                                 else if tto = TokShr then drop_bit (unat n) a
                                 else signed_drop_bit (unat n) a)) s)"

definition div_op :: "token \<Rightarrow> 64 word \<Rightarrow> 64 word \<Rightarrow> 64 word res" where
  "div_op tto a b =
     (if tto = TokChar (CHR ''/'') then Inr (a div b)
      else if tto = TokChar (CHR ''%'') then Inr (a mod b)
      else if sint a = - (2 ^ 63) \<and> b = -1 then Inl Undefined
      else if tto = TokSdiv then Inr (word_of_int (sint a sdiv sint b))
      else Inr (word_of_int (sint a smod sint b)))"

definition mul_op :: "'sc eval_env \<Rightarrow> token \<Rightarrow> vec \<Rightarrow> vec \<Rightarrow> 'sc estate \<Rightarrow> 'sc ev" where
  "mul_op E tto e f s =
     (let T = ee_tables E; mul = TokChar (CHR ''*'') in
      if tto \<noteq> mul \<and> (\<not> (is_simple T e \<or> is_just_unknown e) \<or> \<not> (is_simple T f \<or> is_just_unknown f))
      then null_ev s
      else if tto \<noteq> mul \<and> \<not> is_just_unknown f \<and> reloc_value f = 0 then null_ev s
      else if tto = mul then
        (if is_simple T e then mult_ev E f (reloc_value e) True s
         else if is_simple T f then mult_ev E e (reloc_value f) True s
         else if is_just_unknown e \<and> is_just_unknown f then ret_ev unknown_expr s
         else null_ev s)
      else if is_just_unknown e \<or> is_just_unknown f then ret_ev unknown_expr s
      else bnd (div_op tto (reloc_value e) (reloc_value f)) (\<lambda>v. ret_ev (scalarvect v) s))"

definition eval_ifunc :: "64 word \<Rightarrow> ifunc \<Rightarrow> 64 word" where
  "eval_ifunc uval func =
     (case func of
        IFUNC_ILOG2C \<Rightarrow> if uval < 2 then 0 else word_of_nat (ilog2_64 (uval - 1)) + 1
      | _ \<Rightarrow> word_of_nat (ilog2_64 uval))"

definition unary_op :: "'sc eval_env \<Rightarrow> (64 word \<Rightarrow> 64 word) \<Rightarrow> vec \<Rightarrow> 'sc estate \<Rightarrow> 'sc ev" where
  "unary_op E f e s =
     (if is_just_unknown e then ret_ev unknown_expr s
      else if \<not> is_simple (ee_tables E) e then null_ev s
      else ret_ev (scalarvect (f (reloc_value e))) s)"

subsection \<open>The levels\<close>

definition eval_floatize :: "'sc eval_env \<Rightarrow> floatize \<Rightarrow> 'sc estate \<Rightarrow> 'sc ev" where
  "eval_floatize E ty s =
     (let s = scan E s in
      if es_tt s \<noteq> TokChar (CHR ''('') then null_ev s
      else let s = scan E s;
               signed = es_tt s \<in> {TokChar (CHR ''-''), TokChar (CHR ''+'')};
               neg = (es_tt s = TokChar (CHR ''-''));
               s = (if signed then scan E s else s) in
        case es_tt s of
          TokFloat t \<Rightarrow>
            (case float_value E ty neg t of None \<Rightarrow> null_ev s
             | Some val \<Rightarrow>
                 let s = scan E s in
                 if es_tt s \<noteq> TokChar (CHR '')'') then null_ev s
                 else ret_ev (scalarvect val) (scan E s))
        | _ \<Rightarrow> null_ev s)"

definition eval_strfunc :: "'sc eval_env \<Rightarrow> strfunc \<Rightarrow> 'sc estate \<Rightarrow> 'sc ev" where
  "eval_strfunc E ty s =
     (let s = scan E s;
          parens = (es_tt s = TokChar (CHR ''(''));
          s = (if parens then scan E s else s) in
      case es_tt s of
        TokStr t \<Rightarrow>
          (case string_value E ty t of None \<Rightarrow> null_ev s
           | Some val \<Rightarrow>
               let s = (if parens then scan E s else s) in
               if parens \<and> es_tt s \<noteq> TokChar (CHR '')'') then null_ev s
               else ret_ev (scalarvect val) (scan E s))
      | _ \<Rightarrow> null_ev s)"

text \<open>The tokens that are an expression by themselves.\<close>

definition primary :: "'sc eval_env \<Rightarrow> 'sc estate \<Rightarrow> 'sc ev" where
  "primary E s =
     (case es_tt s of
        TokNum n \<Rightarrow> ret_ev (scalarvect n) (scan E s)
      | TokStr t \<Rightarrow> ret_ev (scalarvect (fst (readstrnum (nat (globalbits (ee_tables E))) t (length t)))) (scan E s)
      | TokReg r \<Rightarrow> ret_ev [(EReg r, 1)]
          (scan E (if es_hint s = EAH_NOHINT then s\<lparr>es_base := Some r, es_hint := EAH_MAKEBASE\<rparr> else s))
      | TokId _ \<Rightarrow> ret_ev unknown_expr (scan E s)
      | TokInsn _ _ \<Rightarrow> ret_ev unknown_expr (scan E s)
      | TokHere \<Rightarrow> ret_ev unknown_expr (scan E s)
      | TokBase \<Rightarrow> ret_ev unknown_expr (scan E s)
      | TokDecorator d \<Rightarrow> ret_ev [(ERdsae, word_of_int d)] (scan E s)
      | _ \<Rightarrow> null_ev s)"

fun expr6 :: "nat \<Rightarrow> 'sc eval_env \<Rightarrow> 'sc estate \<Rightarrow> 'sc ev" where
  "expr6 0 E s = Inl Diverges"
| "expr6 (Suc n) E s =
     (if es_tt s = TokChar (CHR ''-'') then andthen (expr6 n E (scan E s)) (\<lambda>e. mult_ev E e (-1) False)
      else if es_tt s = TokChar (CHR ''+'') then expr6 n E (scan E s)
      else if es_tt s = TokChar (CHR ''~'') then andthen (expr6 n E (scan E s)) (unary_op E (\<lambda>v. NOT v))
      else if es_tt s = TokChar (CHR ''!'') then
        andthen (expr6 n E (scan E s)) (unary_op E (\<lambda>v. of_bool (v = 0)))
      else case es_tt s of
        TokIfunc func \<Rightarrow> andthen (expr6 n E (scan E s)) (unary_op E (\<lambda>v. eval_ifunc v func))
      | TokSeg \<Rightarrow> andthen (expr6 n E (scan E s)) (\<lambda>e s.
          case segment_part (ee_tables E) (loc_segment E) e of None \<Rightarrow> null_ev s
          | Some e \<Rightarrow> if is_unknown (ee_tables E) e \<and> critical E then null_ev s else ret_ev e s)
      | TokFloatize ty \<Rightarrow> eval_floatize E ty s
      | TokStrfunc ty \<Rightarrow> eval_strfunc E ty s
      | _ \<Rightarrow> primary E s)"

definition is_mul_tok :: "token \<Rightarrow> bool" where
  "is_mul_tok t \<longleftrightarrow> t \<in> {TokChar (CHR ''*''), TokChar (CHR ''/''), TokChar (CHR ''%''), TokSdiv, TokSmod}"

definition expr5 :: "nat \<Rightarrow> 'sc eval_env \<Rightarrow> 'sc estate \<Rightarrow> 'sc ev" where
  "expr5 n E = level n E is_mul_tok (expr6 n E) (mul_op E)"

definition is_add_tok :: "token \<Rightarrow> bool" where
  "is_add_tok t \<longleftrightarrow> t \<in> {TokChar (CHR ''+''), TokChar (CHR ''-'')}"

definition expr4 :: "nat \<Rightarrow> 'sc eval_env \<Rightarrow> 'sc estate \<Rightarrow> 'sc ev" where
  "expr4 n E = level n E is_add_tok (expr5 n E) (\<lambda>tto e f.
     add_ev E e (if tto = TokChar (CHR ''+'') then f else scalar_mult (ee_tables E) f (-1)))"

definition expr3 :: "nat \<Rightarrow> 'sc eval_env \<Rightarrow> 'sc estate \<Rightarrow> 'sc ev" where
  "expr3 n E = level n E (\<lambda>t. t \<in> {TokShl, TokShr, TokSar}) (expr4 n E) (shift_op E)"

definition expr2 :: "nat \<Rightarrow> 'sc eval_env \<Rightarrow> 'sc estate \<Rightarrow> 'sc ev" where
  "expr2 n E = level n E (\<lambda>t. t = TokChar (CHR ''&'')) (expr3 n E) (\<lambda>tto e f. ret_ev (scalar_op (AND) e f))"

definition expr1 :: "nat \<Rightarrow> 'sc eval_env \<Rightarrow> 'sc estate \<Rightarrow> 'sc ev" where
  "expr1 n E = level n E (\<lambda>t. t = TokChar (CHR ''^'')) (expr2 n E) (\<lambda>tto e f. ret_ev (scalar_op (XOR) e f))"

definition expr0 :: "nat \<Rightarrow> 'sc eval_env \<Rightarrow> 'sc estate \<Rightarrow> 'sc ev" where
  "expr0 n E = level n E (\<lambda>t. t = TokChar (CHR ''|'')) (expr1 n E) (\<lambda>tto e f. ret_ev (scalar_op (OR) e f))"

definition is_rel_tok :: "token \<Rightarrow> bool" where
  "is_rel_tok t \<longleftrightarrow> t \<in> {TokChar (CHR ''=''), TokChar (CHR ''<''), TokChar (CHR ''>''), TokNe, TokLe, TokGe, TokLeg}"

definition rexp3 :: "nat \<Rightarrow> 'sc eval_env \<Rightarrow> 'sc estate \<Rightarrow> 'sc ev" where
  "rexp3 n E = level n E is_rel_tok (expr0 n E) (compare_op E)"

definition rexp2 :: "nat \<Rightarrow> 'sc eval_env \<Rightarrow> 'sc estate \<Rightarrow> 'sc ev" where
  "rexp2 n E = level n E (\<lambda>t. t = TokDblAnd) (rexp3 n E)
     (\<lambda>tto e f. ret_ev (scalar_op (\<lambda>a b. of_bool (a \<noteq> 0 \<and> b \<noteq> 0)) e f))"

definition rexp1 :: "nat \<Rightarrow> 'sc eval_env \<Rightarrow> 'sc estate \<Rightarrow> 'sc ev" where
  "rexp1 n E = level n E (\<lambda>t. t = TokDblXor) (rexp2 n E)
     (\<lambda>tto e f. ret_ev (scalar_op (\<lambda>a b. of_bool (a = 0) XOR of_bool (b = 0)) e f))"

definition rexp0 :: "nat \<Rightarrow> 'sc eval_env \<Rightarrow> 'sc estate \<Rightarrow> 'sc ev" where
  "rexp0 n E = level n E (\<lambda>t. t = TokDblOr) (rexp1 n E)
     (\<lambda>tto e f. ret_ev (scalar_op (\<lambda>a b. of_bool (a \<noteq> 0 \<or> b \<noteq> 0)) e f))"

fun cexpr :: "nat \<Rightarrow> 'sc eval_env \<Rightarrow> 'sc estate \<Rightarrow> 'sc ev" where
  "cexpr 0 E s = Inl Diverges"
| "cexpr (Suc n) E s =
     andthen (rexp0 (Suc n) E s) (\<lambda>e s.
     if es_tt s \<noteq> TokQmark then ret_ev e s
     else andthen (cexpr n E (scan E s)) (\<lambda>f s.
       if es_tt s \<noteq> TokChar (CHR '':'') then null_ev s
       else andthen (cexpr n E (scan E s)) (\<lambda>g.
         ret_ev (if is_simple (ee_tables E) e then (if reloc_value e \<noteq> 0 then f else g)
                 else if is_just_unknown e then unknown_expr else e))))"

text \<open>The vector and the state in which the evaluator stops: token, scanner and hints.\<close>

definition evaluate :: "nat \<Rightarrow> 'sc eval_env \<Rightarrow> token \<Rightarrow> 'sc \<Rightarrow> 'sc ev" where
  "evaluate n E tok sc =
     (let s = \<lparr>es_tt = tok, es_sc = sc, es_base = None, es_hint = EAH_NOHINT\<rparr>;
          s = (if tok = TokInvalid then scan E s else s)
      in andthen (cexpr n E s) (\<lambda>e. ret_ev (scalar_mult (ee_tables E) e 1)))"

end
