(* ===== verification/Generator.thy ===== *)
theory Generator
  imports Gendata Eval
begin

text \<open>
  The instruction generator of \<open>engine/generator.c\<close>: one instruction is generated into the token
  buffer operand by operand, each operand is read back (sizes, memory reference, expression) and
  the instruction is inserted into the program.  The instructions that set up an operand are
  generated by the same function through \<open>one_insn_gen_const\<close>.

  \<open>insn_to_bin\<close>, \<open>insn_to_asm\<close> and \<open>generator_init\<close> are in \<open>Output\<close>; \<open>generator_exit\<close> only
  releases storage.
\<close>

unbundle bit_operations_syntax

subsection \<open>Prefixes and the location\<close>

text \<open>The slots in the order of \<open>enum prefix_pos\<close>; any other word makes the code panic.\<close>

definition MAXPREFIX :: nat where
  "MAXPREFIX = 7"

definition prefix_slot :: "prefix + reg \<Rightarrow> nat res" where
  "prefix_slot p =
     (let w = (case p of Inl (P n) \<Rightarrow> n | Inr _ \<Rightarrow> '''') in
      if w = ''wait'' then Inr 0
      else if p \<in> set (map (Inr \<circ> R) [''cs'', ''ds'', ''ss'', ''es'', ''fs'', ''gs'']) then Inr 3
      else if w = ''lock'' then Inr 2
      else if w \<in> set [''rep'', ''repe'', ''repz'', ''repne'', ''repnz'', ''xacquire'', ''xrelease'', ''bnd'', ''nobnd'']
      then Inr 1
      else if w \<in> set [''o16'', ''o32'', ''o64'', ''osp''] then Inr 4
      else if w \<in> set [''a16'', ''a32'', ''a64'', ''asp''] then Inr 5
      else if w \<in> set [''evex'', ''vex3'', ''vex2''] then Inr 6
      else Inl Fatal)"

record location =
  lc_segment :: int
  lc_offset :: "64 word"
  lc_in_absolute :: bool
  lc_abs_offset :: "64 word"

definition switch_segment :: "int \<Rightarrow> location \<Rightarrow> 64 word \<times> location" where
  "switch_segment segment l =
     (let l = l\<lparr>lc_segment := segment\<rparr>;
          l = (if segment = NO_SEG then l\<lparr>lc_offset := lc_abs_offset l, lc_in_absolute := True\<rparr>
               else l\<lparr>lc_in_absolute := False\<rparr>)
      in (lc_offset l, l))"

definition set_curr_offs :: "64 word \<Rightarrow> location \<Rightarrow> location" where
  "set_curr_offs l_off l = (if lc_in_absolute l then l\<lparr>lc_abs_offset := l_off\<rparr> else l)"

definition increment_offset :: "64 word \<Rightarrow> location \<Rightarrow> location" where
  "increment_offset delta l =
     (if delta = 0 then l
      else let l = l\<lparr>lc_offset := lc_offset l + delta\<rparr> in set_curr_offs (lc_offset l) l)"

subsection \<open>Operands\<close>

definition init_operand :: operand where
  "init_operand = \<lparr>op_type = 0, op_disp_size = 0, op_basereg = None, op_indexreg = None, op_scale = 0,
     op_hintbase = None, op_hinttype = EAH_NOHINT, op_segment = NO_SEG, op_offset = 0, op_wrt = NO_SEG,
     op_eaflags = 0, op_opflags = 0, op_decoflags = 0\<rparr>"

definition OPFLAG_UNKNOWN :: "32 word" where
  "OPFLAG_UNKNOWN = 4"

definition OPFLAG_RELATIVE :: "32 word" where
  "OPFLAG_RELATIVE = 8"

text \<open>The loop of \<open>parse_mref\<close>; no operand after an error.\<close>

fun mref_loop :: "tables \<Rightarrow> int \<Rightarrow> vec \<Rightarrow> operand \<Rightarrow> operand option" where
  "mref_loop T lseg [] opd = Some opd"
| "mref_loop T lseg ((t, val) # e) opd =
     (case t of
        EReg r \<Rightarrow>
          if is_class REG_GPR (nasm_reg_flags T r) \<and> val = 1 \<and> op_basereg opd = None
          then mref_loop T lseg e (opd\<lparr>op_basereg := Some r\<rparr>)
          else if op_indexreg opd = None
          then mref_loop T lseg e (opd\<lparr>op_indexreg := Some r, op_scale := ucast val\<rparr>)
          else None
      | EUnknown \<Rightarrow> mref_loop T lseg e (opd\<lparr>op_opflags := op_opflags opd OR OPFLAG_UNKNOWN\<rparr>)
      | ESimple \<Rightarrow> mref_loop T lseg e (opd\<lparr>op_offset := op_offset opd + val\<rparr>)
      | EWrt \<Rightarrow> mref_loop T lseg e (opd\<lparr>op_wrt := sint (ucast val :: 32 word)\<rparr>)
      | ESegbase s \<Rightarrow>
          if val = 1 then
            (if op_segment opd \<noteq> NO_SEG then None
             else mref_loop T lseg e (opd\<lparr>op_segment := s\<rparr>))
          else if val = -1 \<and> s = lseg \<and> op_opflags opd AND OPFLAG_RELATIVE = 0
          then mref_loop T lseg e (opd\<lparr>op_opflags := op_opflags opd OR OPFLAG_RELATIVE\<rparr>)
          else None
      | ERdsae \<Rightarrow> None)"

definition parse_mref :: "tables \<Rightarrow> int \<Rightarrow> operand \<Rightarrow> vec \<Rightarrow> operand option" where
  "parse_mref T lseg opd e = mref_loop T lseg e opd"

text \<open>\<open>globalrel\<close> is 0 throughout the program.\<close>

definition mref_set_optype :: "tables \<Rightarrow> operand \<Rightarrow> operand" where
  "mref_set_optype T opd =
     (let b = op_basereg opd; i = op_indexreg opd;
          ty = op_type opd OR MEMORY_ANY;
          is_rel = (globalbits T = 64 \<and> op_eaflags opd AND 16 = 0 \<and> op_eaflags opd AND 8 \<noteq> 0);
          ty = (if b = None \<and> (i = None \<or> op_scale opd = 0)
                then ty OR (if is_rel then IP_REL else MEM_OFFS) else ty);
          ty = (case i of None \<Rightarrow> ty
                | Some r \<Rightarrow>
                    let iclass = nasm_reg_flags T r in
                    if is_class XMMREG iclass then ty OR XMEM
                    else if is_class YMMREG iclass then ty OR YMEM
                    else if is_class ZMMREG iclass then ty OR ZMEM else ty)
      in opd\<lparr>op_type := ty\<rparr>)"

text \<open>Reading on in the token buffer.\<close>

definition next_token :: "tables \<Rightarrow> gen \<Rightarrow> token \<times> gen" where
  "next_token T g =
     (let (t, rest) = get_token T (tok_rest g);
          n = length (tok_rest g) - length rest
      in (t, g\<lparr>tok_done := tok_done g @ take n (tok_rest g), tok_rest := rest\<rparr>))"

text \<open>A size keyword: only the first one counts; an unknown one is reported and skipped.\<close>

definition size_keyword :: "string \<Rightarrow> bool \<Rightarrow> opflags \<Rightarrow> bool \<times> opflags" where
  "size_keyword w setsize ty =
     (case map_of [(''byte'', BITS8), (''word'', BITS16), (''dword'', BITS32), (''long'', BITS32),
                   (''qword'', BITS64), (''tword'', BITS80), (''oword'', BITS128), (''yword'', BITS256),
                   (''zword'', BITS512)] w of
        Some f \<Rightarrow> (True, if setsize then ty else ty OR f)
      | None \<Rightarrow>
          (case map_of [(''to'', TO_flag), (''strict'', STRICT), (''far'', FAR), (''near'', NEAR), (''short'', SHORT)] w of
             Some f \<Rightarrow> (setsize, ty OR f) | None \<Rightarrow> (setsize, ty)))"

definition size_word :: "token \<Rightarrow> string option" where
  "size_word t = (case t of TokSize w \<Rightarrow> Some w | TokSpecial w \<Rightarrow> Some w | _ \<Rightarrow> None)"

lemma next_token_rest: "next_token T g = (t, g') \<Longrightarrow> (t, tok_rest g') = get_token T (tok_rest g)"
  by (auto simp: next_token_def Let_def split: prod.splits)

lemma next_token_less:
  assumes "next_token T g = (t, g')"
  shows "length (tok_rest g') \<le> length (tok_rest g)"
    and "size_word t \<noteq> None \<Longrightarrow> length (tok_rest g') < length (tok_rest g)"
proof -
  note r = next_token_rest [OF assms]
  show "length (tok_rest g') \<le> length (tok_rest g)"
    using get_token_length [of T "tok_rest g"] by (metis r snd_conv)
  show "length (tok_rest g') < length (tok_rest g)" if "size_word t \<noteq> None"
    using get_token_progress [OF r [symmetric]] that by (cases t) (auto simp: size_word_def)
qed

function read_sizes :: "tables \<Rightarrow> bool \<Rightarrow> opflags \<Rightarrow> token \<Rightarrow> gen \<Rightarrow> opflags \<times> token \<times> gen" where
  "read_sizes T setsize ty t g =
     (case size_word t of None \<Rightarrow> (ty, t, g)
      | Some w \<Rightarrow>
          (case size_keyword w setsize ty of (setsize, ty) \<Rightarrow>
          (case next_token T g of (t, g) \<Rightarrow> read_sizes T setsize ty t g)))"
  by pat_completeness auto
termination
proof (relation "measure (\<lambda>(T, setsize, ty, t, g). length (tok_rest g) + (if size_word t = None then 0 else 1))")
  fix T setsize ty t g w x s' ty' y t' g'
  assume w: "size_word t = Some w" and n: "(t', g') = next_token T g"
  show "((T, s', ty', t', g'), T, setsize, ty, t, g)
      \<in> measure (\<lambda>(T, setsize, ty, t, g). length (tok_rest g) + (if size_word t = None then 0 else 1))"
    using next_token_less [OF n [symmetric]] w by (cases "size_word t'") simp_all
qed simp

declare read_sizes.simps [simp del]

text \<open>
  An operand from its first token on.  The evaluator's result is a null pointer after an error,
  which the code goes on to use; a register that is none (an identifier) indexes the table of
  register flags outside its bounds.
\<close>

definition gen_env :: "string eval_env \<Rightarrow> string eval_env" where
  "gen_env E = E\<lparr>scanfunc := get_token (ee_tables E), loc_segment := NO_SEG, critical := False\<rparr>"

definition immediate_operand :: "tables \<Rightarrow> vec \<Rightarrow> operand \<Rightarrow> operand" where
  "immediate_operand T e opd =
     opd\<lparr>op_type := op_type opd OR IMMEDIATE, op_offset := reloc_value e, op_segment := reloc_seg T e,
         op_wrt := reloc_wrt T e,
         op_opflags := op_opflags opd OR (if is_self_relative T NO_SEG e then OPFLAG_RELATIVE else 0)\<rparr>"

definition register_operand :: "tables \<Rightarrow> vec \<Rightarrow> operand \<Rightarrow> operand res" where
  "register_operand T e opd =
     (case e of [] \<Rightarrow> Inl Undefined
      | (t, val) # _ \<Rightarrow>
          if etype_no T ESimple \<le> etype_no T t \<or> val \<noteq> 1 then Inl Fatal
          else (case t of
                  EReg r \<Rightarrow> Inr (opd\<lparr>op_type := (op_type opd AND TO_flag) OR REGISTER OR nasm_reg_flags T r,
                                      op_basereg := Some r\<rparr>)
                | _ \<Rightarrow> Inl Undefined))"

definition parse_operand :: "string eval_env \<Rightarrow> token \<Rightarrow> gen \<Rightarrow> (operand \<times> gen) res" where
  "parse_operand E t g =
     (let T = ee_tables E;
          (ty, t, g) = read_sizes T False 0 t g;
          mref = t \<in> {TokChar (CHR ''[''), TokMasmPtr, TokChar (CHR ''&'')};
          bracket = (t = TokChar (CHR ''[''));
          (t, g) = (if mref then next_token T g else (t, g)) in
      bnd (evaluate (length (tok_rest g) + 2) (gen_env E) t (tok_rest g)) (\<lambda>(e, s).
      let n = length (tok_rest g) - length (es_sc s);
          g = g\<lparr>tok_done := tok_done g @ take n (tok_rest g), tok_rest := es_sc s\<rparr>;
          g = (if bracket \<and> es_tt s = TokChar (CHR '']'') then snd (next_token T g) else g);
          opd = init_operand\<lparr>op_type := ty\<rparr> in
      bnd (deref e) (\<lambda>e.
      if mref then
        (case parse_mref T NO_SEG opd e of None \<Rightarrow> Inl Fatal
         | Some opd \<Rightarrow> Inr (mref_set_optype T (opd\<lparr>op_hintbase := es_base s, op_hinttype := es_hint s\<rparr>), g))
      else if is_reloc T NO_SEG e then Inr (immediate_operand T e opd, g)
      else bnd (register_operand T e opd) (\<lambda>opd. Inr (opd, g)))))"

subsection \<open>Instructions\<close>

text \<open>
  The loop over the operands, with the number of operands that still fit; without success there
  is no list of operands.
\<close>

fun operand_loop ::
  "nat \<Rightarrow> string eval_env \<Rightarrow> (string \<Rightarrow> gen \<Rightarrow> gen res) \<Rightarrow> insn_seed option \<Rightarrow> operand list \<Rightarrow> bool \<Rightarrow> gen \<Rightarrow>
   (operand list option \<times> bool \<times> gen) res" where
  "operand_loop 0 E gen_const seed opds is_label g = Inl Undefined"
| "operand_loop (Suc n) E gen_const seed opds is_label g =
     (let g = g\<lparr>pg := (pg g)\<lparr>opi := int (length opds)\<rparr>\<rparr> in
      bnd (gen_operand (ee_tables E) gen_const seed is_label g) (\<lambda>(success, is_label, g).
      if \<not> success then Inr (None, is_label, g)
      else let (t, g) = next_token (ee_tables E) g in
        if t = TokEos then Inr (Some opds, is_label, g)
        else bnd (parse_operand E t g) (\<lambda>(opd, g).
          operand_loop n E gen_const seed (opds @ [opd]) is_label g)))"

text \<open>The mnemonic, behind at most one prefix.\<close>

definition read_prefix :: "tables \<Rightarrow> gen \<Rightarrow> (prefix option list \<times> token \<times> gen) res" where
  "read_prefix T g =
     (let (t, g) = next_token T g; none = replicate MAXPREFIX None in
      case t of
        TokPrefix p \<Rightarrow> bnd (prefix_slot (Inl p)) (\<lambda>slot.
          let (t, g) = next_token T g in Inr (none[slot := Some p], t, g))
      | _ \<Rightarrow> Inr (none, t, g))"

text \<open>
  A first word that is no mnemonic leaves the number of something else in the opcode; that is the
  \<open>Undefined\<close> here.
\<close>

definition read_opcode :: "token \<Rightarrow> gen \<Rightarrow> (opcode \<times> int \<times> gen) res" where
  "read_opcode t g =
     (case t of
        TokInsn opc cond \<Rightarrow> Inr (opc, cond, if st_opcode (pg g) = I_none then g\<lparr>pg := (pg g)\<lparr>st_opcode := opc\<rparr>\<rparr> else g)
      | _ \<Rightarrow> Inl Undefined)"

text \<open>
  Finishing an instruction with its operands: implied operands, the set-up of a memory operand, the
  insertion.  The operands the loop did not reach have type 0.
\<close>

definition finish_insn ::
  "string eval_env \<Rightarrow> (string \<Rightarrow> gen \<Rightarrow> gen res) \<Rightarrow> insn \<Rightarrow> operand list \<Rightarrow> bool \<Rightarrow> gen \<Rightarrow> gen res" where
  "finish_insn E gen_const result opds is_label g =
     (let result = result\<lparr>operands := int (length opds),
            oprs := opds @ replicate (MAX_OPERANDS - length opds) init_operand\<rparr> in
      bnd (if need_init (pg g) then init_implied_operands (ee_tables E) gen_const result g else Inr g) (\<lambda>g.
      bnd (if has_mem_opnd (pg g) then on_pg (one_insn_gen_ctrl (Some (init_mem_addr (pg g))) INSERT_AFTER) g
           else Inr g) (\<lambda>g.
      on_pg (stat_insert_insn (result\<lparr>ctrl := if is_label then Some (get_token_buf g) else None\<rparr>) INSERT_AFTER) g)))"

definition one_insn_gen ::
  "string eval_env \<Rightarrow> (string \<Rightarrow> gen \<Rightarrow> gen res) \<Rightarrow> insn_seed option \<Rightarrow> gen \<Rightarrow> (bool \<times> gen) res" where
  "one_insn_gen E gen_const seed g =
     bnd (likely_gen_label (pg g) (rn g)) (\<lambda>(s, r).
     bnd (gen_opcode seed (g\<lparr>pg := s, rn := r\<rparr>)) (\<lambda>g.
     bnd (read_prefix (ee_tables E) g) (\<lambda>(prefs, t, g).
     bnd (read_opcode t g) (\<lambda>(opc, cond, g).
     bnd (gen_control_transfer_insn opc (-1) (pg g) (rn g)) (\<lambda>(label, s, r).
     let g = g\<lparr>pg := s, rn := r\<rparr> in
     if 0 \<le> label then Inr (True, g)
     else bnd (operand_loop MAX_OPERANDS E gen_const seed [] False g) (\<lambda>(opds, is_label, g).
     case opds of None \<Rightarrow> Inr (False, g)
     | Some opds \<Rightarrow>
         bnd (finish_insn E gen_const \<lparr>ctrl = None, prefixes = prefs, opcode_of = opc, condition = cond,
           operands = 0, oprs = [], times = 1, evex_rm = 0, evex_brerop = -1\<rparr> opds is_label g) (\<lambda>g.
         Inr (True, g))))))))"

text \<open>
  \<open>one_insn_gen_const\<close> saves the token buffer around the instruction.  The recursion through the
  set-up of operands runs on fuel.
\<close>

fun one_insn_gen_const :: "nat \<Rightarrow> string eval_env \<Rightarrow> string \<Rightarrow> gen \<Rightarrow> gen res" where
  "one_insn_gen_const 0 E asm_buffer g = Inl Diverges"
| "one_insn_gen_const (Suc n) E asm_buffer g =
     bnd (set_token_text asm_buffer (get_token_cbufptr g)) (\<lambda>g1.
     bnd (one_insn_gen E (one_insn_gen_const n E) None g1) (\<lambda>(_, g2).
     Inr (g2\<lparr>tok_done := tok_done g, tok_rest := tok_rest g\<rparr>)))"

end
