(* ===== verification/EvalTotal.thy ===== *)
theory EvalTotal
  imports Eval
begin

text \<open>
  The evaluator returns: for every scanner that comes to an end, stated as a locale, enough fuel
  never runs out.  The scanner of the program is one.
\<close>

subsection \<open>Scanners that come to an end\<close>

text \<open>The tokens after which the scanner has moved; at the others the evaluator stops.\<close>

definition live :: "token \<Rightarrow> bool" where
  "live t \<longleftrightarrow> t \<noteq> TokEos \<and> t \<noteq> TokErrNum"

text \<open>Operators leave the scanner alone.\<close>

definition keeps_pos :: "(vec \<Rightarrow> 'sc estate \<Rightarrow> 'sc ev) \<Rightarrow> bool" where
  "keeps_pos f \<longleftrightarrow> (\<forall>e s. f e s \<noteq> Inl Diverges \<and>
     (\<forall>v s'. f e s = Inr (Some v, s') \<longrightarrow> es_tt s' = es_tt s \<and> es_sc s' = es_sc s))"

lemma keeps_pos_simps [simp]:
  "keeps_pos (\<lambda>e. ret_ev (f e))" "keeps_pos (\<lambda>e. null_ev)" "keeps_pos ret_ev"
  "keeps_pos (\<lambda>e. mult_ev E (f e) k b)" "keeps_pos (\<lambda>e. add_ev E (f e) (g e))"
  by (auto simp: keeps_pos_def ret_ev_def null_ev_def mult_ev_def add_ev_def Let_def split: prod.splits)

lemma keeps_pos_if [intro]: "keeps_pos f \<Longrightarrow> keeps_pos g \<Longrightarrow> keeps_pos (\<lambda>e s. if b e then f e s else g e s)"
  by (simp add: keeps_pos_def)

lemma keeps_pos_ops [simp]:
  "keeps_pos (compare_op E t e)" "keeps_pos (shift_op E t e)" "keeps_pos (mul_op E t e)" "keeps_pos (unary_op E g)"
proof -
  show "keeps_pos (compare_op E t e)"
    by (auto simp: keeps_pos_def compare_op_def andthen_def add_ev_def ret_ev_def Let_def split: prod.splits)
  show "keeps_pos (shift_op E t e)"
    by (auto simp: keeps_pos_def shift_op_def ret_ev_def Let_def)
  show "keeps_pos (unary_op E g)"
    by (auto simp: keeps_pos_def unary_op_def ret_ev_def null_ev_def)
  have "div_op t a b \<noteq> Inl Diverges" for a b by (simp add: div_op_def)
  then show "keeps_pos (mul_op E t e)"
    by (auto simp: keeps_pos_def mul_op_def mult_ev_def ret_ev_def null_ev_def Let_def bnd_eq_Inl)
qed

locale finite_scanner =
  fixes scn :: "'sc \<Rightarrow> token \<times> 'sc" and left :: "'sc \<Rightarrow> nat"
  assumes left_le: "scn sc = (t, sc') \<Longrightarrow> left sc' \<le> left sc"
    and left_less: "scn sc = (t, sc') \<Longrightarrow> live t \<Longrightarrow> left sc' < left sc"
begin

definition rest :: "'sc estate \<Rightarrow> nat" where
  "rest s = left (es_sc s) + of_bool (live (es_tt s))"

definition consumes :: "nat \<Rightarrow> ('sc estate \<Rightarrow> 'sc ev) \<Rightarrow> bool" where
  "consumes n f \<longleftrightarrow> (\<forall>s. rest s < n \<longrightarrow> f s \<noteq> Inl Diverges \<and>
     (\<forall>e s'. f s = Inr (Some e, s') \<longrightarrow> rest s' < rest s))"

lemma scan_less: "scanfunc E = scn \<Longrightarrow> live (es_tt s) \<Longrightarrow> rest (scan E s) < rest s"
  using left_le [of "es_sc s"] left_less [of "es_sc s"]
  by (cases "scn (es_sc s)") (force simp: rest_def scan_def)

lemma scan_le: "scanfunc E = scn \<Longrightarrow> rest (scan E s) \<le> rest s"
  using left_le [of "es_sc s"] left_less [of "es_sc s"]
  by (cases "scn (es_sc s)") (force simp: rest_def scan_def)

lemma consumes_mono: "consumes n f \<Longrightarrow> m \<le> n \<Longrightarrow> consumes m f"
  by (auto simp: consumes_def)

lemma consumes_andthen:
  assumes "m \<noteq> Inl Diverges" "\<And>e s'. m = Inr (Some e, s') \<Longrightarrow> rest s' < k \<and>
      g e s' \<noteq> Inl Diverges \<and> (\<forall>v s''. g e s' = Inr (Some v, s'') \<longrightarrow> rest s'' \<le> rest s')"
  shows "andthen m g \<noteq> Inl Diverges \<and> (\<forall>v s''. andthen m g = Inr (Some v, s'') \<longrightarrow> rest s'' < k)"
  using assms by (fastforce simp: andthen_def bnd_eq_Inl split: option.splits)

lemma keeps_rest:
  assumes "keeps_pos f"
  shows "f e s \<noteq> Inl Diverges" "f e s = Inr (Some v, s') \<Longrightarrow> rest s' \<le> rest s"
  using assms by (auto simp: keeps_pos_def rest_def)

lemma left_loop_total:
  assumes "scanfunc E = scn" "\<And>t. ops t \<Longrightarrow> live t" "consumes n next" "\<And>t e. keeps_pos (comb t e)"
    "rest s < k" "k \<le> n"
  shows "left_loop k E ops next comb e s \<noteq> Inl Diverges \<and>
    (\<forall>v s'. left_loop k E ops next comb e s = Inr (Some v, s') \<longrightarrow> rest s' \<le> rest s)"
  using assms(5,6)
proof (induction k arbitrary: e s)
  case (Suc k)
  show ?case
  proof (cases "ops (es_tt s)")
    case True
    have sc: "rest (scan E s) < rest s" by (rule scan_less [OF assms(1) assms(2) [OF True]])
    then have "rest (scan E s) < n" "rest (scan E s) < k" using Suc.prems by linarith+
    then have nx: "next (scan E s) \<noteq> Inl Diverges"
      "\<And>f s1. next (scan E s) = Inr (Some f, s1) \<Longrightarrow> rest s1 < rest (scan E s)"
      using assms(3) by (auto simp: consumes_def)
    have "andthen (next (scan E s)) (\<lambda>f s1. andthen (comb (es_tt s) e f s1) (left_loop k E ops next comb)) \<noteq> Inl Diverges \<and>
      (\<forall>v s''. andthen (next (scan E s)) (\<lambda>f s1. andthen (comb (es_tt s) e f s1) (left_loop k E ops next comb))
         = Inr (Some v, s'') \<longrightarrow> rest s'' < rest s)"
    proof (rule consumes_andthen [OF nx(1)])
      fix f s1 assume a: "next (scan E s) = Inr (Some f, s1)"
      have r1: "rest s1 < rest (scan E s)" by (rule nx(2) [OF a])
      have "andthen (comb (es_tt s) e f s1) (left_loop k E ops next comb) \<noteq> Inl Diverges \<and>
        (\<forall>v s''. andthen (comb (es_tt s) e f s1) (left_loop k E ops next comb) = Inr (Some v, s'') \<longrightarrow> rest s'' < Suc (rest s1))"
      proof (rule consumes_andthen)
        show "comb (es_tt s) e f s1 \<noteq> Inl Diverges" by (rule keeps_rest(1) [OF assms(4)])
      next
        fix v s2 assume "comb (es_tt s) e f s1 = Inr (Some v, s2)"
        then have "rest s2 \<le> rest s1" by (rule keeps_rest(2) [OF assms(4)])
        moreover have "rest s2 < k" "k \<le> n" using calculation r1 sc Suc.prems by linarith+
        ultimately show "rest s2 < Suc (rest s1) \<and> left_loop k E ops next comb v s2 \<noteq> Inl Diverges \<and>
            (\<forall>va s''. left_loop k E ops next comb v s2 = Inr (Some va, s'') \<longrightarrow> rest s'' \<le> rest s2)"
          using Suc.IH [of s2 v] by simp
      qed
      then show "rest s1 < rest s \<and> andthen (comb (es_tt s) e f s1) (left_loop k E ops next comb) \<noteq> Inl Diverges \<and>
          (\<forall>v s''. andthen (comb (es_tt s) e f s1) (left_loop k E ops next comb) = Inr (Some v, s'') \<longrightarrow> rest s'' \<le> rest s1)"
        using r1 sc by (simp add: less_Suc_eq_le)
    qed
    then show ?thesis using True by (simp add: less_imp_le)
  qed (simp add: ret_ev_def)
qed simp

lemma level_consumes:
  assumes "scanfunc E = scn" "\<And>t. ops t \<Longrightarrow> live t" "consumes n next" "\<And>t e. keeps_pos (comb t e)"
  shows "consumes n (level n E ops next comb)"
  unfolding consumes_def level_def
proof (intro allI impI)
  fix s assume s: "rest s < n"
  have nx: "next s \<noteq> Inl Diverges" "\<And>f s1. next s = Inr (Some f, s1) \<Longrightarrow> rest s1 < rest s"
    using assms(3) s by (auto simp: consumes_def)
  have "andthen (next s) (left_loop n E ops next comb) \<noteq> Inl Diverges \<and>
    (\<forall>v s''. andthen (next s) (left_loop n E ops next comb) = Inr (Some v, s'') \<longrightarrow> rest s'' < rest s)"
  proof (rule consumes_andthen [OF nx(1)])
    fix e s' assume "next s = Inr (Some e, s')"
    then have "rest s' < rest s" by (rule nx(2))
    moreover have "rest s' < n" using calculation s by simp
    ultimately show "rest s' < rest s \<and> left_loop n E ops next comb e s' \<noteq> Inl Diverges \<and>
      (\<forall>v s''. left_loop n E ops next comb e s' = Inr (Some v, s'') \<longrightarrow> rest s'' \<le> rest s')"
      using left_loop_total [OF assms, where s = s' and k = n and e = e] by simp
  qed
  then show "andthen (next s) (left_loop n E ops next comb) \<noteq> Inl Diverges \<and>
    (\<forall>e s'. andthen (next s) (left_loop n E ops next comb) = Inr (Some e, s') \<longrightarrow> rest s' < rest s)" .
qed

lemma rest_hint [simp]:
  "rest (s\<lparr>es_base := b, es_hint := h\<rparr>) = rest s" "rest (s\<lparr>es_hint := h\<rparr>) = rest s" "rest (s\<lparr>es_base := b\<rparr>) = rest s"
  by (simp_all add: rest_def)

lemma primary_consumes:
  assumes "scanfunc E = scn"
  shows "primary E s \<noteq> Inl Diverges \<and> (\<forall>v s'. primary E s = Inr (Some v, s') \<longrightarrow> rest s' < rest s)"
proof -
  have l: "rest (scan E s) < rest s" if "live (es_tt s)" by (rule scan_less [OF assms that])
  have h: "rest (scan E (s\<lparr>es_base := b, es_hint := h\<rparr>)) < rest s" if "live (es_tt s)" for b h
    using scan_less [OF assms, of "s\<lparr>es_base := b, es_hint := h\<rparr>"] that by simp
  show ?thesis
    using l h by (auto simp: primary_def ret_ev_def null_ev_def live_def split: token.splits if_splits)
qed

lemma eval_floatize_consumes:
  assumes "scanfunc E = scn" "live (es_tt s)"
  shows "eval_floatize E ty s \<noteq> Inl Diverges \<and> (\<forall>v s'. eval_floatize E ty s = Inr (Some v, s') \<longrightarrow> rest s' < rest s)"
proof -
  let ?s1 = "scan E s" let ?s2 = "scan E ?s1" let ?s3 = "scan E ?s2"
  have "rest ?s1 < rest s" by (rule scan_less [OF assms])
  moreover have "rest ?s2 \<le> rest ?s1" "rest ?s3 \<le> rest ?s2" "rest (scan E ?s3) \<le> rest ?s3"
    "rest (scan E (scan E ?s3)) \<le> rest (scan E ?s3)"
    by (rule scan_le [OF assms(1)])+
  ultimately have "rest (scan E (scan E (scan E s))) < rest s" "rest (scan E (scan E (scan E (scan E s)))) < rest s"
    "rest (scan E (scan E (scan E (scan E (scan E s))))) < rest s" by linarith+
  then show ?thesis
    by (auto simp: eval_floatize_def Let_def null_ev_def ret_ev_def split: token.splits option.splits if_splits)
qed

lemma eval_strfunc_consumes:
  assumes "scanfunc E = scn" "live (es_tt s)"
  shows "eval_strfunc E ty s \<noteq> Inl Diverges \<and> (\<forall>v s'. eval_strfunc E ty s = Inr (Some v, s') \<longrightarrow> rest s' < rest s)"
proof -
  let ?s1 = "scan E s" let ?s2 = "scan E ?s1" let ?s3 = "scan E ?s2"
  have "rest ?s1 < rest s" by (rule scan_less [OF assms])
  moreover have "rest ?s2 \<le> rest ?s1" "rest ?s3 \<le> rest ?s2" "rest (scan E ?s3) \<le> rest ?s3"
    by (rule scan_le [OF assms(1)])+
  ultimately have "rest (scan E (scan E s)) < rest s" "rest (scan E (scan E (scan E (scan E s)))) < rest s"
    by linarith+
  then show ?thesis
    by (auto simp: eval_strfunc_def Let_def null_ev_def ret_ev_def split: token.splits option.splits if_splits)
qed

lemma unary_consumes:
  assumes "scanfunc E = scn" "live (es_tt s)" "consumes n f" "rest s < Suc n" "keeps_pos g"
  shows "andthen (f (scan E s)) g \<noteq> Inl Diverges \<and>
    (\<forall>v s'. andthen (f (scan E s)) g = Inr (Some v, s') \<longrightarrow> rest s' < rest s)"
proof -
  have r: "rest (scan E s) < rest s" by (rule scan_less [OF assms(1,2)])
  then have f: "f (scan E s) \<noteq> Inl Diverges" "\<And>e s1. f (scan E s) = Inr (Some e, s1) \<Longrightarrow> rest s1 < rest (scan E s)"
    using assms(3,4) by (auto simp: consumes_def)
  show ?thesis
  proof (rule consumes_andthen [OF f(1)])
    fix e s' assume "f (scan E s) = Inr (Some e, s')"
    then have "rest s' < rest s" using f(2) r by fastforce
    then show "rest s' < rest s \<and> g e s' \<noteq> Inl Diverges \<and> (\<forall>v s''. g e s' = Inr (Some v, s'') \<longrightarrow> rest s'' \<le> rest s')"
      using keeps_rest [OF assms(5)] by blast
  qed
qed

lemma keeps_pos_seg: "keeps_pos (\<lambda>e s. case segment_part T l e of None \<Rightarrow> null_ev s
    | Some e \<Rightarrow> if is_unknown T e \<and> c then null_ev s else ret_ev e s)"
  by (auto simp: keeps_pos_def null_ev_def ret_ev_def split: option.splits)

lemma expr6_consumes:
  assumes "scanfunc E = scn"
  shows "consumes n (expr6 n E)"
proof (induction n)
  case (Suc n)
  show ?case
    unfolding consumes_def
  proof (intro allI impI)
    fix s assume s: "rest s < Suc n"
    have u: "andthen (expr6 n E (scan E s)) g \<noteq> Inl Diverges \<and>
        (\<forall>v s'. andthen (expr6 n E (scan E s)) g = Inr (Some v, s') \<longrightarrow> rest s' < rest s)"
      if "live (es_tt s)" "keeps_pos g" for g
      by (rule unary_consumes [OF assms that(1) Suc.IH s that(2)])
    have plus: "expr6 n E (scan E s) \<noteq> Inl Diverges \<and>
        (\<forall>v s'. expr6 n E (scan E s) = Inr (Some v, s') \<longrightarrow> rest s' < rest s)" if "live (es_tt s)"
    proof -
      have l: "rest (scan E s) < rest s" by (rule scan_less [OF assms that])
      then have "rest (scan E s) < n" using s by simp
      with Suc.IH have "expr6 n E (scan E s) \<noteq> Inl Diverges \<and>
          (\<forall>v s'. expr6 n E (scan E s) = Inr (Some v, s') \<longrightarrow> rest s' < rest (scan E s))"
        unfolding consumes_def by blast
      then show ?thesis using l less_trans by blast
    qed
    have "live (es_tt s)" if "es_tt s = TokChar c" for c using that by (simp add: live_def)
    note char = u [OF this] plus [OF this]
    show "expr6 (Suc n) E s \<noteq> Inl Diverges \<and> (\<forall>e s'. expr6 (Suc n) E s = Inr (Some e, s') \<longrightarrow> rest s' < rest s)"
    proof (cases "es_tt s")
      case (TokChar c)
      then show ?thesis
        using char(2) [OF TokChar] primary_consumes [OF assms, of s]
          char(1) [OF TokChar, of "unary_op E (\<lambda>v. of_bool (v = 0))"]
          char(1) [OF TokChar, of "unary_op E (\<lambda>v. NOT v)"] char(1) [OF TokChar, of "\<lambda>e. mult_ev E e (-1) False"]
        by simp
    next
      case (TokIfunc func)
      then have "live (es_tt s)" by (simp add: live_def)
      then show ?thesis using u [of "unary_op E (\<lambda>v. eval_ifunc v func)"] TokIfunc by simp
    next
      case TokSeg
      then have "live (es_tt s)" by (simp add: live_def)
      then show ?thesis using u [OF _ keeps_pos_seg] TokSeg by simp
    next
      case (TokFloatize ty)
      then have "live (es_tt s)" by (simp add: live_def)
      then show ?thesis using eval_floatize_consumes [OF assms, of s ty] TokFloatize by simp
    next
      case (TokStrfunc ty)
      then have "live (es_tt s)" by (simp add: live_def)
      then show ?thesis using eval_strfunc_consumes [OF assms, of s ty] TokStrfunc by simp
    qed (use primary_consumes [OF assms, of s] in simp_all)
  qed
qed (simp add: consumes_def)

lemma levels_consume:
  assumes "scanfunc E = scn"
  shows "consumes n (rexp0 n E)"
  unfolding rexp0_def rexp1_def rexp2_def rexp3_def expr0_def expr1_def expr2_def expr3_def expr4_def expr5_def
  by (intro level_consumes [OF assms] expr6_consumes [OF assms])
     (auto simp: live_def is_rel_tok_def is_add_tok_def is_mul_tok_def)

lemma cexpr_consumes:
  assumes "scanfunc E = scn"
  shows "consumes n (cexpr n E)"
proof (induction n)
  case (Suc n)
  show ?case
    unfolding consumes_def
  proof (intro allI impI)
    fix s assume s: "rest s < Suc n"
    have r: "rexp0 (Suc n) E s \<noteq> Inl Diverges" "\<And>e s1. rexp0 (Suc n) E s = Inr (Some e, s1) \<Longrightarrow> rest s1 < rest s"
      using levels_consume [OF assms, of "Suc n"] s by (auto simp: consumes_def)
    have c: "cexpr n E (scan E s1) \<noteq> Inl Diverges \<and>
        (\<forall>f s2. cexpr n E (scan E s1) = Inr (Some f, s2) \<longrightarrow> rest s2 \<le> rest s1)" if "rest s1 < n" for s1
    proof -
      have l: "rest (scan E s1) \<le> rest s1" by (rule scan_le [OF assms])
      then have "rest (scan E s1) < n" using that by simp
      with Suc.IH have "cexpr n E (scan E s1) \<noteq> Inl Diverges \<and>
          (\<forall>f s2. cexpr n E (scan E s1) = Inr (Some f, s2) \<longrightarrow> rest s2 < rest (scan E s1))"
        unfolding consumes_def by blast
      then show ?thesis using l by (meson less_imp_le less_le_trans)
    qed
    show "cexpr (Suc n) E s \<noteq> Inl Diverges \<and> (\<forall>e s'. cexpr (Suc n) E s = Inr (Some e, s') \<longrightarrow> rest s' < rest s)"
      unfolding cexpr.simps
    proof (rule consumes_andthen [OF r(1)], goal_cases)
      case (1 e s1)
      then have s1: "rest s1 < rest s" by (rule r(2))
      then have "rest s1 < n" using s by simp
      note c1 = c [OF this]
      show ?case
      proof (cases "es_tt s1 = TokQmark")
        case True
        have "andthen (cexpr n E (scan E s1)) (\<lambda>f s. if es_tt s \<noteq> TokChar (CHR '':'') then null_ev s
            else andthen (cexpr n E (scan E s)) (\<lambda>g. ret_ev (if is_simple (ee_tables E) e
              then (if reloc_value e \<noteq> 0 then f else g) else if is_just_unknown e then unknown_expr else e))) \<noteq> Inl Diverges \<and>
          (\<forall>v s''. andthen (cexpr n E (scan E s1)) (\<lambda>f s. if es_tt s \<noteq> TokChar (CHR '':'') then null_ev s
            else andthen (cexpr n E (scan E s)) (\<lambda>g. ret_ev (if is_simple (ee_tables E) e
              then (if reloc_value e \<noteq> 0 then f else g) else if is_just_unknown e then unknown_expr else e)))
            = Inr (Some v, s'') \<longrightarrow> rest s'' < Suc (rest s1))"
        proof (rule consumes_andthen, goal_cases)
          case 1
          then show ?case using c1 by blast
        next
          case (2 f s2)
          then have s2: "rest s2 \<le> rest s1" using c1 by blast
          then have "rest s2 < n" using s1 s by simp
          note c2 = c [OF this]
          have "andthen (cexpr n E (scan E s2)) (\<lambda>g. ret_ev (h g)) \<noteq> Inl Diverges \<and>
            (\<forall>v s''. andthen (cexpr n E (scan E s2)) (\<lambda>g. ret_ev (h g)) = Inr (Some v, s'') \<longrightarrow> rest s'' < Suc (rest s2))" for h
            by (rule consumes_andthen) (use c2 in \<open>auto simp: ret_ev_def less_Suc_eq_le\<close>)
          then show ?case using s2 by (auto simp: null_ev_def less_Suc_eq_le)
        qed
        then show ?thesis using True s1 by (simp add: less_Suc_eq_le)
      qed (use s1 in \<open>simp add: ret_ev_def\<close>)
    qed
  qed
qed (simp add: consumes_def)

lemma evaluate_returns:
  assumes "scanfunc E = scn" "left sc + 2 \<le> n"
  shows "evaluate n E tok sc \<noteq> Inl Diverges"
proof -
  let ?s = "\<lparr>es_tt = tok, es_sc = sc, es_base = None, es_hint = EAH_NOHINT\<rparr> :: 'sc estate"
  have "rest ?s < n" using assms(2) by (simp add: rest_def)
  moreover have "rest (scan E ?s) < n" using scan_le [OF assms(1), of ?s] calculation by simp
  ultimately have "rest (if tok = TokInvalid then scan E ?s else ?s) < n" by (simp only: split: if_split) blast
  then have "cexpr n E (if tok = TokInvalid then scan E ?s else ?s) \<noteq> Inl Diverges"
    using cexpr_consumes [OF assms(1), of n] unfolding consumes_def by blast
  then show ?thesis
    by (auto simp: evaluate_def Let_def andthen_def bnd_eq_Inl ret_ev_def split: option.splits)
qed

end

interpretation gt: finite_scanner "get_token T" length for T
proof
  show "length sc' \<le> length sc" if "get_token T sc = (t, sc')" for sc t sc'
    using get_token_length [of T sc] that by simp
  show "length sc' < length sc" if "get_token T sc = (t, sc')" "live t" for sc t sc'
    using get_token_progress [OF that(1)] that(2) by (simp add: live_def)
qed


end
