(* ===== verification/EvalCorrect.thy ===== *)
theory EvalCorrect
  imports Eval
begin

text \<open>
  What the evaluator computes: for every expression over numbers and registers, with any of the
  unary and binary operators, precedences and left associativity, the vector it returns denotes
  the value of the expression in 64-bit arithmetic.
\<close>

unbundle bit_operations_syntax

subsection \<open>Expressions and their values\<close>

datatype aexp = ANum "64 word" | AReg reg | AUn char aexp | ABin token aexp aexp

text \<open>The level of a binary operator, from the weakest on; unary operators bind at level 10.\<close>

definition op_level :: "token \<Rightarrow> nat option" where
  "op_level t =
     (if t = TokDblOr then Some 0 else if t = TokDblXor then Some 1 else if t = TokDblAnd then Some 2
      else if is_rel_tok t then Some 3
      else if t = TokChar (CHR ''|'') then Some 4 else if t = TokChar (CHR ''^'') then Some 5
      else if t = TokChar (CHR ''&'') then Some 6
      else if t \<in> {TokShl, TokShr, TokSar} then Some 7
      else if is_add_tok t then Some 8 else if is_mul_tok t then Some 9 else None)"

fun prec :: "aexp \<Rightarrow> nat" where
  "prec (ABin t a b) = (case op_level t of Some l \<Rightarrow> l | None \<Rightarrow> 10)"
| "prec _ = 10"

fun const_exp :: "aexp \<Rightarrow> bool" where
  "const_exp (ANum n) = True"
| "const_exp (AReg r) = False"
| "const_exp (AUn c a) = const_exp a"
| "const_exp (ABin t a b) = (const_exp a \<and> const_exp b)"

text \<open>
  Written without brackets: operands bind at least as strongly as the operator, the right one
  more strongly.  Registers may be added and multiplied by constants only.
\<close>

fun wf_exp :: "tables \<Rightarrow> aexp \<Rightarrow> bool" where
  "wf_exp T (ANum n) = True"
| "wf_exp T (AReg r) = (r \<in> known_regs T)"
| "wf_exp T (AUn c a) = (c \<in> set ''+-~!'' \<and> prec a = 10 \<and> wf_exp T a \<and> (c \<in> set ''~!'' \<longrightarrow> const_exp a))"
| "wf_exp T (ABin t a b) =
     (wf_exp T a \<and> wf_exp T b \<and> (\<exists>l. op_level t = Some l \<and> l \<le> prec a \<and> l < prec b) \<and>
      (is_add_tok t \<or> t = TokChar (CHR ''*'') \<and> (const_exp a \<or> const_exp b) \<or> const_exp a \<and> const_exp b))"

fun exp_toks :: "aexp \<Rightarrow> token list" where
  "exp_toks (ANum n) = [TokNum n]"
| "exp_toks (AReg r) = [TokReg r]"
| "exp_toks (AUn c a) = TokChar c # exp_toks a"
| "exp_toks (ABin t a b) = exp_toks a @ t # exp_toks b"

definition un_val :: "char \<Rightarrow> 64 word \<Rightarrow> 64 word" where
  "un_val c a = (if c = CHR ''-'' then - a else if c = CHR ''+'' then a
     else if c = CHR ''~'' then NOT a else of_bool (a = 0))"

text \<open>
  Binary operators on 64-bit values; comparisons look at the sign of the difference.  No value: a
  division by zero, a signed quotient that does not fit, a shift by 64 or more, and \<open><=>\<close> of
  a smaller and a greater value, which the evaluator takes for an unknown.
\<close>

definition bin_val :: "token \<Rightarrow> 64 word \<Rightarrow> 64 word \<Rightarrow> 64 word option" where
  "bin_val t a b =
     (if t = TokChar (CHR ''+'') then Some (a + b)
      else if t = TokChar (CHR ''-'') then Some (a - b)
      else if t = TokChar (CHR ''*'') then Some (a * b)
      else if is_mul_tok t then
        (if b = 0 then None
         else if t = TokChar (CHR ''/'') then Some (a div b)
         else if t = TokChar (CHR ''%'') then Some (a mod b)
         else if sint a = - (2 ^ 63) \<and> b = -1 then None
         else Some (word_of_int (if t = TokSdiv then sint a sdiv sint b else sint a smod sint b)))
      else if t \<in> {TokShl, TokShr, TokSar} then
        (if 64 \<le> b then None
         else Some (if t = TokShl then push_bit (unat b) a
                    else if t = TokShr then drop_bit (unat b) a else signed_drop_bit (unat b) a))
      else if t = TokChar (CHR ''&'') then Some (a AND b)
      else if t = TokChar (CHR ''^'') then Some (a XOR b)
      else if t = TokChar (CHR ''|'') then Some (a OR b)
      else if is_rel_tok t then
        (let d = sint (a - b) in
         if t = TokLeg then (if d < 0 then None else Some (of_bool (d > 0)))
         else Some (of_bool (if t = TokChar (CHR ''='') then d = 0 else if t = TokNe then d \<noteq> 0
           else if t = TokChar (CHR ''<'') then d < 0 else if t = TokLe then d \<le> 0
           else if t = TokChar (CHR ''>'') then d > 0 else d \<ge> 0)))
      else if t = TokDblAnd then Some (of_bool (a \<noteq> 0 \<and> b \<noteq> 0))
      else if t = TokDblXor then Some (of_bool ((a = 0) \<noteq> (b = 0)))
      else if t = TokDblOr then Some (of_bool (a \<noteq> 0 \<or> b \<noteq> 0))
      else None)"

fun aval :: "(reg \<Rightarrow> 64 word) \<Rightarrow> aexp \<Rightarrow> 64 word option" where
  "aval env (ANum n) = Some n"
| "aval env (AReg r) = Some (env r)"
| "aval env (AUn c a) = map_option (un_val c) (aval env a)"
| "aval env (ABin t a b) =
     (case aval env a of None \<Rightarrow> None | Some x \<Rightarrow> (case aval env b of None \<Rightarrow> None | Some y \<Rightarrow> bin_val t x y))"

lemma aval_const: "const_exp a \<Longrightarrow> aval env a = aval env' a"
  by (induction a) (simp_all cong: option.case_cong)

subsection \<open>Vectors that stand for an expression\<close>

definition val_env :: "(reg \<Rightarrow> 64 word) \<Rightarrow> etype \<Rightarrow> 64 word" where
  "val_env env t = (case t of EReg r \<Rightarrow> env r | ESimple \<Rightarrow> 1 | _ \<Rightarrow> 0)"

definition scal :: "vec \<Rightarrow> 64 word \<Rightarrow> bool" where
  "scal v k \<longleftrightarrow> v = [(ESimple, k)] \<or> v = [] \<and> k = 0"

definition stands_for :: "tables \<Rightarrow> aexp \<Rightarrow> vec \<Rightarrow> bool" where
  "stands_for T a v \<longleftrightarrow> plain_vec T v \<and> (const_exp a \<longrightarrow> (\<exists>k. scal v k)) \<and>
     (\<forall>env. aval env a = Some (den (val_env env) v))"

lemma plain_type_simple [simp]: "plain_type T ESimple"
  by (simp add: plain_type_def)

lemma val_env_simple [simp]: "val_env env ESimple = 1" "val_env env (EReg r) = env r"
  by (simp_all add: val_env_def)

lemma scal_facts:
  assumes "scal v k"
  shows "plain_vec T v" "is_simple T v" "is_really_simple v" "\<not> is_just_unknown v" "\<not> is_unknown T v"
    "reloc_value v = k" "den (val_env env) v = k"
proof -
  have "\<not> etype_no T ESimple < etype_no T EUnknown" by (simp add: etype_no_def)
  then show "plain_vec T v" "is_simple T v" "is_really_simple v" "\<not> is_just_unknown v" "\<not> is_unknown T v"
    "reloc_value v = k" "den (val_env env) v = k"
    using assms by (cases "k = 0"; auto simp: scal_def is_simple_def is_really_simple_def is_just_unknown_def
      is_unknown_def reloc_value_def)+
qed

lemma scal_scalarvect [simp]: "scal (scalarvect k) k"
  by (simp add: scal_def scalarvect_def)

lemma scal_scalar_mult: "scal v k \<Longrightarrow> scal (scalar_mult T v c) (c * k)"
  using scal_facts(1) [of v k T] by (auto simp: scal_def scalar_mult_plain)

lemma scal_add:
  assumes "scal v k" "scal w l"
  shows "scal (fst (add_vectors T v w)) (k + l)"
proof -
  have "\<not> far_abs T ESimple" by (simp add: plain_near)
  then show ?thesis using assms
    by (cases "k + l = 0") (auto simp: scal_def add_vectors_def add_rest_def)
qed

lemma stands_scal:
  assumes "scal v k" "\<And>env. aval env a = Some k"
  shows "stands_for T a v"
  using assms scal_facts [OF assms(1)] by (auto simp: stands_for_def)

lemma stands_const:
  assumes "stands_for T a v" "const_exp a"
  obtains k where "scal v k" "\<forall>env. aval env a = Some k"
proof -
  obtain k where k: "scal v k" using assms by (auto simp: stands_for_def)
  then have "aval env a = Some k" for env using assms scal_facts(7) [OF k] by (auto simp: stands_for_def)
  then show ?thesis using that k by blast
qed

subsection \<open>Positions\<close>

definition pos :: "'sc estate \<Rightarrow> token \<times> 'sc" where
  "pos s = (es_tt s, es_sc s)"

text \<open>From a position the scanner reads the tokens and arrives at the other position.\<close>

fun reads :: "'sc eval_env \<Rightarrow> token \<times> 'sc \<Rightarrow> token list \<Rightarrow> token \<times> 'sc \<Rightarrow> bool" where
  "reads E p [] p' = (p' = p)"
| "reads E p (t # ts) p' = (fst p = t \<and> reads E (scanfunc E (snd p)) ts p')"

lemma pos_scan [simp]: "pos (scan E s) = scanfunc E (es_sc s)"
  by (cases "scanfunc E (es_sc s)") (simp add: pos_def scan_def)

lemma pos_hint [simp]: "pos (s\<lparr>es_hint := h\<rparr>) = pos s" "pos (s\<lparr>es_base := b, es_hint := h\<rparr>) = pos s"
  "pos (s\<lparr>es_base := b\<rparr>) = pos s"
  by (simp_all add: pos_def)

lemma reads_append: "reads E p (xs @ ys) p' \<longleftrightarrow> (\<exists>q. reads E p xs q \<and> reads E q ys p')"
  by (induction xs arbitrary: p) auto

lemma andthen_ret [simp]: "andthen (Inr (Some v, s)) f = f v s"
  by (simp add: andthen_def)

subsection \<open>Operators on vectors\<close>

lemma un_minus:
  assumes "stands_for (ee_tables E) a e"
  shows "\<exists>v s'. mult_ev E e (-1) False s = Inr (Some v, s') \<and> pos s' = pos s \<and>
    stands_for (ee_tables E) (AUn (CHR ''-'') a) v"
proof -
  let ?T = "ee_tables E"
  have p: "plain_vec ?T e" and av: "\<And>env. aval env a = Some (den (val_env env) e)"
    using assms by (auto simp: stands_for_def)
  have "stands_for ?T (AUn (CHR ''-'') a) (scalar_mult ?T e (-1))"
    unfolding stands_for_def
  proof (intro conjI allI impI)
    show "plain_vec ?T (scalar_mult ?T e (-1))" by (rule scalar_mult_den(2) [OF p])
    show "aval env (AUn (CHR ''-'') a) = Some (den (val_env env) (scalar_mult ?T e (-1)))" for env
      using scalar_mult_den(1) [OF p, of "val_env env" "-1"] av [of env] by (simp add: un_val_def)
    show "\<exists>k. scal (scalar_mult ?T e (-1)) k" if "const_exp (AUn (CHR ''-'') a)"
    proof -
      have "const_exp a" using that by simp
      then obtain k where "scal e k" using assms by (auto simp: stands_for_def)
      from scal_scalar_mult [OF this] show ?thesis by blast
    qed
  qed
  then show ?thesis by (simp add: mult_ev_def ret_ev_def)
qed

lemma un_scalar:
  assumes "stands_for (ee_tables E) a e" "const_exp a" "c \<in> {CHR ''~'', CHR ''!''}"
  shows "\<exists>v. unary_op E (un_val c) e s = Inr (Some v, s) \<and> stands_for (ee_tables E) (AUn c a) v"
proof -
  obtain k where k: "scal e k" "\<forall>env. aval env a = Some k" by (rule stands_const [OF assms(1,2)])
  have "stands_for (ee_tables E) (AUn c a) (scalarvect (un_val c k))"
    by (rule stands_scal [OF scal_scalarvect]) (simp add: k(2))
  then show ?thesis using scal_facts(2) [OF k(1), of "ee_tables E"] scal_facts(4,6) [OF k(1)]
    by (simp add: unary_op_def ret_ev_def)
qed

lemma un_plus: "stands_for T a e \<Longrightarrow> stands_for T (AUn (CHR ''+'') a) e"
  by (auto simp: stands_for_def un_val_def)

text \<open>The parsers and the operators of the levels.\<close>

definition comb_at :: "'sc eval_env \<Rightarrow> nat \<Rightarrow> token \<Rightarrow> vec \<Rightarrow> vec \<Rightarrow> 'sc estate \<Rightarrow> 'sc ev" where
  "comb_at E l =
     [\<lambda>tto e f. ret_ev (scalar_op (\<lambda>a b. of_bool (a \<noteq> 0 \<or> b \<noteq> 0)) e f),
      \<lambda>tto e f. ret_ev (scalar_op (\<lambda>a b. of_bool (a = 0) XOR of_bool (b = 0)) e f),
      \<lambda>tto e f. ret_ev (scalar_op (\<lambda>a b. of_bool (a \<noteq> 0 \<and> b \<noteq> 0)) e f),
      compare_op E,
      \<lambda>tto e f. ret_ev (scalar_op (OR) e f),
      \<lambda>tto e f. ret_ev (scalar_op (XOR) e f),
      \<lambda>tto e f. ret_ev (scalar_op (AND) e f),
      shift_op E,
      \<lambda>tto e f. add_ev E e (if tto = TokChar (CHR ''+'') then f else scalar_mult (ee_tables E) f (-1)),
      mul_op E] ! l"

definition parser_at :: "nat \<Rightarrow> nat \<Rightarrow> 'sc eval_env \<Rightarrow> 'sc estate \<Rightarrow> 'sc ev" where
  "parser_at l n E = [rexp0 n E, rexp1 n E, rexp2 n E, rexp3 n E, expr0 n E, expr1 n E, expr2 n E, expr3 n E,
     expr4 n E, expr5 n E, expr6 n E] ! l"

lemma op_level_sets:
  "op_level t = Some 0 \<longleftrightarrow> t = TokDblOr" "op_level t = Some 1 \<longleftrightarrow> t = TokDblXor"
  "op_level t = Some 2 \<longleftrightarrow> t = TokDblAnd" "op_level t = Some 3 \<longleftrightarrow> is_rel_tok t"
  "op_level t = Some 4 \<longleftrightarrow> t = TokChar (CHR ''|'')" "op_level t = Some 5 \<longleftrightarrow> t = TokChar (CHR ''^'')"
  "op_level t = Some 6 \<longleftrightarrow> t = TokChar (CHR ''&'')" "op_level t = Some 7 \<longleftrightarrow> t \<in> {TokShl, TokShr, TokSar}"
  "op_level t = Some 8 \<longleftrightarrow> is_add_tok t" "op_level t = Some 9 \<longleftrightarrow> is_mul_tok t"
  by (auto simp: op_level_def is_rel_tok_def is_add_tok_def is_mul_tok_def)

lemma op_level_less: "op_level t = Some l \<Longrightarrow> l \<le> 9"
  by (auto simp: op_level_def split: if_splits)

lemma le_9_cases: "(l::nat) \<le> 9 \<Longrightarrow> l = 0 \<or> l = 1 \<or> l = 2 \<or> l = 3 \<or> l = 4 \<or> l = 5 \<or> l = 6 \<or> l = 7 \<or> l = 8 \<or> l = 9"
  by arith

lemma parser_at_level:
  assumes "l \<le> 9"
  shows "parser_at l n E = level n E (\<lambda>t. op_level t = Some l) (parser_at (Suc l) n E) (comb_at E l)"
  using le_9_cases [OF assms]
  by (elim disjE)
     (simp_all add: parser_at_def comb_at_def op_level_sets [simplified] rexp0_def rexp1_def rexp2_def rexp3_def
       expr0_def expr1_def expr2_def expr3_def expr4_def expr5_def fun_eq_iff level_def)

text \<open>Every binary operator, on vectors that stand for its operands.\<close>

lemma const_stands:
  assumes "\<forall>env. aval env a = Some k" "\<forall>env. aval env b = Some l" "bin_val t k l = Some r" "scal w r"
  shows "stands_for T (ABin t a b) w"
  by (rule stands_scal [OF assms(4)]) (simp add: assms(1,2,3))

lemma add_stands:
  assumes "regs_ok T" "stands_for T a e" "stands_for T b f"
  shows "stands_for T (ABin (TokChar (CHR ''+'')) a b) (fst (add_vectors T e f))"
proof -
  have p: "plain_vec T e" "plain_vec T f" using assms by (simp_all add: stands_for_def)
  show ?thesis
    unfolding stands_for_def
  proof (intro conjI allI impI)
    show "plain_vec T (fst (add_vectors T e f))" by (rule add_vectors_den(2) [OF assms(1) p])
    show "aval env (ABin (TokChar (CHR ''+'')) a b) = Some (den (val_env env) (fst (add_vectors T e f)))" for env
      using add_vectors_den(1) [OF assms(1) p, of "val_env env"] assms(2,3) by (simp add: stands_for_def bin_val_def)
    show "\<exists>k. scal (fst (add_vectors T e f)) k" if "const_exp (ABin (TokChar (CHR ''+'')) a b)"
    proof -
      have "const_exp a" "const_exp b" using that by simp_all
      then obtain k l where "scal e k" "scal f l" using assms(2,3) unfolding stands_for_def by blast
      from scal_add [OF this] show ?thesis by blast
    qed
  qed
qed

lemma simple_den:
  assumes "plain_vec T v" "is_simple T v"
  shows "den (val_env env) v = reloc_value v"
proof -
  have z: "den (val_env env) w = den (val_env env) (skip_zero w)" for w
    by (induction w) auto
  show ?thesis
  proof (cases "skip_zero v")
    case Nil
    then show ?thesis unfolding reloc_value_def z [of v] by (simp only: list.case den_simps(1))
  next
    case (Cons c r)
    obtain val where c: "c = (ESimple, val)" using assms(2) Cons by (cases c) (simp add: is_simple_def)
    have pr: "plain_vec T r" using assms(1) Cons
      by (metis (no_types, lifting) plain_vec_def set_dropWhileD list.set_intros(2))
    have sk: "skip_zero r = []"
    proof (rule ccontr)
      assume "skip_zero r \<noteq> []"
      then obtain d r' where d: "skip_zero r = d # r'" by (cases "skip_zero r") auto
      then have "far_abs T (fst d)" using assms(2) Cons c by (cases d) (simp add: is_simple_def far_abs_def)
      moreover have "d \<in> set r" using d by (metis set_dropWhileD list.set_intros(1))
      ultimately show False using pr plain_near by (auto simp: plain_vec_def)
    qed
    have "den (val_env env) r = 0" unfolding z [of r] sk by simp
    then show ?thesis using z [of v] Cons c by (simp add: reloc_value_def)
  qed
qed

lemma mult_stands:
  assumes "\<forall>env. aval env a = Some k" "stands_for T b f"
  shows "stands_for T (ABin (TokChar (CHR ''*'')) a b) (scalar_mult T f k)"
    "stands_for T (ABin (TokChar (CHR ''*'')) b a) (scalar_mult T f k)"
proof -
  have f: "plain_vec T f" "\<And>env. aval env b = Some (den (val_env env) f)"
    using assms by (simp_all add: stands_for_def)
  have c: "const_exp b \<Longrightarrow> \<exists>k'. scal (scalar_mult T f k) k'"
    using assms(2) scal_scalar_mult unfolding stands_for_def by blast
  show "stands_for T (ABin (TokChar (CHR ''*'')) a b) (scalar_mult T f k)"
    "stands_for T (ABin (TokChar (CHR ''*'')) b a) (scalar_mult T f k)"
    using scalar_mult_den(1) [OF f(1), of _ k] scalar_mult_den(2) [OF f(1), of k] f(2) assms(1) c
    by (simp_all add: stands_for_def bin_val_def mult.commute)
qed

lemma compare_stands:
  assumes "scal e k" "scal f l" "is_rel_tok t" "bin_val t k l = Some r"
  shows "\<exists>s'. compare_op E t e f s = Inr (Some (scalarvect r), s') \<and> pos s' = pos s"
proof -
  let ?T = "ee_tables E"
  let ?d = "fst (add_vectors ?T e (scalar_mult ?T f (-1)))"
  have "scal ?d (k + -1 * l)" by (rule scal_add [OF assms(1) scal_scalar_mult [OF assms(2)]])
  then have d: "scal ?d (k - l)" by simp
  have z: "sint (k - l) = 0 \<longleftrightarrow> k = l" by (simp add: signed_eq_0_iff)
  have "compare_value E t ?d \<noteq> -1 \<and> word_of_int (compare_value E t ?d) = r"
    using assms(3,4) scal_facts(3,6) [OF d] scal_facts(5) [OF d, of ?T]
    by (auto simp: compare_value_def bin_val_def is_rel_tok_def is_mul_tok_def Let_def split: if_splits)
  then show ?thesis
    by (auto simp: compare_op_def add_ev_def ret_ev_def Let_def split: prod.splits)
qed

lemma shift_stands:
  assumes "scal e k" "scal f l" "t \<in> {TokShl, TokShr, TokSar}" "bin_val t k l = Some r"
  shows "shift_op E t e f s = Inr (Some (scalarvect r), s)"
  using assms(3,4) scal_facts(2) [OF assms(1), of "ee_tables E"] scal_facts(2) [OF assms(2), of "ee_tables E"]
    scal_facts(4,6) [OF assms(1)] scal_facts(4,6) [OF assms(2)]
  by (auto simp: shift_op_def bin_val_def is_mul_tok_def ret_ev_def Let_def split: if_splits)

lemma div_stands:
  assumes "scal e k" "scal f l" "is_mul_tok t" "t \<noteq> TokChar (CHR ''*'')" "bin_val t k l = Some r"
  shows "mul_op E t e f s = Inr (Some (scalarvect r), s)"
proof -
  have "l \<noteq> 0" "div_op t k l = Inr r"
    using assms(3,4,5) by (auto simp: bin_val_def is_mul_tok_def div_op_def split: if_splits)
  then show ?thesis
    using assms(4) scal_facts(2) [OF assms(1), of "ee_tables E"] scal_facts(2) [OF assms(2), of "ee_tables E"]
    scal_facts(4,6) [OF assms(1)] scal_facts(4,6) [OF assms(2)]
    by (simp add: mul_op_def ret_ev_def Let_def)
qed

lemma scalar_op_stands:
  assumes "scal e k" "scal f l"
  shows "scalar_op g e f = scalarvect (g k l)"
  using scal_facts(4,6) [OF assms(1)] scal_facts(4,6) [OF assms(2)] by (simp add: scalar_op_def)

lemma bin_stands:
  assumes "regs_ok (ee_tables E)" "wf_exp (ee_tables E) (ABin t a b)" "op_level t = Some l"
    "stands_for (ee_tables E) a e" "stands_for (ee_tables E) b f" "aval env0 (ABin t a b) \<noteq> None"
  shows "\<exists>v s'. comb_at E l t e f s = Inr (Some v, s') \<and> pos s' = pos s \<and>
    stands_for (ee_tables E) (ABin t a b) v"
proof -
  let ?T = "ee_tables E"
  consider (add) "t = TokChar (CHR ''+'')" | (sub) "t = TokChar (CHR ''-'')" | (mul) "t = TokChar (CHR ''*'')"
    | (other) "\<not> is_add_tok t" "t \<noteq> TokChar (CHR ''*'')" by (auto simp: is_add_tok_def)
  then show ?thesis
  proof cases
    case add
    then have l: "l = 8" using assms(3) by (simp add: op_level_def is_rel_tok_def is_add_tok_def)
    from add_stands [OF assms(1,4,5)] show ?thesis
      by (auto simp: l comb_at_def add add_ev_def ret_ev_def Let_def split: prod.splits)
  next
    case sub
    then have l: "l = 8" using assms(3) by (simp add: op_level_def is_rel_tok_def is_add_tok_def)
    have f: "plain_vec ?T f" "\<And>env. aval env b = Some (den (val_env env) f)"
      using assms(5) by (simp_all add: stands_for_def)
    have "stands_for ?T (AUn (CHR ''-'') b) (scalar_mult ?T f (-1))"
      using un_minus [OF assms(5)] by (auto simp: mult_ev_def ret_ev_def)
    from add_stands [OF assms(1,4) this]
    have "stands_for ?T (ABin (TokChar (CHR ''-'')) a b) (fst (add_vectors ?T e (scalar_mult ?T f (-1))))"
      using f(2) assms(4) by (simp add: stands_for_def bin_val_def un_val_def)
    then show ?thesis
      by (auto simp: l comb_at_def sub add_ev_def ret_ev_def Let_def split: prod.splits)
  next
    case mul
    then have l: "l = 9" using assms(3) by (simp add: op_level_def is_rel_tok_def is_add_tok_def is_mul_tok_def)
    have e: "plain_vec ?T e" "\<forall>env. aval env a = Some (den (val_env env) e)"
      using assms(4) by (simp_all add: stands_for_def)
    show ?thesis
    proof (cases "is_simple ?T e")
      case True
      have "\<forall>env. aval env a = Some (reloc_value e)" using e(2) simple_den [OF e(1) True] by simp
      from mult_stands(1) [OF this assms(5)] show ?thesis
        using True by (auto simp: l comb_at_def mul mul_op_def mult_ev_def ret_ev_def Let_def)
    next
      case False
      have "\<not> const_exp a"
      proof
        assume "const_exp a"
        from stands_const [OF assms(4) this] show False using False scal_facts(2) by metis
      qed
      then have "const_exp b" using assms(2) mul by (simp add: is_add_tok_def)
      then obtain m where m: "scal f m" "\<forall>env. aval env b = Some m" by (rule stands_const [OF assms(5)])
      from mult_stands(2) [OF m(2) assms(4)] show ?thesis
        using False scal_facts(2) [OF m(1), of ?T] scal_facts(6) [OF m(1)]
        by (auto simp: l comb_at_def mul mul_op_def mult_ev_def ret_ev_def Let_def)
    qed
  next
    case other
    then have "const_exp a" "const_exp b" using assms(2) by auto
    then obtain k m where k: "scal e k" "\<forall>env. aval env a = Some k" and m: "scal f m" "\<forall>env. aval env b = Some m"
      using stands_const [OF assms(4)] stands_const [OF assms(5)] by metis
    obtain r where r: "bin_val t k m = Some r" using assms(6) k(2) m(2) by auto
    note st = const_stands [OF k(2) m(2) r scal_scalarvect]
    have "l \<noteq> 8" using assms(3) other op_level_sets(9) by auto
    then consider "is_rel_tok t" "l = 3" | "t \<in> {TokShl, TokShr, TokSar}" "l = 7" | "is_mul_tok t" "l = 9"
      | "l \<in> {0, 1, 2, 4, 5, 6}"
      using le_9_cases [OF op_level_less [OF assms(3)]] assms(3) op_level_sets(4,8,10) by (elim disjE) auto
    then show ?thesis
    proof cases
      case 1
      from compare_stands [OF k(1) m(1) 1(1) r, of E s]
      obtain s' where "compare_op E t e f s = Inr (Some (scalarvect r), s')" "pos s' = pos s" by blast
      then show ?thesis using st by (simp add: comb_at_def 1(2))
    next
      case 2
      from shift_stands [OF k(1) m(1) 2(1) r, of E s] show ?thesis using st by (simp add: comb_at_def 2(2))
    next
      case 3
      from div_stands [OF k(1) m(1) 3(1) other(2) r, of E s] show ?thesis using st by (simp add: comb_at_def 3(2))
    next
      case 4
      have "comb_at E l t e f s = Inr (Some (scalarvect r), s)"
      proof -
        note so = scalar_op_stands [OF k(1) m(1)]
        note ts = op_level_sets [simplified]
        have x: "of_bool (k = 0) XOR of_bool (m = 0) = (of_bool ((k = 0) \<noteq> (m = 0)) :: 64 word)" by simp
        from 4 consider "l = 0" | "l = 1" | "l = 2" | "l = 4" | "l = 5" | "l = 6" by blast
        then show ?thesis
          by cases (use assms(3) r in \<open>simp_all add: ts comb_at_def ret_ev_def so x bin_val_def is_mul_tok_def is_rel_tok_def\<close>)
      qed
      then show ?thesis using st by auto
    qed
  qed
qed

subsection \<open>Parsing\<close>

text \<open>A token that no operator of the level or a stronger one.\<close>

definition stops :: "nat \<Rightarrow> token \<Rightarrow> bool" where
  "stops l t \<longleftrightarrow> (\<forall>k. op_level t = Some k \<longrightarrow> k < l)"

text \<open>The parser of a level reads the whole expression, or reads it as the operand of a loop.\<close>

definition parses :: "'sc eval_env \<Rightarrow> nat \<Rightarrow> aexp \<Rightarrow> nat \<Rightarrow> bool" where
  "parses E n a l \<longleftrightarrow> (\<forall>s p'. reads E (pos s) (exp_toks a) p' \<longrightarrow> stops l (fst p') \<longrightarrow>
     (\<exists>v s'. parser_at l n E s = Inr (Some v, s') \<and> pos s' = p' \<and> stands_for (ee_tables E) a v))"

definition loops :: "'sc eval_env \<Rightarrow> nat \<Rightarrow> aexp \<Rightarrow> nat \<Rightarrow> bool" where
  "loops E n a l \<longleftrightarrow> (\<forall>s p'. reads E (pos s) (exp_toks a) p' \<longrightarrow> stops (Suc l) (fst p') \<longrightarrow>
     (\<exists>v s' k. parser_at l n E s
         = left_loop k E (\<lambda>t. op_level t = Some l) (parser_at (Suc l) n E) (comb_at E l) v s' \<and>
       n < k + length (exp_toks a) \<and> pos s' = p' \<and> stands_for (ee_tables E) a v))"

lemma exp_toks_nonempty: "0 < length (exp_toks a)"
  by (induction a) auto

lemma loops_parses:
  assumes "loops E n a l" "l \<le> 9" "length (exp_toks a) \<le> n"
  shows "parses E n a l"
  unfolding parses_def
proof (intro allI impI)
  fix s p' assume rd: "reads E (pos s) (exp_toks a) p'" and st: "stops l (fst p')"
  have "stops (Suc l) (fst p')" using st by (auto simp: stops_def)
  with assms(1) rd obtain v s' k where
    p: "parser_at l n E s = left_loop k E (\<lambda>t. op_level t = Some l) (parser_at (Suc l) n E) (comb_at E l) v s'"
    and k: "n < k + length (exp_toks a)" and s': "pos s' = p'" "stands_for (ee_tables E) a v"
    unfolding loops_def by blast
  obtain j where "k = Suc j" using k assms(3) by (cases k) auto
  moreover have "op_level (es_tt s') \<noteq> Some l" using st s'(1) by (auto simp: stops_def pos_def)
  ultimately have "parser_at l n E s = Inr (Some v, s')" using p by (simp add: ret_ev_def)
  then show "\<exists>v s'. parser_at l n E s = Inr (Some v, s') \<and> pos s' = p' \<and> stands_for (ee_tables E) a v"
    using s' by blast
qed

lemma parses_loops:
  assumes "parses E n a (Suc l)" "l \<le> 9"
  shows "loops E n a l"
  unfolding loops_def
proof (intro allI impI)
  fix s p' assume rd: "reads E (pos s) (exp_toks a) p'" and st: "stops (Suc l) (fst p')"
  with assms(1) obtain v s' where "parser_at (Suc l) n E s = Inr (Some v, s')" "pos s' = p'"
    "stands_for (ee_tables E) a v" unfolding parses_def by blast
  moreover have "n < n + length (exp_toks a)" using exp_toks_nonempty [of a] by simp
  ultimately show "\<exists>v s' k. parser_at l n E s
         = left_loop k E (\<lambda>t. op_level t = Some l) (parser_at (Suc l) n E) (comb_at E l) v s' \<and>
       n < k + length (exp_toks a) \<and> pos s' = p' \<and> stands_for (ee_tables E) a v"
    unfolding parser_at_level [OF assms(2)] level_def by (intro exI [of _ v] exI [of _ s'] exI [of _ n]) simp
qed

lemma parses_down:
  assumes "parses E n a k" "k \<le> 10" "l \<le> k" "length (exp_toks a) \<le> n"
  shows "parses E n a l"
  using assms(3)
proof (induction rule: inc_induct)
  case (step m)
  then have "m \<le> 9" using assms(2) by simp
  then show ?case using loops_parses [OF parses_loops [OF step.IH]] assms(4) by blast
qed (rule assms(1))

lemma loops_bin:
  assumes "regs_ok (ee_tables E)" "wf_exp (ee_tables E) (ABin t a b)" "op_level t = Some l"
    "loops E n a l" "parses E n b (Suc l)" "aval env0 (ABin t a b) \<noteq> None"
    "length (exp_toks (ABin t a b)) \<le> n"
  shows "loops E n (ABin t a b) l"
  unfolding loops_def
proof (intro allI impI)
  fix s p' assume rd: "reads E (pos s) (exp_toks (ABin t a b)) p'" and st: "stops (Suc l) (fst p')"
  let ?loop = "\<lambda>k. left_loop k E (\<lambda>t. op_level t = Some l) (parser_at (Suc l) n E) (comb_at E l)"
  obtain q where q: "reads E (pos s) (exp_toks a) q" "fst q = t" "reads E (scanfunc E (snd q)) (exp_toks b) p'"
    using rd by (auto simp: reads_append)
  have "stops (Suc l) (fst q)" using assms(3) q(2) by (simp add: stops_def)
  with assms(4) q(1) obtain v s1 k where p: "parser_at l n E s = ?loop k v s1"
    and k: "n < k + length (exp_toks a)" and s1: "pos s1 = q" "stands_for (ee_tables E) a v"
    unfolding loops_def by blast
  have tt: "es_tt s1 = t" "scanfunc E (es_sc s1) = scanfunc E (snd q)" using s1(1) q(2) by (auto simp: pos_def)
  then have "reads E (pos (scan E s1)) (exp_toks b) p'" using q(3) by simp
  with assms(5) st obtain w s2 where w: "parser_at (Suc l) n E (scan E s1) = Inr (Some w, s2)" "pos s2 = p'"
    "stands_for (ee_tables E) b w" unfolding parses_def by blast
  from bin_stands [OF assms(1-3) s1(2) w(3) assms(6), of s2] obtain x s3 where
    x: "comb_at E l t v w s2 = Inr (Some x, s3)" "pos s3 = pos s2" "stands_for (ee_tables E) (ABin t a b) x" by blast
  obtain j where j: "k = Suc j" using k assms(7) by (cases k) auto
  have "parser_at l n E s = ?loop j x s3" using p w(1) x(1) tt(1) assms(3) by (simp add: j)
  moreover have "n < j + length (exp_toks (ABin t a b))" using k j exp_toks_nonempty [of b] by simp
  ultimately show "\<exists>v s' k. parser_at l n E s = ?loop k v s' \<and> n < k + length (exp_toks (ABin t a b)) \<and>
      pos s' = p' \<and> stands_for (ee_tables E) (ABin t a b) v"
    using x w(2) by blast
qed

lemma parses_exp:
  assumes "regs_ok (ee_tables E)" "wf_exp (ee_tables E) a" "aval env0 a \<noteq> None" "length (exp_toks a) \<le> n"
  shows "parses E n a (prec a) \<and> (prec a \<le> 9 \<longrightarrow> loops E n a (prec a))"
  using assms(2-4)
proof (induction a arbitrary: n)
  case (ANum x)
  have "stands_for (ee_tables E) (ANum x) (scalarvect x)" by (rule stands_scal [OF scal_scalarvect]) simp
  moreover obtain m where "n = Suc m" using ANum.prems by (cases n) auto
  ultimately show ?case
    by (auto simp: parses_def parser_at_def pos_def primary_def ret_ev_def scan_def split: prod.splits)
next
  case (AReg r)
  have "stands_for (ee_tables E) (AReg r) [(EReg r, 1)]"
    using AReg.prems by (simp add: stands_for_def plain_type_def)
  moreover obtain m where "n = Suc m" using AReg.prems by (cases n) auto
  ultimately show ?case
    by (auto simp: parses_def parser_at_def pos_def primary_def ret_ev_def scan_def split: prod.splits)
next
  case (AUn c a)
  then have a: "prec a = 10" "c \<in> set ''+-~!''" "wf_exp (ee_tables E) a" "aval env0 a \<noteq> None"
    "c \<in> set ''~!'' \<longrightarrow> const_exp a" by auto
  obtain m where m: "n = Suc m" "length (exp_toks a) \<le> m" using AUn.prems by (cases n) auto
  have pa: "parser_at 10 m E = expr6 m E" by (simp add: parser_at_def)
  have IH: "parses E m a 10" using AUn.IH [OF a(3,4) m(2)] a(1) by simp
  have "parses E n (AUn c a) 10"
    unfolding parses_def
  proof (intro allI impI)
    fix s p' assume rd: "reads E (pos s) (exp_toks (AUn c a)) p'" and st: "stops 10 (fst p')"
    then have tt: "es_tt s = TokChar c" "reads E (pos (scan E s)) (exp_toks a) p'" by (simp_all add: pos_def [of s])
    from IH tt(2) st obtain v s' where v: "expr6 m E (scan E s) = Inr (Some v, s')" "pos s' = p'"
      "stands_for (ee_tables E) a v" unfolding parses_def pa by blast
    consider "c = CHR ''-''" | "c = CHR ''+''" | "c = CHR ''~''" | "c = CHR ''!''" using a(2) by auto
    then have "\<exists>w s''. expr6 n E s = Inr (Some w, s'') \<and> pos s'' = p' \<and> stands_for (ee_tables E) (AUn c a) w"
    proof cases
      case 1
      then show ?thesis using un_minus [OF v(3), of s'] v tt(1) by (auto simp: m)
    next
      case 2
      then show ?thesis using un_plus [OF v(3)] v tt(1) by (auto simp: m)
    next
      case 3
      then show ?thesis using un_scalar [OF v(3), of c s'] a(5) v tt(1)
        by (auto simp: m un_val_def [abs_def])
    next
      case 4
      then show ?thesis using un_scalar [OF v(3), of c s'] a(5) v tt(1)
        by (auto simp: m un_val_def [abs_def])
    qed
    then show "\<exists>v s'. parser_at 10 n E s = Inr (Some v, s') \<and> pos s' = p' \<and> stands_for (ee_tables E) (AUn c a) v"
      by (simp add: parser_at_def)
  qed
  then show ?case by simp
next
  case (ABin t a b)
  then obtain l where l: "op_level t = Some l" "l \<le> prec a" "l < prec b" by auto
  have l9: "l \<le> 9" by (rule op_level_less [OF l(1)])
  have sub: "wf_exp (ee_tables E) a" "wf_exp (ee_tables E) b" "aval env0 a \<noteq> None" "aval env0 b \<noteq> None"
    using ABin.prems(1,2) by (auto split: option.splits)
  have len: "length (exp_toks a) \<le> n" "length (exp_toks b) \<le> n" using ABin.prems(3) by auto
  have p10: "prec c \<le> 10" for c by (cases c) (auto dest: op_level_less split: option.splits)
  have b: "parses E n b (Suc l)"
    using parses_down [OF conjunct1 [OF ABin.IH(2) [OF sub(2,4) len(2)]] p10 _ len(2)] l(3) by simp
  have "loops E n a l"
  proof (cases "l = prec a")
    case True
    then show ?thesis using ABin.IH(1) [OF sub(1,3) len(1)] l9 by simp
  next
    case False
    then have "parses E n a (Suc l)"
      using parses_down [OF conjunct1 [OF ABin.IH(1) [OF sub(1,3) len(1)]] p10 _ len(1)] l(2) by simp
    then show ?thesis by (rule parses_loops [OF _ l9])
  qed
  from loops_bin [OF assms(1) ABin.prems(1) l(1) this b ABin.prems(2,3)] have lp: "loops E n (ABin t a b) l" .
  from lp loops_parses [OF lp l9 ABin.prems(3)] show ?case using l(1) by simp
qed


text \<open>A scanner over a list of tokens, for evaluating the definitions.\<close>

definition list_scanner :: "token list \<Rightarrow> token \<times> token list" where
  "list_scanner ts = (case ts of [] \<Rightarrow> (TokEos, []) | t # r \<Rightarrow> (t, r))"

definition list_env :: "token list eval_env" where
  "list_env = \<lparr>ee_tables = ia32_tables, scanfunc = list_scanner, loc_segment = NO_SEG, critical = False,
     float_value = (\<lambda>_ _ _. None), string_value = (\<lambda>_ _. None)\<rparr>"

lemma ia32_regs_ok: "regs_ok ia32_tables"
proof -
  have name: "nasm_reg_names r = fst (ia32_regs ! (reg_no ia32_tables r - 1))" if "r \<in> known_regs ia32_tables" for r
  proof -
    have "length (takeWhile (\<lambda>x. fst x \<noteq> nasm_reg_names r) ia32_regs) < length ia32_regs"
      using that by (simp add: known_regs_def ia32_tables_def ia32_reg_no_def)
    from nth_length_takeWhile [OF this] show ?thesis by (simp add: ia32_tables_def ia32_reg_no_def)
  qed
  show ?thesis
    unfolding regs_ok_def
  proof (rule inj_onI)
    fix r r' assume "r \<in> known_regs ia32_tables" "r' \<in> known_regs ia32_tables"
      "reg_no ia32_tables r = reg_no ia32_tables r'"
    then have "nasm_reg_names r = nasm_reg_names r'" using name by metis
    then show "r = r'" by (cases r; cases r') (simp add: nasm_reg_names_def)
  qed
qed

lemma ia32_known: "R ''ebx'' \<in> known_regs ia32_tables" "R ''ecx'' \<in> known_regs ia32_tables"
  by (simp_all add: known_regs_def ia32_tables_def ia32_reg_no_def ia32_regs_def nasm_reg_names_def)


end
