(* ===== verification/Tmplt.thy ===== *)
theory Tmplt
  imports Generator Generation Traverse
begin

text \<open>
  Templates and the walk over them: \<open>engine/tmplt.h\<close> and the walkers of \<open>engine/tmplt.c\<close>.  A
  template is a tree of blocks; walking it generates the program, block by block.
\<close>

subsection \<open>Blocks\<close>

text \<open>
  An element of a block.  The \<open>trv_nodes\<close> of an instruction point to the arrays of the traversal
  state with the given number; \<open>inip\<close> is the probability of setting up the operands.
\<close>

datatype elem =
    NoneElem
  | VElem
  | GElem double wd_root
  | CElem "string option"
  | IElem double string "nat option"

text \<open>
  A block has a number that stands for its address.  A traversal block has the number of its
  traversal state with the trees of its operands, or a null pointer.
\<close>

datatype blk =
    SeqBlk nat "blk list"
  | SelBlk nat wd_root
  | TttBlk nat string int "blk list"
  | RptBlk nat int "blk list"
  | TrvBlk nat "(nat \<times> wd_root list) option" "blk list"
  | ElemBlk nat elem

fun blk_no :: "blk \<Rightarrow> nat" where
  "blk_no (SeqBlk n _) = n"
| "blk_no (SelBlk n _) = n"
| "blk_no (TttBlk n _ _ _) = n"
| "blk_no (RptBlk n _ _) = n"
| "blk_no (TrvBlk n _ _) = n"
| "blk_no (ElemBlk n _) = n"

text \<open>
  The state of a walk: the counters of the traversal, the generator, and the arrays of constants
  of every traversal state.
\<close>

record walk = trv_globals +
  w_gen :: gen
  w_trv :: "nat \<Rightarrow> vals"

definition on_gen :: "(gen \<Rightarrow> gen res) \<Rightarrow> walk \<Rightarrow> walk res" where
  "on_gen f w = bnd (f (w_gen w)) (\<lambda>g. Inr (w\<lparr>w_gen := g\<rparr>))"

definition set_pg :: "(x86pg \<Rightarrow> x86pg) \<Rightarrow> gen \<Rightarrow> gen" where
  "set_pg f g = g\<lparr>pg := f (pg g)\<rparr>"

definition blk_invalid_var_all :: "nat \<Rightarrow> gen \<Rightarrow> gen" where
  "blk_invalid_var_all b g = g\<lparr>blk_vars := (blk_vars g)(b :=
     map (\<lambda>v. v\<lparr>bv_valid := False, bv_var_val := None, bv_init_mem_addr := None\<rparr>) (blk_vars g b))\<rparr>"

text \<open>The start of most walkers: the block becomes the current one and its variables invalid.\<close>

definition enter_blk :: "nat list \<Rightarrow> gen \<Rightarrow> gen" where
  "enter_blk chain g = blk_invalid_var_all (hd chain) (set_pg (\<lambda>s. s\<lparr>curr_blk := chain\<rparr>) g)"

subsection \<open>Elements\<close>

text \<open>An instruction from a leaf of a tree of instruction groups.\<close>

definition gen_from_tree :: "string eval_env \<Rightarrow> nat \<Rightarrow> wd_root \<Rightarrow> gen \<Rightarrow> gen res" where
  "gen_from_tree E depth tree g =
     bnd (draw (wdtree_select_leaf_node tree) g) (\<lambda>(inst_node, g).
     bnd (deref inst_node) (\<lambda>c.
     bnd (draw (create_insn_seed (ee_tables E) (asm_op c)) g) (\<lambda>(seed, g).
     bnd (one_insn_gen E (one_insn_gen_const depth E) (Some seed) g) (\<lambda>(_, g). Inr g))))"

text \<open>The choice whether operands are set up.\<close>

definition choose_init :: "double \<Rightarrow> gen \<Rightarrow> gen res" where
  "choose_init inip g =
     bnd (draw (likely_happen_p inip) g) (\<lambda>(b, g).
     Inr (set_pg (\<lambda>s. s\<lparr>need_init := b, has_mem_opnd := False\<rparr>) g))"

definition walkGElem :: "string eval_env \<Rightarrow> nat \<Rightarrow> double \<Rightarrow> wd_root \<Rightarrow> gen \<Rightarrow> gen res" where
  "walkGElem E depth inip tree g =
     bnd (choose_init inip g) (\<lambda>g.
     bnd (gen_from_tree E depth tree g) (\<lambda>g.
     Inr (set_pg (\<lambda>s. s\<lparr>need_init := False\<rparr>) g)))"

text \<open>
  A check point.  A variable is looked up from the current block on; an unknown one is a null
  pointer.  The text goes to a buffer of 128 bytes.
\<close>

definition check_value :: "string \<Rightarrow> gen \<Rightarrow> string res" where
  "check_value c_type g =
     (if c_type \<noteq> [] \<and> hd c_type = CHR ''@'' then
        bnd (deref (blk_search_var (blk_vars g) (curr_blk (pg g)) c_type)) (\<lambda>p.
        if bv_valid (get_var p g) then deref (bv_var_val (get_var p g)) else Inl Fatal)
      else Inr c_type)"

definition walkCElem :: "string option \<Rightarrow> gen \<Rightarrow> gen res" where
  "walkCElem c_type g =
     (case c_type of None \<Rightarrow> Inl Fatal
      | Some t \<Rightarrow>
          bnd (check_value t g) (\<lambda>v.
          let call_check_function = ''  check '' @ v in
          if length call_check_function < 128 then emit_text call_check_function g else Inl Undefined))"

definition walkIElem ::
  "string eval_env \<Rightarrow> nat \<Rightarrow> double \<Rightarrow> string \<Rightarrow> vals option \<Rightarrow> gen \<Rightarrow> gen res" where
  "walkIElem E depth inip asm_inst nodes g =
     bnd (choose_init inip g) (\<lambda>g.
     bnd (one_insn_gen_const depth E asm_inst (set_pg (\<lambda>s. s\<lparr>trv_nodes := nodes\<rparr>) g)) (\<lambda>g.
     Inr (set_pg (\<lambda>s. s\<lparr>need_init := False, trv_nodes := None\<rparr>) g)))"

definition walkElemBlk :: "string eval_env \<Rightarrow> nat \<Rightarrow> elem \<Rightarrow> walk \<Rightarrow> walk res" where
  "walkElemBlk E depth e w =
     on_gen (\<lambda>g.
       let g = set_pg (\<lambda>s. s\<lparr>st_opcode := I_none\<rparr>) g in
       case e of
         NoneElem \<Rightarrow> Inl Undefined
       | VElem \<Rightarrow> Inl Undefined
       | GElem inip tree \<Rightarrow> walkGElem E depth inip tree g
       | CElem c_type \<Rightarrow> walkCElem c_type g
       | IElem inip asm_inst trv \<Rightarrow> walkIElem E depth inip asm_inst (map_option (w_trv w) trv) g) w"

subsection \<open>Blocks of blocks\<close>

definition walkSelBlk :: "string eval_env \<Rightarrow> nat \<Rightarrow> nat list \<Rightarrow> wd_root \<Rightarrow> walk \<Rightarrow> walk res" where
  "walkSelBlk E depth chain tree w = on_gen (\<lambda>g. gen_from_tree E depth tree (enter_blk chain g)) w"

text \<open>A transfer around what \<open>body\<close> generates.\<close>

definition walkTttBlk ::
  "string eval_env \<Rightarrow> nat list \<Rightarrow> string \<Rightarrow> int \<Rightarrow> (walk \<Rightarrow> walk res) \<Rightarrow> walk \<Rightarrow> walk res" where
  "walkTttBlk E chain ttt_op n body w =
     (let w = w\<lparr>w_gen := enter_blk chain (w_gen w)\<rparr> in
      bnd (parse_asm_opcode (ee_tables E) ttt_op) (\<lambda>opc.
      bnd (gen_control_transfer_insn opc n (pg (w_gen w)) (rn (w_gen w))) (\<lambda>(next_label, s, r).
      bnd (body (w\<lparr>w_gen := (w_gen w)\<lparr>pg := s, rn := r\<rparr>\<rparr>)) (\<lambda>w.
      on_gen (on_pg (\<lambda>s. bnd (update_insert_pos_to_label next_label s) (\<lambda>s. Inr (stat_unlock_ctrl s)))) w))))"

definition walkRptBlk :: "nat list \<Rightarrow> int \<Rightarrow> (walk \<Rightarrow> walk res) \<Rightarrow> walk \<Rightarrow> walk res" where
  "walkRptBlk chain n body w =
     foldM (\<lambda>k w. body (w\<lparr>w_gen := blk_invalid_var_all (hd chain) (w_gen w)\<rparr>)) [0..<nat n]
       (w\<lparr>w_gen := set_pg (\<lambda>s. s\<lparr>curr_blk := chain\<rparr>) (w_gen w)\<rparr>)"

text \<open>The arrays of the traversal state hold the combination while the body runs on it.\<close>

definition walkTrvBlk ::
  "nat list \<Rightarrow> (nat \<times> wd_root list) option \<Rightarrow> (walk \<Rightarrow> walk res) \<Rightarrow> walk \<Rightarrow> walk res" where
  "walkTrvBlk chain trv body w =
     bnd (deref trv) (\<lambda>(k, trees).
     bnd (traverse_block (\<lambda>tn w. body (w\<lparr>w_gen := blk_invalid_var_all (hd chain) (w_gen w),
                                          w_trv := (w_trv w)(k := tn)\<rparr>)) trees
           (w\<lparr>w_gen := set_pg (\<lambda>s. s\<lparr>curr_blk := chain\<rparr>) (w_gen w)\<rparr>)) (\<lambda>w.
     Inr (w\<lparr>w_trv := (w_trv w)(k := [])\<rparr>)))"

lemma walkTttBlk_cong [fundef_cong]:
  "(\<And>w. body w = body' w) \<Longrightarrow> walkTttBlk E chain t n body w = walkTttBlk E chain t n body' w"
  by (subgoal_tac "body = body'") (auto intro: ext)

lemma walkRptBlk_cong [fundef_cong]:
  "(\<And>w. body w = body' w) \<Longrightarrow> walkRptBlk chain n body w = walkRptBlk chain n body' w"
  by (subgoal_tac "body = body'") (auto intro: ext)

lemma walkTrvBlk_cong [fundef_cong]:
  "(\<And>w. body w = body' w) \<Longrightarrow> walkTrvBlk chain t body w = walkTrvBlk chain t body' w"
  by (subgoal_tac "body = body'") (auto intro: ext)

text \<open>
  The walk of a block, given the numbers of its ancestors.  An element leaves the current block
  as it is.
\<close>

fun walk_blk :: "string eval_env \<Rightarrow> nat \<Rightarrow> nat list \<Rightarrow> blk \<Rightarrow> walk \<Rightarrow> walk res" where
  "walk_blk E depth anc (SeqBlk b blks) w =
     foldM (walk_blk E depth (b # anc)) blks (w\<lparr>w_gen := enter_blk (b # anc) (w_gen w)\<rparr>)"
| "walk_blk E depth anc (SelBlk b tree) w = walkSelBlk E depth (b # anc) tree w"
| "walk_blk E depth anc (TttBlk b ttt_op n blks) w =
     walkTttBlk E (b # anc) ttt_op n (\<lambda>w. foldM (walk_blk E depth (b # anc)) blks w) w"
| "walk_blk E depth anc (RptBlk b n blks) w =
     walkRptBlk (b # anc) n (\<lambda>w. foldM (walk_blk E depth (b # anc)) blks w) w"
| "walk_blk E depth anc (TrvBlk b trv blks) w =
     walkTrvBlk (b # anc) trv (\<lambda>w. foldM (walk_blk E depth (b # anc)) blks w) w"
| "walk_blk E depth anc (ElemBlk b e) w = walkElemBlk E depth e w"

definition walk_tmplt :: "string eval_env \<Rightarrow> nat \<Rightarrow> blk \<Rightarrow> walk \<Rightarrow> walk res" where
  "walk_tmplt E depth tmpltm w = walk_blk E depth [] tmpltm w"

end
