(* ===== verification/Walk.thy ===== *)
theory Walk
  imports Tmplt "HOL-Library.Sublist"
begin

text \<open>
  Walking a template refines the steps of \<open>Generation\<close>: whatever the walkers, the instruction
  generator and the set-up of operands do to the program is a sequence of emitted instructions,
  labels, and transfers that are entered and left.  So every program that a template gives is
  well-formed and executes everything that was generated.
\<close>

named_theorems runs_intro \<open>operations that take a run of the generator further\<close>

subsection \<open>Texts that are no transfers\<close>

definition transfer_list :: "string list" where
  "transfer_list = [''jmp'', ''call'', ''ret'', ''retf'', ''retn'', ''iret'', ''iretd'', ''iretw'',
     ''ja'', ''jae'', ''jb'', ''jbe'', ''jc'', ''je'', ''jg'', ''jge'', ''jl'', ''jle'',
     ''jna'', ''jnae'', ''jnb'', ''jnbe'', ''jnc'', ''jne'', ''jng'', ''jnge'', ''jnl'', ''jnle'',
     ''jno'', ''jnp'', ''jns'', ''jnz'', ''jo'', ''jp'', ''js'', ''jz'', ''jpe'', ''jpo'',
     ''jcxz'', ''jecxz'', ''loop'', ''loope'', ''loopne'', ''loopnz'', ''loopz'']"

lemma is_transfer_list: "is_transfer w \<longleftrightarrow> w \<in> set transfer_list"
  by (simp add: is_transfer_def is_jcc_def is_loop_def transfer_list_def)

abbreviation quiet_text :: "string \<Rightarrow> bool" where
  "quiet_text t \<equiv> plain (ctl t)"

lemma quiet_textI:
  "\<not> is_transfer (takeWhile (\<lambda>c. c \<noteq> CHR '' '') t) \<Longrightarrow> quiet_text (''  '' @ t)"
  by (simp add: plain_def label_of_def target_of_def mnemonic_of_def)

lemma quiet_blank [simp]: "quiet_text ''''"
  by (simp add: plain_def label_of_def target_of_def mnemonic_of_def is_transfer_list transfer_list_def)

lemma plain_ctrl: "ctrl i = Some t \<Longrightarrow> plain i = quiet_text t"
  by (simp add: plain_def label_of_def target_of_def mnemonic_of_def)

text \<open>A line that begins with a word that is no transfer.\<close>

definition quiet_line :: "string \<Rightarrow> bool" where
  "quiet_line l \<longleftrightarrow> (\<exists>w x. l = ''  '' @ w @ '' '' @ x \<and> CHR '' '' \<notin> set w \<and> \<not> is_transfer w)"

lemma quiet_line_append: "quiet_line l \<Longrightarrow> quiet_text (l @ x)"
proof -
  assume "quiet_line l"
  then obtain w y where l: "l = ''  '' @ w @ '' '' @ y" "CHR '' '' \<notin> set w" "\<not> is_transfer w"
    unfolding quiet_line_def by blast
  have "takeWhile (\<lambda>c. c \<noteq> CHR '' '') (w @ '' '' @ y @ x) = w"
    using takeWhile_word [OF l(2), of "y @ x"] by simp
  then have "quiet_text (''  '' @ w @ '' '' @ y @ x)" using l(3) by (intro quiet_textI) simp
  then show ?thesis by (simp add: l(1))
qed

lemma quiet_line_text: "quiet_line l \<Longrightarrow> quiet_text l"
  using quiet_line_append [of l "[]"] by simp

lemma quiet_lineI:
  "takeWhile (\<lambda>c. c \<noteq> CHR '' '') t = w \<Longrightarrow> \<not> is_transfer w \<Longrightarrow> dropWhile (\<lambda>c. c \<noteq> CHR '' '') t \<noteq> [] \<Longrightarrow>
    quiet_line (''  '' @ t)"
proof -
  assume w: "takeWhile (\<lambda>c. c \<noteq> CHR '' '') t = w" "\<not> is_transfer w"
    and "dropWhile (\<lambda>c. c \<noteq> CHR '' '') t \<noteq> []"
  then obtain x where x: "dropWhile (\<lambda>c. c \<noteq> CHR '' '') t = '' '' @ x"
    by (cases "dropWhile (\<lambda>c. c \<noteq> CHR '' '') t") (auto simp: dropWhile_eq_Cons_conv)
  then have "''  '' @ t = ''  '' @ w @ '' '' @ x"
    using takeWhile_dropWhile_id [of "\<lambda>c. c \<noteq> CHR '' ''" t] w(1) by simp
  moreover have "CHR '' '' \<notin> set w" using w(1) set_takeWhileD by fastforce
  ultimately show ?thesis using w(2) unfolding quiet_line_def by blast
qed

text \<open>The lines the generator itself writes.\<close>

lemma quiet_lines_written [simp]:
  "quiet_line (CHR '' '' # CHR '' '' # CHR ''m'' # CHR ''o'' # CHR ''v'' # CHR '' '' # x)"
  "quiet_line (CHR '' '' # CHR '' '' # CHR ''l'' # CHR ''e'' # CHR ''a'' # CHR '' '' # x)"
  "quiet_line (CHR '' '' # CHR '' '' # CHR ''p'' # CHR ''u'' # CHR ''s'' # CHR ''h'' # CHR '' '' # x)"
  "quiet_line (CHR '' '' # CHR '' '' # CHR ''f'' # CHR ''f'' # CHR ''r'' # CHR ''e'' # CHR ''e'' # CHR '' '' # x)"
  "quiet_line (CHR '' '' # CHR '' '' # CHR ''f'' # CHR ''s'' # CHR ''t'' # CHR ''p'' # CHR '' '' # x)"
  "quiet_line (CHR '' '' # CHR '' '' # CHR ''c'' # CHR ''h'' # CHR ''e'' # CHR ''c'' # CHR ''k'' # CHR '' '' # x)"
  "quiet_line (CHR '' '' # CHR '' '' # CHR ''m'' # CHR ''o'' # CHR ''v'' # CHR ''q'' # CHR '' '' # x)"
  using quiet_lineI [of "''mov '' @ x" "''mov''"] quiet_lineI [of "''lea '' @ x" "''lea''"]
    quiet_lineI [of "''push '' @ x" "''push''"] quiet_lineI [of "''ffree '' @ x" "''ffree''"]
    quiet_lineI [of "''fstp '' @ x" "''fstp''"] quiet_lineI [of "''check '' @ x" "''check''"]
    quiet_lineI [of "''movq '' @ x" "''movq''"]
  by (simp_all add: is_transfer_list transfer_list_def)

lemma quiet_lines: "ls = [] \<or> quiet_line (hd ls) \<Longrightarrow> quiet_text (lines ls)"
  by (cases ls rule: lines.cases) (auto intro: quiet_line_text quiet_line_append)

lemma quiet_move_line [simp]: "quiet_line (move_line sw addr mv)"
  by (simp add: move_line_def)

lemma quiet_lines_moves [simp]:
  "ms \<noteq> [] \<or> ls = [] \<Longrightarrow> quiet_text (lines (move_lines sw addr ms @ ls))"
  by (rule quiet_lines) (cases ms; simp add: move_lines_def)

lemma quiet_lines_Cons [simp]: "quiet_line l \<Longrightarrow> quiet_text (lines (l # ls))"
  by (rule quiet_lines) simp

subsection \<open>What the entries of the program hold\<close>

text \<open>An entry is a text, or an instruction to be encoded once.\<close>

definition encodable :: "insn \<Rightarrow> bool" where
  "encodable i \<longleftrightarrow> (ctrl i = None \<longrightarrow> times i = 1)"

lemma encodable_ctl [simp]: "ctrl i = Some t \<Longrightarrow> encodable i"
  by (simp add: encodable_def)

definition all_entries :: "('i \<Rightarrow> bool) \<Rightarrow> 'i insnlist \<Rightarrow> bool" where
  "all_entries Q l \<longleftrightarrow> (\<forall>a e. heap l a = Some e \<longrightarrow> Q (e_insn e))"

lemma all_entries_fields [simp]:
  "all_entries Q (l\<lparr>lh_first := p\<rparr>) = all_entries Q l" "all_entries Q (l\<lparr>tail := q\<rparr>) = all_entries Q l"
  "all_entries Q (l\<lparr>insn_count := n\<rparr>) = all_entries Q l" "all_entries Q (l\<lparr>brk := b\<rparr>) = all_entries Q l"
  by (simp_all add: all_entries_def)

lemma all_entries_upd [simp]:
  "all_entries Q l \<Longrightarrow> all_entries Q (upd_entry a (le_next_update f) l)"
  "all_entries Q l \<Longrightarrow> all_entries Q (upd_entry a (le_prev_update g) l)"
  by (auto simp: all_entries_def upd_entry_def split: if_splits)

lemma all_entries_insert:
  assumes "all_entries Q l" "Q i"
  shows "insnlist_insert_after l p i = Inr (q, l') \<Longrightarrow> all_entries Q l'"
    "insnlist_insert_before l p i = Inr (q, l') \<Longrightarrow> all_entries Q l'"
    "insnlist_insert_tail l i = Inr (q, l') \<Longrightarrow> all_entries Q l'"
proof -
  have head: "all_entries Q (tlist_insert_head e l)" if "all_entries Q l" for e l
    using that by (auto simp: tlist_insert_head_def Let_def split: option.split)
  have after: "all_entries Q l'" if "tlist_insert_after p e l = Inr l'" "all_entries Q l" for p e l l'
    using that by (auto simp: tlist_insert_after_def Let_def split: option.splits)
  have store: "all_entries Q l'" if "store_ptr c v l = Inr l'" "all_entries Q l" for c v l l'
    using that by (auto simp: store_ptr_def split: ploc.splits option.splits)
  have before: "all_entries Q l'" if "tlist_insert_before p e l = Inr l'" "all_entries Q l" for p e l l'
    using that by (auto simp: tlist_insert_before_def Let_def dest: store)
  have z: "all_entries Q (snd (zalloc_entry i l))"
    using assms by (simp add: zalloc_entry_def all_entries_def)
  show "insnlist_insert_after l p i = Inr (q, l') \<Longrightarrow> all_entries Q l'"
    using z assms(1)
    by (auto simp: insnlist_insert_after_def Let_def head split: if_splits prod.splits option.splits dest: after)
  show "insnlist_insert_before l p i = Inr (q, l') \<Longrightarrow> all_entries Q l'"
    using z assms(1)
    by (auto simp: insnlist_insert_before_def Let_def head split: if_splits prod.splits option.splits dest: before)
  show "insnlist_insert_tail l i = Inr (q, l') \<Longrightarrow> all_entries Q l'"
    using z by (auto simp: insnlist_insert_tail_def Let_def head split: prod.splits option.splits dest: after)
qed

definition entries_ok :: "x86pg \<Rightarrow> bool" where
  "entries_ok s \<longleftrightarrow> all_entries encodable (instlist s)"

lemma entries_insert:
  "stat_insert_insn i pos s = Inr s' \<Longrightarrow> encodable i \<Longrightarrow> entries_ok s \<Longrightarrow> entries_ok s'"
  by (auto simp: stat_insert_insn_def entries_ok_def dest: all_entries_insert split: position.splits)

lemma ctrl_entries:
  "one_insn_gen_ctrl (Some t) p s = Inr s' \<Longrightarrow> entries_ok s \<longrightarrow> entries_ok s'"
  "gen_label p s = Inr (l, s') \<Longrightarrow> entries_ok s \<longrightarrow> entries_ok s'"
  "update_insert_pos_to_label k s = Inr s' \<Longrightarrow> entries_ok s \<longrightarrow> entries_ok s'"
  "likely_gen_label s r = Inr (s', r') \<Longrightarrow> entries_ok s \<longrightarrow> entries_ok s'"
proof -
  show c: "one_insn_gen_ctrl (Some t) p s = Inr s' \<Longrightarrow> entries_ok s \<longrightarrow> entries_ok s'" for t p s s'
    by (auto simp: one_insn_gen_ctrl_def encodable_def dest: entries_insert)
  have f: "entries_ok (stat_inc_labeli s\<lparr>labelspos := x\<rparr>) = entries_ok s" for s x
    by (simp add: entries_ok_def stat_inc_labeli_def)
  show g: "gen_label p s = Inr (l, s') \<Longrightarrow> entries_ok s \<longrightarrow> entries_ok s'" for p s l s'
    by (auto simp: gen_label_def Let_def f dest!: c split: if_splits)
  show "update_insert_pos_to_label k s = Inr s' \<Longrightarrow> entries_ok s \<longrightarrow> entries_ok s'"
    by (auto simp: update_insert_pos_to_label_def entries_ok_def)
  show "likely_gen_label s r = Inr (s', r') \<Longrightarrow> entries_ok s \<longrightarrow> entries_ok s'"
    by (auto simp: likely_gen_label_def dest!: g split: if_splits)
qed

subsection \<open>Runs\<close>

text \<open>The texts kept for later, for the memory operand and in the variables, are no transfers.\<close>

definition texts_ok :: "gen \<Rightarrow> bool" where
  "texts_ok g \<longleftrightarrow> quiet_text (init_mem_addr (pg g)) \<and> entries_ok (pg g) \<and>
     (\<forall>b. \<forall>v \<in> set (blk_vars g b). \<forall>t. bv_init_mem_addr v = Some t \<longrightarrow> quiet_text t)"

text \<open>
  A run from one state of the generator to another, below a transfer with landing label \<open>m\<close>, that
  leaves \<open>d\<close> at the start of the token buffer.
\<close>

definition runs :: "string \<Rightarrow> int option \<Rightarrow> gen \<Rightarrow> gen \<Rightarrow> bool" where
  "runs d m g0 g \<longleftrightarrow> gen_step\<^sup>*\<^sup>* (pg g0, m) (pg g, m) \<and> gen_ok (pg g0) m \<and> texts_ok g \<and>
     (\<forall>b. length (blk_vars g b) = length (blk_vars g0 b)) \<and> prefix d (tok_done g)"

lemma runs_start: "gen_ok (pg g) m \<Longrightarrow> texts_ok g \<Longrightarrow> prefix d (tok_done g) \<Longrightarrow> runs d m g g"
  by (simp add: runs_def)

lemma runs_ok: "runs d m g0 g \<Longrightarrow> gen_ok (pg g) m"
  by (auto simp: runs_def intro: gen_steps_ok)

lemma runs_again: "runs d m g0 g \<Longrightarrow> runs d m g g"
  using runs_ok [of d m g0 g] by (simp add: runs_def)

lemma runs_trans: "runs d m g0 g1 \<Longrightarrow> runs d' m g1 g2 \<Longrightarrow> prefix d (tok_done g2) \<Longrightarrow> runs d m g0 g2"
  by (auto simp: runs_def)

lemma runs_fields [simp]:
  "runs d m g0 (g\<lparr>rn := r\<rparr>) = runs d m g0 g"
  "runs d m g0 (g\<lparr>rn := r, pg := s\<rparr>) = runs d m g0 (g\<lparr>pg := s\<rparr>)"
  "runs d m g0 (g\<lparr>tok_rest := x\<rparr>) = runs d m g0 g"
  "runs d m g0 (g\<lparr>tk_models := y\<rparr>) = runs d m g0 g"
  by (simp_all add: runs_def texts_ok_def)

lemma runs_done [runs_intro]: "runs d m g0 g \<Longrightarrow> runs d m g0 (g\<lparr>tok_done := tok_done g @ x\<rparr>)"
  by (auto simp: runs_def texts_ok_def intro: prefix_prefix)

lemma runs_done_empty [simp]: "runs [] m g0 (g\<lparr>tok_done := x\<rparr>) = runs [] m g0 g"
  by (simp add: runs_def texts_ok_def)

text \<open>A step of the program state: the steps of \<open>Generation\<close> and a new text that is no transfer.\<close>

lemma runs_step:
  assumes "runs d m g0 g" "gen_step (pg g, m) (s, m)" "quiet_text (init_mem_addr s)"
    "entries_ok (pg g) \<Longrightarrow> entries_ok s"
  shows "runs d m g0 (g\<lparr>pg := s\<rparr>)"
  using assms by (auto simp: runs_def texts_ok_def)

lemma runs_same:
  assumes "runs d m g0 g" "same_program (pg g) s" "quiet_text (init_mem_addr s)"
  shows "runs d m g0 (g\<lparr>pg := s\<rparr>)"
proof (rule runs_step [OF assms(1) gen_step.quiet [OF assms(2)] assms(3)])
  show "entries_ok s" if "entries_ok (pg g)" using that assms(2) by (simp add: same_program_def entries_ok_def)
qed

lemma runs_quiet: "runs d m g0 g \<Longrightarrow> quiet_text (init_mem_addr (pg g))"
  by (simp add: runs_def texts_ok_def)

lemma runs_flags [runs_intro]:
  "runs d m g0 g \<Longrightarrow> runs d m g0 (g\<lparr>pg := (pg g)\<lparr>need_init := b\<rparr>\<rparr>)"
  "runs d m g0 g \<Longrightarrow> runs d m g0 (g\<lparr>pg := (pg g)\<lparr>has_mem_opnd := b\<rparr>\<rparr>)"
  "runs d m g0 g \<Longrightarrow> runs d m g0 (g\<lparr>pg := (pg g)\<lparr>need_init := b, has_mem_opnd := c\<rparr>\<rparr>)"
  "runs d m g0 g \<Longrightarrow> runs d m g0 (g\<lparr>pg := (pg g)\<lparr>has_mem_opnd := c, need_init := b\<rparr>\<rparr>)"
  "runs d m g0 g \<Longrightarrow> runs d m g0 (g\<lparr>pg := (pg g)\<lparr>opi := i\<rparr>\<rparr>)"
  "runs d m g0 g \<Longrightarrow> runs d m g0 (g\<lparr>pg := (pg g)\<lparr>st_opcode := opc\<rparr>\<rparr>)"
  using runs_quiet [of d m g0 g] by (auto intro!: runs_same simp: same_program_def)

lemma runs_insert:
  assumes "runs d m g0 g" "plain i" "encodable i" "stat_insert_insn i INSERT_AFTER (pg g) = Inr s"
  shows "runs d m g0 (g\<lparr>pg := s\<rparr>)"
proof (rule runs_step [OF assms(1)])
  show "gen_step (pg g, m) (s, m)" by (rule gen_step.emit [OF assms(2,4)])
  show "entries_ok s" if "entries_ok (pg g)" using entries_insert [OF assms(4,3) that] .
  have "init_mem_addr s = init_mem_addr (pg g)" using assms(4) by (auto simp: stat_insert_insn_def)
  then show "quiet_text (init_mem_addr s)" using runs_quiet [OF assms(1)] by simp
qed

lemma ctrl_text_runs [runs_intro]:
  assumes "runs d m g0 g" "\<And>x. t = Some x \<Longrightarrow> quiet_text x"
  shows "holds (runs d m g0) (on_pg (one_insn_gen_ctrl t INSERT_AFTER) g)"
  unfolding holds_def
  using assms by (auto simp: on_pg_Inr one_insn_gen_ctrl_def intro: runs_insert)

lemma emit_text_runs [runs_intro]:
  "runs d m g0 g \<Longrightarrow> quiet_text t \<Longrightarrow> holds (runs d m g0) (emit_text t g)"
  unfolding emit_text_def by (rule ctrl_text_runs) auto

text \<open>
  Sequencing, by what the two parts return besides the state: nothing, one value or two.  A first
  part without a state adds nothing.
\<close>

lemma bnd_runs:
  fixes I :: "gen \<Rightarrow> bool"
  shows "holds I a \<Longrightarrow> (\<And>g. I g \<Longrightarrow> holds I (f g)) \<Longrightarrow> holds I (bnd a f)"
    "holds I a \<Longrightarrow> (\<And>g. I g \<Longrightarrow> holds (\<lambda>(x, g). I g) (f1 g)) \<Longrightarrow> holds (\<lambda>(x, g). I g) (bnd a f1)"
    "holds I a \<Longrightarrow> (\<And>g. I g \<Longrightarrow> holds (\<lambda>(x, y, g). I g) (f2 g)) \<Longrightarrow> holds (\<lambda>(x, y, g). I g) (bnd a f2)"
    "holds (\<lambda>(x, g). I g) a1 \<Longrightarrow> (\<And>x g. I g \<Longrightarrow> holds I (h (x, g))) \<Longrightarrow> holds I (bnd a1 h)"
    "holds (\<lambda>(x, g). I g) a1 \<Longrightarrow> (\<And>x g. I g \<Longrightarrow> holds (\<lambda>(x, g). I g) (h1 (x, g))) \<Longrightarrow>
      holds (\<lambda>(x, g). I g) (bnd a1 h1)"
    "holds (\<lambda>(x, g). I g) a1 \<Longrightarrow> (\<And>x g. I g \<Longrightarrow> holds (\<lambda>(x, y, g). I g) (h2 (x, g))) \<Longrightarrow>
      holds (\<lambda>(x, y, g). I g) (bnd a1 h2)"
    "holds (\<lambda>(x, y, g). I g) a2 \<Longrightarrow> (\<And>x y g. I g \<Longrightarrow> holds I (k (x, y, g))) \<Longrightarrow> holds I (bnd a2 k)"
    "holds (\<lambda>(x, y, g). I g) a2 \<Longrightarrow> (\<And>x y g. I g \<Longrightarrow> holds (\<lambda>(x, g). I g) (k1 (x, y, g))) \<Longrightarrow>
      holds (\<lambda>(x, g). I g) (bnd a2 k1)"
    "holds (\<lambda>(x, y, g). I g) a2 \<Longrightarrow> (\<And>x y g. I g \<Longrightarrow> holds (\<lambda>(x, y, g). I g) (k2 (x, y, g))) \<Longrightarrow>
      holds (\<lambda>(x, y, g). I g) (bnd a2 k2)"
  by (auto simp: holds_def)

lemmas bnd_pure =
  holds_bnd_pure [where m = "deref x" for x] holds_bnd_pure [where m = "idx xs i" for xs i]
  holds_bnd_pure [where m = "guard_res b e" for b e] holds_bnd_pure [where m = "mem_address x" for x]
  holds_bnd_pure [where m = "const_words x" for x] holds_bnd_pure [where m = "mmx_moves x" for x]
  holds_bnd_pure [where m = "xmm_moves x" for x] holds_bnd_pure [where m = "calOperandSize T sd n" for T sd n]
  holds_bnd_pure [where m = "needs_size opc n f b" for opc n f b]
  holds_bnd_pure [where m = "create_opnd_seed T x sd g" for T x sd g]
  holds_bnd_pure [where m = "request_trv_node n s" for n s]
  holds_bnd_pure [where m = "request_packed_trv_node n s" for n s]
  holds_bnd_pure [where m = "get_tkm_from_hashtbl n s" for n s]

lemmas runs_vcg = bnd_runs bnd_pure

declare lines.simps [simp del]

subsection \<open>Setting up operands\<close>

lemma draw_runs [runs_intro]: "runs d m g0 g \<Longrightarrow> holds (\<lambda>(x, g). runs d m g0 g) (draw f g)"
  by (auto simp: holds_def draw_Inr)

lemma set_token_text_runs [runs_intro]:
  "runs d m g0 g \<Longrightarrow> holds (runs d m g0) (set_token_text t g)"
  by (simp add: set_token_text_def)

lemma request_runs [runs_intro]:
  assumes "runs d m g0 g"
  shows "holds (\<lambda>(x, g). runs d m g0 g) (request_val_node n i g)"
    "holds (\<lambda>(x, g). runs d m g0 g) (request_packed_val_node n i g)"
    "holds (\<lambda>(x, g). runs d m g0 g) (request_value g)"
    "holds (\<lambda>(x, g). runs d m g0 g) (request_values g)"
    "holds (\<lambda>(x, g). runs d m g0 g) (imm32_or_random v g)"
proof -
  show a: "holds (\<lambda>(x, g). runs d m g0 g) (request_val_node n i g)"
    "holds (\<lambda>(x, g). runs d m g0 g) (request_packed_val_node n i g)" for n i
    unfolding request_val_node_def request_packed_val_node_def
    using assms by (auto intro!: runs_vcg runs_intro)
  show "holds (\<lambda>(x, g). runs d m g0 g) (request_value g)"
    "holds (\<lambda>(x, g). runs d m g0 g) (request_values g)"
    unfolding request_value_def request_values_def
    using assms by (auto intro!: runs_vcg runs_intro a split: option.splits)
  show "holds (\<lambda>(x, g). runs d m g0 g) (imm32_or_random v g)"
    unfolding imm32_or_random_def using assms by (auto intro!: runs_vcg runs_intro split: option.splits)
qed

lemma mmx_moves_ne: "mmx_moves cs = Inr (w, ms) \<Longrightarrow> ms \<noteq> []"
  by (auto simp: mmx_moves_def split: if_splits)

lemma xmm_moves_ne: "xmm_moves cs = Inr (ms, w) \<Longrightarrow> ms \<noteq> []"
  by (auto simp: xmm_moves_def split: list.splits if_splits)

lemma quiet_st_load [simp]: "quiet_text (lines (st_load r c))"
  by (auto simp: st_load_def Let_def)

text \<open>The callback for instructions given as text, of which only the word counts.\<close>

definition callback_runs :: "int option \<Rightarrow> (string \<Rightarrow> gen \<Rightarrow> gen res) \<Rightarrow> bool" where
  "callback_runs m gen_const \<longleftrightarrow> (\<forall>d g0 g x. runs d m g0 g \<longrightarrow>
     holds (runs d m g0) (gen_const (''mov '' @ x) g))"

lemma callback_runsD:
  "callback_runs m gen_const \<Longrightarrow> runs d m g0 g \<Longrightarrow> holds (runs d m g0) (gen_const (''mov '' @ x) g)"
  by (simp add: callback_runs_def)

lemma init_specific_register_runs [runs_intro]:
  assumes "callback_runs m gen_const" "runs d m g0 g"
  shows "holds (runs d m g0) (init_specific_register gen_const r g)"
  unfolding init_specific_register_def Let_def
  using assms(2) by (auto intro!: runs_vcg runs_intro callback_runsD [OF assms(1)] simp del: append_Cons)

lemma init_specific_runs [runs_intro]:
  assumes "runs d m g0 g"
  shows "holds (runs d m g0) (init_specific_mem r g)" "holds (runs d m g0) (init_popf g)"
    "holds (runs d m g0) (init_fpu_dest_register r g)"
  unfolding init_specific_mem_def init_popf_def init_fpu_dest_register_def
  using assms by (auto intro!: runs_vcg runs_intro quiet_line_text)

lemma init_memory_runs [runs_intro]:
  assumes "runs d m g0 g"
  shows "holds (runs d m g0) (init_memory_opnd_float t seed c g)"
    "holds (runs d m g0) (init_memory_opnd_x87env t c g)"
    "holds (runs d m g0) (init_memory_opnd_bcd80 t c g)"
    "holds (runs d m g0) (init_memory_opnd_imm64 t c g)"
    "holds (runs d m g0) (init_memory_opnd_mmx t g)"
    "holds (runs d m g0) (init_memory_opnd_xmm t g)"
proof -
  note q = quiet_lines_moves [where ls = "[]", simplified]
  show "holds (runs d m g0) (init_memory_opnd_float t seed c g)"
    unfolding init_memory_opnd_float_def Let_def
    using assms by (auto intro!: runs_vcg runs_intro q)
  show "holds (runs d m g0) (init_memory_opnd_x87env t c g)"
    "holds (runs d m g0) (init_memory_opnd_bcd80 t c g)"
    "holds (runs d m g0) (init_memory_opnd_imm64 t c g)"
    unfolding init_memory_opnd_x87env_def init_memory_opnd_bcd80_def init_memory_opnd_imm64_def
    using assms by (auto intro!: runs_vcg runs_intro q)
  show "holds (runs d m g0) (init_memory_opnd_mmx t g)"
    "holds (runs d m g0) (init_memory_opnd_xmm t g)"
    unfolding init_memory_opnd_mmx_def init_memory_opnd_xmm_def
    using assms by (auto intro!: runs_vcg runs_intro q)
qed

lemma init_memory_opnd_runs [runs_intro]:
  assumes "runs d m g0 g"
  shows "holds (runs d m g0) (init_memory_opnd t seed g)"
  unfolding init_memory_opnd_def Let_def
  using assms by (auto intro!: runs_vcg runs_intro quiet_line_text)

lemma init_register_runs [runs_intro]:
  assumes "runs d m g0 g"
  shows "holds (runs d m g0) (init_fpu_register_opnd t g)"
    "holds (runs d m g0) (init_mmx_register_opnd t g)"
    "holds (runs d m g0) (init_xmm_register_opnd t g)"
  unfolding init_fpu_register_opnd_def init_mmx_register_opnd_def init_xmm_register_opnd_def
  using assms by (auto intro!: runs_vcg runs_intro dest: mmx_moves_ne xmm_moves_ne)

lemma init_register_opnd_runs [runs_intro]:
  assumes "callback_runs m gen_const" "runs d m g0 g"
  shows "holds (runs d m g0) (init_register_opnd gen_const t g)"
  unfolding init_register_opnd_def
  using assms(2) by (auto intro!: runs_vcg runs_intro callback_runsD [OF assms(1)] simp del: append_Cons)

lemma init_immediate_opnd_runs [runs_intro]:
  assumes "runs d m g0 g"
  shows "holds (\<lambda>(x, g). runs d m g0 g) (init_immediate_opnd b seed g)"
  unfolding init_immediate_opnd_def Let_def
  using assms by (auto intro!: runs_vcg runs_intro holds_bnd_pure [where m = b] split: option.splits)

lemma init_opnd_runs [runs_intro]:
  assumes "callback_runs m gen_const" "runs d m g0 g"
    and "\<And>v x. var = Some v \<Longrightarrow> bv_init_mem_addr v = Some x \<Longrightarrow> quiet_text x"
  shows "holds (runs d m g0) (init_opnd gen_const t seed var g)"
  unfolding init_opnd_def Let_def
  using assms runs_quiet [OF assms(2)] by (auto intro!: runs_vcg runs_intro split: option.splits)

subsection \<open>Generating operands\<close>

lemma create_random_modrm_runs [runs_intro]:
  assumes "runs d m g0 g"
  shows "holds (\<lambda>(t, sd, g). runs d m g0 g) (create_random_modrm T seed g)"
proof -
  define R where "R b = (\<lambda>(x :: string, init, g). runs d m g0 g \<and> (if b then quiet_line init else init = ''''))" for b
  define R' where "R' = (\<lambda>(x :: string, init, g). runs d m g0 g \<and> quiet_text init)"
  have lock: "runs d m g0 (g\<lparr>pg := stat_lock_reg r c (pg g)\<rparr>)" if "runs d m g0 g" for g r c
    using that runs_quiet [OF that] by (auto intro!: runs_same simp: same_program_def stat_lock_reg_def)
  have base: "holds (R b) (if b then bnd (draw (draw_free_reg (pg g)) g) (\<lambda>(basereg, g).
               Inr (nasm_reg_names basereg,
                    ''  lea '' @ nasm_reg_names basereg @ '', data'' @ fmt_d k,
                    g\<lparr>pg := stat_lock_reg basereg LOCK_REG_CASE_MEM (pg g)\<rparr>)) else Inr ('''', '''', g))"
    if "runs d m g0 g" for g b k
    using that lock [OF that] by (auto simp: R_def holds_def draw_Inr)
  have quiet: "quiet_text (init @ (if b then [CHR 0x0A] else '''') @ ''  mov '' @ y)"
    if "if b then quiet_line init else init = ''''" for init b y
    using that by (cases b) (simp_all add: quiet_line_append quiet_line_text)
  have index: "holds R' (if b' then bnd (draw (draw_free_reg (pg g)) g) (\<lambda>(indexreg, g).
               Inr (nasm_reg_names indexreg,
                    init @ (if b then [CHR 0x0A] else '''') @ ''  mov '' @ nasm_reg_names indexreg @ '', '' @ k, g))
               else Inr ('''', init, g))"
    if "R b (x, init, g)" for x g init b b' k
    using that quiet [of b init] unfolding R_def R'_def
    by (auto simp: holds_def draw_Inr quiet_line_text split: if_splits simp del: append_Cons append_assoc)
  have fin: "runs d m g0 (g\<lparr>pg := (stat_unlock_reg LOCK_REG_CASE_MEM (pg g))\<lparr>init_mem_addr := init, has_mem_opnd := h\<rparr>\<rparr>)"
    if "R' (x, init, g)" for x init g h
    using that by (auto simp: R'_def same_program_def stat_unlock_reg_def intro!: runs_same)
  have mode: "holds (\<lambda>(x, g). runs d m g0 g) (choose_mode seed g)"
    unfolding choose_mode_def using assms by (auto intro!: runs_vcg runs_intro)
  show ?thesis
    unfolding create_random_modrm_def
    apply (rule bnd_runs(6) [OF mode], simp only: prod.case)
    apply (rule bnd_runs(6) [OF draw_runs], assumption, simp only: prod.case)
    apply (rule holds_bnd [OF base], assumption)
    subgoal for mode g a g' x by (cases x rule: prod_cases3) (simp only: prod.case, rule holds_bnd [OF index], assumption, use fin in \<open>auto simp: Let_def\<close>)
    done
qed
lemma create_memory_runs [runs_intro]:
  "runs d m g0 g \<Longrightarrow> holds (\<lambda>(t, sd, g). runs d m g0 g) (create_memory T seed g)"
  unfolding create_memory_def by (auto intro: runs_intro)

lemma gen_register_runs [runs_intro]:
  "runs d m g0 g \<Longrightarrow> holds (\<lambda>(t, g). runs d m g0 g) (gen_register T seed g)"
  unfolding gen_register_def Let_def by (auto intro!: runs_vcg runs_intro split: option.splits)

lemma gen_immediate_runs [runs_intro]:
  "runs d m g0 g \<Longrightarrow> holds (\<lambda>(t, g). runs d m g0 g) (gen_immediate seed b g)"
  unfolding gen_immediate_def Let_def by (auto intro!: runs_vcg runs_intro)

lemma gen_reg_mem_runs [runs_intro]:
  "runs d m g0 g \<Longrightarrow> holds (\<lambda>(t, sd, g). runs d m g0 g) (gen_reg_mem T seed g)"
  unfolding gen_reg_mem_def Let_def by (auto intro!: runs_vcg runs_intro)

lemma gen_operand_internal_runs [runs_intro]:
  "runs d m g0 g \<Longrightarrow> holds (\<lambda>(t, sd, g). runs d m g0 g) (gen_operand_internal T seed b g)"
  unfolding gen_operand_internal_def Let_def by (auto intro!: runs_vcg runs_intro)

lemma set_var_runs [runs_intro]:
  assumes "runs d m g0 g" "\<And>x. bv_init_mem_addr v = Some x \<Longrightarrow> quiet_text x"
  shows "runs d m g0 (set_var p v g)"
  using assms by (auto simp: runs_def texts_ok_def set_var_def dest!: set_update_subset_insert [THEN subsetD])

lemma get_var_quiet:
  assumes "runs d m g0 g" "snd p < length (blk_vars g0 (fst p))" "bv_init_mem_addr (get_var p g) = Some x"
  shows "quiet_text x"
proof -
  have "get_var p g \<in> set (blk_vars g (fst p))" using assms(1,2) by (simp add: runs_def get_var_def)
  then show ?thesis using assms(1,3) by (auto simp: runs_def texts_ok_def)
qed

lemma gen_var_operand_runs [runs_intro]:
  assumes "runs d m g0 g" "snd p < length (blk_vars g (fst p))"
  shows "holds (\<lambda>(t, sd, g). runs d m g0 g) (gen_var_operand T p seed t g)"
proof -
  have "quiet_text x" if "bv_init_mem_addr (get_var p g) = Some x" for x
    using get_var_quiet [OF runs_again [OF assms(1)] assms(2) that] .
  then show ?thesis
    unfolding gen_var_operand_def Let_def using assms(1)
    by (auto intro!: runs_vcg runs_intro runs_quiet split: option.splits if_splits)
qed


lemma gen_operand_insn_seed_runs [runs_intro]:
  assumes "callback_runs m gen_const" "runs d m g0 g"
  shows "holds (\<lambda>(ok, sd, g). runs d m g0 g) (gen_operand_insn_seed T gen_const isd seed g)"
  unfolding gen_operand_insn_seed_def Let_def
  using assms by (auto intro!: runs_vcg runs_intro split: option.splits)

lemma gen_operand_pseudo_code_runs [runs_intro]:
  assumes "callback_runs m gen_const" "runs d m g0 g"
  shows "holds (\<lambda>(ok, sd, g). runs d m g0 g) (gen_operand_pseudo_code T gen_const seed g)"
proof -
  obtain opnd_len asm_opnd where c: "copy_asm_opnd (dropWhile nasm_isspace (tok_rest g)) = (opnd_len, asm_opnd)"
    by fastforce
  have inb: "snd p < length (blk_vars g0 (fst p))" "snd p < length (blk_vars g (fst p))"
    if "opnd_var sd asm_opnd g = Some p" for sd p
    using blk_search_var_Some [of "blk_vars g" "curr_blk (pg g)" asm_opnd "fst p" "snd p"] that assms(2)
    by (auto simp: opnd_var_def runs_def split: if_splits)
  have opnd: "holds (\<lambda>(t, sd, g). runs d m g0 g) (case opnd_var sd asm_opnd g of
             Some p \<Rightarrow> gen_var_operand T p sd asm_opnd g
           | None \<Rightarrow> if is_opnd_type sd then gen_operand_internal T sd (Inr asm_opnd) g
                     else Inr (Some asm_opnd, sd, g))" for sd
    using assms(2) inb(2) [of sd] by (auto intro!: runs_intro split: option.splits)
  have init: "holds (runs d m g0) (init_opnd gen_const x sd
      (map_option (\<lambda>p. get_var p g') (opnd_var sd' asm_opnd g)) g')"
    if "runs d m g0 g'" for x sd sd' g'
    using that inb(1) [of sd'] get_var_quiet [OF that]
    by (intro init_opnd_runs [OF assms(1) that]) auto
  show ?thesis
    unfolding gen_operand_pseudo_code_def Let_def c prod.case
    apply (rule bnd_pure)
    apply (rule bnd_runs(9) [OF opnd])
    apply (auto intro!: runs_vcg runs_intro init split: option.split)
    done
qed

lemma gen_operand_runs [runs_intro]:
  assumes "callback_runs m gen_const" "runs d m g0 g"
  shows "holds (\<lambda>(ok, l, g). runs d m g0 g) (gen_operand T gen_const isd is_label g)"
  unfolding gen_operand_def
  using assms by (auto intro!: runs_vcg runs_intro split: option.splits)

lemma init_implied_runs [runs_intro]:
  assumes "callback_runs m gen_const" "runs d m g0 g"
  shows "holds (runs d m g0) (init_implied gen_const i g)"
  unfolding init_implied_def using assms by (auto intro!: runs_intro split: implied.split)

lemma init_implied_operands_runs [runs_intro]:
  assumes "callback_runs m gen_const" "runs d m g0 g"
  shows "holds (runs d m g0) (init_implied_operands T gen_const result g)"
  unfolding init_implied_operands_def Let_def
  using assms by (auto intro!: runs_vcg runs_intro foldM_holds)


subsection \<open>An instruction\<close>

lemma runs_tokens: "runs d m g0 g \<Longrightarrow> runs d m g0 (g\<lparr>tok_done := tok_done g @ x, tok_rest := y\<rparr>)"
  using runs_done [of d m g0 g x] by (simp add: runs_def texts_ok_def)

text \<open>Reading tokens touches nothing but the token buffer, and there only moves on.\<close>

definition reads_on :: "gen \<Rightarrow> gen \<Rightarrow> bool" where
  "reads_on g g' \<longleftrightarrow> (\<exists>x y. g' = g\<lparr>tok_done := tok_done g @ x, tok_rest := y\<rparr>)"

lemma reads_onI: "reads_on g (g\<lparr>tok_done := tok_done g @ x, tok_rest := y\<rparr>)"
  unfolding reads_on_def by blast

lemma reads_on_refl: "reads_on g g"
  unfolding reads_on_def by (intro exI [of _ "[]"] exI [of _ "tok_rest g"]) simp

lemma reads_on_trans: "reads_on g g1 \<Longrightarrow> reads_on g1 g2 \<Longrightarrow> reads_on g g2"
  unfolding reads_on_def by fastforce

lemma reads_on_runs: "reads_on g g' \<Longrightarrow> runs d m g0 g \<Longrightarrow> runs d m g0 g'"
  unfolding reads_on_def using runs_tokens by blast

lemma next_token_reads: "reads_on g (snd (next_token T g))"
  by (simp add: next_token_def Let_def reads_onI split: prod.split)

lemma read_sizes_reads: "reads_on g (snd (snd (read_sizes T b ty t g)))"
proof (induction T b ty t g rule: read_sizes.induct)
  case (1 T b ty t g)
  show ?case
  proof (cases "size_word t")
    case None
    then show ?thesis by (simp add: read_sizes.simps reads_on_refl)
  next
    case (Some w)
    obtain b' ty' where s: "size_keyword w b ty = (b', ty')" by fastforce
    obtain t' g' where n: "next_token T g = (t', g')" by fastforce
    have "reads_on g g'" using next_token_reads [of g T] n by simp
    then show ?thesis using 1(1) [OF Some s [symmetric] n [symmetric]] Some s n
      by (subst read_sizes.simps) (auto intro: reads_on_trans)
  qed
qed

lemma parse_operand_reads:
  assumes "parse_operand E t g = Inr (opd, g')"
  shows "reads_on g g'"
proof -
  obtain ty t1 g1 where r: "read_sizes (ee_tables E) False 0 t g = (ty, t1, g1)" by (metis prod_cases3)
  obtain t2 g2 where n: "(if t1 \<in> {TokChar (CHR ''[''), TokMasmPtr, TokChar (CHR ''&'')}
      then next_token (ee_tables E) g1 else (t1, g1)) = (t2, g2)" by fastforce
  have "reads_on g g1" using read_sizes_reads [of g "ee_tables E" False 0 t] r by simp
  moreover have "reads_on g1 g2"
    using next_token_reads [of g1 "ee_tables E"] n reads_on_refl by (auto split: if_splits)
  ultimately have g2: "reads_on g g2" by (rule reads_on_trans)
  have fin: "holds (\<lambda>(x, g'). reads_on g g') (bnd (deref e) (\<lambda>e.
      if b then
        (case parse_mref T NO_SEG opd e of None \<Rightarrow> Inl Fatal
         | Some opd \<Rightarrow> Inr (mref_set_optype T (opd\<lparr>op_hintbase := h, op_hinttype := h'\<rparr>), g'))
      else if is_reloc T NO_SEG e then Inr (immediate_operand T e opd, g')
      else bnd (register_operand T e opd) (\<lambda>opd. Inr (opd, g'))))" if "reads_on g g'" for e b T opd h h' g'
    using that by (auto intro!: bnd_pure holds_bnd_pure [where m = "register_operand T x opd" for x]
        split: option.split)
  have "holds (\<lambda>(x, g'). reads_on g g') (parse_operand E t g)"
    unfolding parse_operand_def Let_def r prod.case n
    apply (rule holds_bnd_pure)
    subgoal for x
      using next_token_reads reads_onI reads_on_trans [OF g2]
      by (cases x) (simp only: prod.case, rule fin, simp, meson reads_on_trans)
    done
  then show ?thesis using assms by (simp add: holds_def)
qed

lemma next_token_runs: "runs d m g0 g \<Longrightarrow> runs d m g0 (snd (next_token T g))"
  using next_token_reads reads_on_runs by blast

lemma parse_operand_runs [runs_intro]:
  "runs d m g0 g \<Longrightarrow> holds (\<lambda>(x, g). runs d m g0 g) (parse_operand E t g)"
  using parse_operand_reads reads_on_runs by (fastforce simp: holds_def)

lemma operand_loop_runs:
  assumes "callback_runs m gen_const" "runs d m g0 g"
  shows "holds (\<lambda>(x, l, g). runs d m g0 g) (operand_loop n E gen_const isd opds is_label g)"
  using assms(2)
proof (induction n arbitrary: opds is_label g)
  case (Suc n)
  show ?case
    unfolding operand_loop.simps Let_def
    apply (rule bnd_runs(9) [OF gen_operand_runs [OF assms(1) runs_flags(5) [OF Suc(2)]]])
    subgoal for ok l g
      using next_token_runs [of d m g0 g "ee_tables E"]
      by (auto intro!: bnd_runs runs_intro Suc.IH split: prod.split)
    done
qed simp


text \<open>
  The mnemonic of a text, behind at most one prefix, and texts whose mnemonic is no transfer.
\<close>

definition mnemonic_token :: "tables \<Rightarrow> string \<Rightarrow> token" where
  "mnemonic_token T t = (case get_token T t of (TokPrefix p, r) \<Rightarrow> fst (get_token T r) | (tok, _) \<Rightarrow> tok)"

definition no_transfer :: "token \<Rightarrow> bool" where
  "no_transfer t \<longleftrightarrow> (case t of TokInsn opc _ \<Rightarrow> \<not> is_transfer (nasm_insn_names opc) | _ \<Rightarrow> True)"

text \<open>
  What is asked of the token table: \<open>mov\<close> is an instruction that is no transfer, and an instruction or a
  prefix that the word of a transfer begins with is a transfer.
\<close>

definition words_ok :: "tables \<Rightarrow> bool" where
  "words_ok T \<longleftrightarrow> (case nasm_token_hash T ''mov'' of TokPrefix _ \<Rightarrow> False | t \<Rightarrow> no_transfer t) \<and>
     (\<forall>v \<in> set transfer_list. \<forall>n \<in> {1..length v}. case nasm_token_hash T (take n v) of
        TokInsn opc _ \<Rightarrow> is_transfer (nasm_insn_names opc) | TokPrefix _ \<Rightarrow> False | _ \<Rightarrow> True)"

lemma transfer_word:
  assumes "words_ok T" "is_transfer (w @ x)" "w \<noteq> []"
  shows "case nasm_token_hash T w of TokInsn opc _ \<Rightarrow> is_transfer (nasm_insn_names opc)
    | TokPrefix _ \<Rightarrow> False | _ \<Rightarrow> True"
proof -
  have "w @ x \<in> set transfer_list" using assms(2) by (simp add: is_transfer_list)
  moreover have "length w \<in> {1..length (w @ x)}" using assms(3) by (cases w) auto
  moreover have "take (length w) (w @ x) = w" by simp
  ultimately show ?thesis using assms(1) unfolding words_ok_def by metis
qed

lemma transfer_head: "is_transfer w \<Longrightarrow> w \<noteq> [] \<and> \<not> nasm_isspace (hd w)"
proof -
  have "list_all (\<lambda>w. w \<noteq> [] \<and> \<not> nasm_isspace (hd w)) transfer_list" unfolding transfer_list_def by (simp add: nasm_isspace_iff)
  then show "is_transfer w \<Longrightarrow> w \<noteq> [] \<and> \<not> nasm_isspace (hd w)" unfolding list_all_iff is_transfer_list by blast
qed

text \<open>The part of the text a word is read from: spaces and a word.\<close>

lemma get_token_word_text:
  assumes "get_token T buf = (t, rest)" "case t of TokInsn _ _ \<Rightarrow> True | TokPrefix _ \<Rightarrow> True | _ \<Rightarrow> False"
  obtains sp w where "buf = sp @ w @ rest" "\<forall>c \<in> set sp. nasm_isspace c" "w \<noteq> []"
    "\<forall>c \<in> set w. c \<noteq> CHR '' ''" "t = nasm_token_hash T (take (IDLEN_MAX - 1) w)"
proof -
  let ?sp = "takeWhile nasm_isspace buf"
  have sp: "buf = ?sp @ dropWhile nasm_isspace buf" "\<forall>c \<in> set ?sp. nasm_isspace c"
    by (auto dest: set_takeWhileD)
  show ?thesis
  proof (cases "dropWhile nasm_isspace buf")
    case Nil
    then show ?thesis using assms by (simp add: get_token_blank)
  next
    case (Cons c r)
    have c: "nasm_isidstart c" "\<not> token_brc T (take (IDLEN_MAX - 1) (c # takeWhile nasm_isidchar r))"
      using assms Cons by (auto simp: get_token_def Let_def split: if_splits option.splits)
    let ?w = "c # takeWhile nasm_isidchar r"
    have t: "t = nasm_token_hash T (take (IDLEN_MAX - 1) ?w)" "rest = dropWhile nasm_isidchar r"
      using assms(1) c Cons by (auto simp: get_token_def Let_def)
    have "nasm_isspace (CHR '' '')" by (simp add: nasm_isspace_iff)
    then have "\<forall>c \<in> set ?w. c \<noteq> CHR '' ''"
      using c(1) space_classes [of "CHR '' ''"] by (auto dest: set_takeWhileD)
    moreover have "buf = ?sp @ ?w @ rest" using sp(1) Cons t(2) by simp
    ultimately show ?thesis using that sp(2) t(1) by blast
  qed
qed

text \<open>A text in the token buffer that begins with a word that is no transfer.\<close>

lemma quiet_buffer:
  assumes "words_ok T" "get_token T buf = (t, rest)"
    and "case t of TokInsn opc _ \<Rightarrow> \<not> is_transfer (nasm_insn_names opc) | TokPrefix _ \<Rightarrow> True | _ \<Rightarrow> False"
  shows "quiet_text (''  '' @ take (length buf - length rest) buf @ x)"
proof -
  obtain sp w where b: "buf = sp @ w @ rest" "\<forall>c \<in> set sp. nasm_isspace c" "w \<noteq> []"
    "\<forall>c \<in> set w. c \<noteq> CHR '' ''" "t = nasm_token_hash T (take (IDLEN_MAX - 1) w)"
    by (rule get_token_word_text [OF assms(2)]) (use assms(3) in \<open>auto split: token.splits\<close>)
  have "\<not> is_transfer (takeWhile (\<lambda>c. c \<noteq> CHR '' '') (sp @ w @ x))"
  proof (cases sp)
    case Nil
    have "\<not> is_transfer (w @ takeWhile (\<lambda>c. c \<noteq> CHR '' '') x)"
    proof
      assume "is_transfer (w @ takeWhile (\<lambda>c. c \<noteq> CHR '' '') x)"
      then have "is_transfer (take (IDLEN_MAX - 1) w @ drop (IDLEN_MAX - 1) w @ takeWhile (\<lambda>c. c \<noteq> CHR '' '') x)"
        by (metis append.assoc append_take_drop_id)
      from transfer_word [OF assms(1) this] b(3,5) assms(3) show False
        by (auto simp: IDLEN_MAX_def split: token.splits)
    qed
    moreover have "takeWhile (\<lambda>c. c \<noteq> CHR '' '') (w @ x) = w @ takeWhile (\<lambda>c. c \<noteq> CHR '' '') x"
      using b(4) by (simp add: takeWhile_append2)
    ultimately show ?thesis using Nil by simp
  next
    case (Cons c r)
    then have "nasm_isspace c" using b(2) by simp
    then show ?thesis using transfer_head [of "takeWhile (\<lambda>c. c \<noteq> CHR '' '') (sp @ w @ x)"] Cons by auto
  qed
  then show ?thesis using b(1) by (intro quiet_textI) simp
qed


lemma likely_gen_label_runs [runs_intro]:
  assumes "runs d m g0 g" "likely_gen_label (pg g) (rn g) = Inr (s, r)"
  shows "runs d m g0 (g\<lparr>pg := s, rn := r\<rparr>)"
proof -
  have "init_mem_addr s = init_mem_addr (pg g)"
    using assms(2)
    by (auto simp: likely_gen_label_def gen_label_def one_insn_gen_ctrl_def stat_insert_insn_def
        stat_inc_labeli_def Let_def split: if_splits)
  then have "runs d m g0 (g\<lparr>pg := s\<rparr>)"
    using runs_quiet [OF assms(1)] ctrl_entries(4) [OF assms(2)]
    by (intro runs_step [OF assms(1) gen_step.mark [OF assms(2)]]) simp_all
  then have "runs d m g0 (g\<lparr>pg := s\<rparr>\<lparr>rn := r\<rparr>)" by (simp only: runs_fields)
  then show ?thesis by simp
qed

text \<open>Reading the mnemonic: it is no transfer, and the buffer's text stays quiet whatever follows.\<close>

lemma read_mnemonic:
  assumes "words_ok T" "tok_done g = ''  ''" "no_transfer (mnemonic_token T (tok_rest g))"
    and "read_prefix T g = Inr (prefs, t, g1)" "read_opcode t g1 = Inr (opc, cond, g2)" "runs d m g0 g" "d = []"
  shows "\<not> is_transfer (nasm_insn_names opc) \<and> quiet_text (tok_done g2 @ x) \<and> runs d m g0 g2"
proof -
  obtain t1 g' where n: "next_token T g = (t1, g')" by fastforce
  obtain rest where r: "get_token T (tok_rest g) = (t1, rest)" "tok_rest g' = rest"
    "tok_done g' = ''  '' @ take (length (tok_rest g) - length rest) (tok_rest g)"
    using n assms(2) by (auto simp: next_token_def Let_def split: prod.splits)
  have t: "t = TokInsn opc cond" and g2: "tok_done g2 = tok_done g1"
    using assms(5) by (auto simp: read_opcode_def split: token.splits if_splits)
  have run: "runs d m g0 g'" using next_token_runs [OF assms(6), of T] n by simp
  have opcode: "runs d m g0 g2" if "runs d m g0 g1"
    using that assms(5) runs_flags(6) [OF that] by (auto simp: read_opcode_def split: token.splits if_splits)
  show ?thesis
  proof (cases "\<exists>p. t1 = TokPrefix p")
    case True
    then obtain p where p: "t1 = TokPrefix p" ..
    obtain t2 g'' where n2: "next_token T g' = (t2, g'')" by fastforce
    have g1: "t = t2" "g1 = g''" using assms(4) n n2 p by (auto simp: read_prefix_def)
    have "fst (get_token T rest) = t2" using n2 r(2) by (auto simp: next_token_def Let_def split: prod.splits)
    then have "no_transfer t2" using assms(3) r(1) p by (simp add: mnemonic_token_def)
    moreover obtain y where "tok_done g'' = tok_done g' @ y"
      using n2 by (auto simp: next_token_def Let_def split: prod.splits)
    moreover have "runs d m g0 g''" using next_token_runs [OF run, of T] n2 by simp
    ultimately show ?thesis
      using quiet_buffer [OF assms(1) r(1), of "y @ x"] p t g1 g2 r(3) opcode by (simp add: no_transfer_def)
  next
    case False
    then have g1: "t = t1" "g1 = g'" using assms(4) n by (auto simp: read_prefix_def Let_def split: token.splits)
    have "no_transfer t1" using assms(3) r(1) False by (auto simp: mnemonic_token_def split: token.splits)
    then show ?thesis
      using quiet_buffer [OF assms(1) r(1), of x] t g1 g2 r(3) opcode run by (simp add: no_transfer_def)
  qed
qed

lemma gen_control_transfer_other:
  "\<not> is_transfer (nasm_insn_names opc) \<Longrightarrow> gen_control_transfer_insn opc n s r = Inr (-1, s, r)"
proof -
  assume n: "\<not> is_transfer (nasm_insn_names opc)"
  have "is_transfer (nasm_insn_names (I ''jmp''))" "is_transfer (nasm_insn_names (I ''call''))"
    unfolding nasm_insn_names_def opcode.case by (rule is_transfer_opc)+
  then have "opc \<noteq> I ''jmp''" "opc \<noteq> I ''call''" using n by metis+
  moreover have "\<not> is_jcc opc" "\<not> is_loop opc" using n is_transfer_opc(3,4) by blast+
  ultimately show ?thesis unfolding gen_control_transfer_insn_def by (simp only: if_False if_cancel)
qed

lemma finish_insn_runs:
  assumes "callback_runs m gen_const" "runs d m g0 g" "ctrl result = None" "times result = 1"
    and "\<not> is_transfer (nasm_insn_names (opcode_of result))" "\<And>x. quiet_text (d @ x)"
  shows "holds (runs d m g0) (finish_insn E gen_const result opds is_label g)"
proof -
  have insert: "holds (runs d m g0) (on_pg (stat_insert_insn (result
      \<lparr>operands := n, oprs := os, ctrl := if is_label then Some (get_token_buf g) else None\<rparr>) INSERT_AFTER) g)"
    if g: "runs d m g0 g" for g n os
  proof -
    obtain y where "tok_done g = d @ y" using g by (auto simp: runs_def prefix_def)
    then have "quiet_text (get_token_buf g)" using assms(6) by (simp add: get_token_buf_def)
    then have "plain (result\<lparr>operands := n, oprs := os, ctrl := if is_label then Some (get_token_buf g) else None\<rparr>)"
      using assms(3,5)
      by (cases is_label) (auto intro: instruction_plain plain_ctrl [THEN iffD2])
    moreover have "encodable (result\<lparr>operands := n, oprs := os, ctrl := if is_label then Some (get_token_buf g) else None\<rparr>)"
      using assms(4) by (simp add: encodable_def)
    ultimately show ?thesis using runs_insert [OF g] by (auto simp: holds_def on_pg_Inr)
  qed
  show ?thesis
    unfolding finish_insn_def Let_def using assms(1,2)
    by (intro bnd_runs insert) (auto intro!: runs_intro dest: runs_quiet)
qed

definition seed_text_ok :: "tables \<Rightarrow> insn_seed option \<Rightarrow> gen \<Rightarrow> bool" where
  "seed_text_ok T seed g \<longleftrightarrow> (case seed of
     None \<Rightarrow> tok_done g = ''  '' \<and> no_transfer (mnemonic_token T (tok_rest g))
   | Some sd \<Rightarrow> no_transfer (mnemonic_token T (nasm_insn_names (seed_opcode sd) @ '' '')))"

lemma one_insn_gen_runs:
  assumes "words_ok (ee_tables E)" "callback_runs m gen_const" "runs [] m g0 g" "seed_text_ok (ee_tables E) seed g"
  shows "holds (\<lambda>(b, g). runs [] m g0 g) (one_insn_gen E gen_const seed g)"
proof -
  let ?T = "ee_tables E"
  have "runs [] m g0 g'" if run: "one_insn_gen E gen_const seed g = Inr (b, g')" for b g'
  proof -
    obtain s r g1 prefs t g2 opc cond g3 where
      l: "likely_gen_label (pg g) (rn g) = Inr (s, r)"
      and o: "gen_opcode seed (g\<lparr>pg := s, rn := r\<rparr>) = Inr g1"
      and p: "read_prefix ?T g1 = Inr (prefs, t, g2)" and c: "read_opcode t g2 = Inr (opc, cond, g3)"
      using run unfolding one_insn_gen_def by auto
    have g1: "runs [] m g0 g1" "tok_done g1 = ''  ''" "no_transfer (mnemonic_token ?T (tok_rest g1))"
      using likely_gen_label_runs [OF assms(3) l] o assms(4)
      by (auto simp: gen_opcode_def seed_text_ok_def set_token_text_def get_token_cbufptr_def split: option.splits if_splits)
    note m = read_mnemonic [OF assms(1) g1(2,3) p c g1(1) refl]
    let ?d = "tok_done g3"
    have g3: "runs ?d m g3 g3" using m runs_again [of "[]" m g0 g3] by (simp add: runs_def)
    have "holds (\<lambda>(x, l, g). runs ?d m g3 g) (operand_loop MAX_OPERANDS E gen_const seed [] False g3)"
      by (rule operand_loop_runs [OF assms(2) g3])
    then have "runs ?d m g3 g'"
      using run l o p c m gen_control_transfer_other [of opc] unfolding one_insn_gen_def
      by (auto simp: holds_def split: option.splits
          intro: holdsD [OF finish_insn_runs [OF assms(2), where result = "\<lparr>ctrl = None, prefixes = prefs, opcode_of = opc, condition = cond,
           operands = 0, oprs = [], times = 1, evex_rm = 0, evex_brerop = -1\<rparr>"]])
    then show ?thesis using m runs_trans [of "[]" m g0 g3 ?d g'] by simp
  qed
  then show ?thesis by (auto simp: holds_def)
qed


lemma const_mov_no_transfer: "words_ok T \<Longrightarrow> no_transfer (mnemonic_token T (''mov '' @ x))"
proof -
  assume w: "words_ok T"
  have t: "get_token T (''mov '' @ x) =
      (if token_brc T ''mov'' then TokId ''mov'' else nasm_token_hash T ''mov'', '' '' @ x)"
  proof -
    have m: "nasm_isidstart (CHR ''m'')" "\<not> nasm_isspace (CHR ''m'')" "nasm_isidchar (CHR ''o'')" "nasm_isidchar (CHR ''v'')"
      "\<not> nasm_isidchar (CHR '' '')" by code_simp+
    then show ?thesis by (simp add: get_token_def IDLEN_MAX_def)
  qed
  show "no_transfer (mnemonic_token T (''mov '' @ x))"
    using w unfolding mnemonic_token_def t words_ok_def
    by (cases "token_brc T ''mov''") (auto simp: no_transfer_def split: token.splits)
qed

text \<open>An instruction given as text, at every depth of the recursion.\<close>

lemma one_insn_gen_const_runs:
  assumes "words_ok (ee_tables E)" "no_transfer (mnemonic_token (ee_tables E) t)" "runs d m g0 g"
  shows "holds (runs d m g0) (one_insn_gen_const depth E t g)"
  using assms(2,3)
proof (induction depth arbitrary: d t g0 g)
  case (Suc n)
  have cb: "callback_runs m (one_insn_gen_const n E)"
    unfolding callback_runs_def using Suc.IH const_mov_no_transfer [OF assms(1)] by blast
  have "runs d m g0 g'" if run: "one_insn_gen_const (Suc n) E t g = Inr g'" for g'
  proof -
    let ?g1 = "(get_token_cbufptr g)\<lparr>tok_rest := t\<rparr>"
    obtain b g2 where g2: "one_insn_gen E (one_insn_gen_const n E) None ?g1 = Inr (b, g2)"
      "g' = g2\<lparr>tok_done := tok_done g, tok_rest := tok_rest g\<rparr>"
      using run by (auto simp: set_token_text_def split: if_splits)
    have "runs [] m g0 ?g1" using Suc.prems(2) by (simp add: get_token_cbufptr_def runs_def texts_ok_def)
    moreover have "seed_text_ok (ee_tables E) None ?g1"
      using Suc.prems(1) by (simp add: seed_text_ok_def get_token_cbufptr_def)
    ultimately have "runs [] m g0 g2"
      using one_insn_gen_runs [OF assms(1) cb] g2(1) by (fastforce simp: holds_def)
    then show ?thesis using Suc.prems(2) g2(2) by (simp add: runs_def texts_ok_def)
  qed
  then show ?case by (simp add: holds_def)
qed simp

lemma one_insn_gen_const_callback: "words_ok (ee_tables E) \<Longrightarrow> callback_runs m (one_insn_gen_const depth E)"
  unfolding callback_runs_def using one_insn_gen_const_runs const_mov_no_transfer by blast

subsection \<open>Templates\<close>

text \<open>
  The templates the theorem is about: no group and no instruction element has a transfer, and the
  transfer blocks are loops and calls.  A jump in one of these places gives the program no target
  to jump to, see the findings.
\<close>

definition tree_ok :: "tables \<Rightarrow> wd_root \<Rightarrow> bool" where
  "tree_ok T tree \<longleftrightarrow> (\<forall>c \<in> set (root_leaves tree). case parse_asm_opcode T (asm_op c) of
     Inl _ \<Rightarrow> True | Inr opc \<Rightarrow> no_transfer (mnemonic_token T (nasm_insn_names opc @ '' '')))"

definition elem_ok :: "tables \<Rightarrow> elem \<Rightarrow> bool" where
  "elem_ok T e \<longleftrightarrow> (case e of GElem _ tree \<Rightarrow> tree_ok T tree
     | IElem _ asm_inst _ \<Rightarrow> no_transfer (mnemonic_token T asm_inst) | _ \<Rightarrow> True)"

fun template_ok :: "tables \<Rightarrow> blk \<Rightarrow> bool" where
  "template_ok T (SeqBlk _ blks) \<longleftrightarrow> (\<forall>b \<in> set blks. template_ok T b)"
| "template_ok T (SelBlk _ tree) \<longleftrightarrow> tree_ok T tree"
| "template_ok T (TttBlk _ ttt_op _ blks) \<longleftrightarrow> (\<forall>b \<in> set blks. template_ok T b) \<and>
     (case parse_asm_opcode T ttt_op of Inl _ \<Rightarrow> True | Inr opc \<Rightarrow> is_loop opc \<or> opc = I ''call'')"
| "template_ok T (RptBlk _ _ blks) \<longleftrightarrow> (\<forall>b \<in> set blks. template_ok T b)"
| "template_ok T (TrvBlk _ _ blks) \<longleftrightarrow> (\<forall>b \<in> set blks. template_ok T b)"
| "template_ok T (ElemBlk _ e) \<longleftrightarrow> elem_ok T e"

lemma selected_leaf:
  "wdtree_select_leaf_node_recursive n r = Inr (Some c, r') \<Longrightarrow> \<exists>m. n = Some m \<and> c \<in> set (leaves m)"
proof (induction n r rule: wdtree_select_leaf_node_recursive.induct)
  case (2 n r)
  show ?case
  proof (cases "wd_size n = 0 \<or> isleaf n")
    case True
    then show ?thesis using 2(2) by (cases n) (auto simp: idx_Inr split: if_splits)
  next
    case False
    then obtain j r1 where j: "select_subtree (weights n) (int (wd_size n)) r = Inr (j, r1)"
      "(case idx (sub_nodes n) j of Inl e \<Rightarrow> Inl e | Inr s \<Rightarrow> wdtree_select_leaf_node_recursive (Some s) r1) =
        Inr (Some c, r')"
      using 2(2) by auto
    then obtain s where s: "idx (sub_nodes n) j = Inr s" "wdtree_select_leaf_node_recursive (Some s) r1 = Inr (Some c, r')"
      by (cases "idx (sub_nodes n) j") simp_all
    note s = j(1) s
    then have "c \<in> set (leaves s)" using 2(1) [OF _ refl _ s(2)] False by auto
    then show ?thesis using False s(2) by (cases n) (auto simp: idx_Inr intro!: bexI [of _ s])
  qed
qed simp

lemma set_pg_runs [runs_intro]:
  assumes "runs d m g0 g"
  shows "runs d m g0 (set_pg (\<lambda>s. s\<lparr>curr_blk := chain\<rparr>) g)"
    "runs d m g0 (set_pg (\<lambda>s. s\<lparr>st_opcode := opc\<rparr>) g)"
    "runs d m g0 (set_pg (\<lambda>s. s\<lparr>need_init := b\<rparr>) g)"
    "runs d m g0 (set_pg (\<lambda>s. s\<lparr>need_init := b, has_mem_opnd := c\<rparr>) g)"
    "runs d m g0 (set_pg (\<lambda>s. s\<lparr>need_init := b, trv_nodes := nodes\<rparr>) g)"
    "runs d m g0 (set_pg (\<lambda>s. s\<lparr>trv_nodes := nodes\<rparr>) g)"
  unfolding set_pg_def using runs_quiet [OF assms]
  by (auto intro!: runs_same [OF assms] simp: same_program_def)

lemma blk_invalid_runs [runs_intro]: "runs d m g0 g \<Longrightarrow> runs d m g0 (blk_invalid_var_all b g)"
  by (auto simp: runs_def texts_ok_def blk_invalid_var_all_def)

lemma enter_blk_runs [runs_intro]: "runs d m g0 g \<Longrightarrow> runs d m g0 (enter_blk chain g)"
  unfolding enter_blk_def by (intro runs_intro)

lemma gen_from_tree_runs [runs_intro]:
  assumes "words_ok (ee_tables E)" "tree_ok (ee_tables E) tree" "runs [] m g0 g"
  shows "holds (runs [] m g0) (gen_from_tree E depth tree g)"
proof -
  have "runs [] m g0 g'" if run: "gen_from_tree E depth tree g = Inr g'" for g'
  proof -
    obtain c r seed r' b where c: "wdtree_select_leaf_node tree (rn g) = Inr (Some c, r)"
      "create_insn_seed (ee_tables E) (asm_op c) r = Inr (seed, r')"
      "one_insn_gen E (one_insn_gen_const depth E) (Some seed) (g\<lparr>rn := r'\<rparr>) = Inr (b, g')"
      using run unfolding gen_from_tree_def by (auto simp: draw_Inr)
    have "c \<in> set (root_leaves tree)"
      using c(1) selected_leaf [of "root_node tree" "rn g" c r]
      by (auto simp: wdtree_select_leaf_node_def root_leaves_def)
    then have "seed_text_ok (ee_tables E) (Some seed) (g\<lparr>rn := r'\<rparr>)"
      using c(2) assms(2) by (auto simp: seed_text_ok_def tree_ok_def create_insn_seed_def Let_def)
    then show ?thesis
      using one_insn_gen_runs [OF assms(1) one_insn_gen_const_callback [OF assms(1)], of m g0 "g\<lparr>rn := r'\<rparr>"]
        assms(3) c(3) by (fastforce simp: holds_def)
  qed
  then show ?thesis by (simp add: holds_def)
qed

lemma choose_init_runs [runs_intro]: "runs d m g0 g \<Longrightarrow> holds (runs d m g0) (choose_init inip g)"
  unfolding choose_init_def
  by (auto intro!: bnd_runs runs_intro)

lemma walkElem_runs:
  assumes "words_ok (ee_tables E)" "elem_ok (ee_tables E) e" "runs [] m g0 (w_gen w)"
  shows "holds (\<lambda>w. runs [] m g0 (w_gen w)) (walkElemBlk E depth e w)"
proof -
  let ?g = "set_pg (\<lambda>s. s\<lparr>st_opcode := I_none\<rparr>) (w_gen w)"
  have g: "runs [] m g0 ?g"
    using assms(3) by (intro set_pg_runs)
  have "holds (runs [] m g0) (case e of NoneElem \<Rightarrow> Inl Undefined | VElem \<Rightarrow> Inl Undefined
       | GElem inip tree \<Rightarrow> walkGElem E depth inip tree ?g | CElem c_type \<Rightarrow> walkCElem c_type ?g
       | IElem inip asm_inst trv \<Rightarrow> walkIElem E depth inip asm_inst (map_option (w_trv w) trv) ?g)"
  proof (cases e)
    case (GElem inip tree)
    then show ?thesis using assms(1,2) g
      by (auto simp: walkGElem_def elem_ok_def intro!: bnd_runs runs_intro)
  next
    case (CElem c)
    have "holds (runs [] m g0) (walkCElem c ?g)"
      unfolding walkCElem_def Let_def using g
      by (auto intro!: holds_bnd_pure [where m = "check_value t g" for t g] runs_intro quiet_line_text split: option.split)
    then show ?thesis using CElem by simp
  next
    case (IElem inip asm_inst trv)
    then have "no_transfer (mnemonic_token (ee_tables E) asm_inst)" using assms(2) by (simp add: elem_ok_def)
    then show ?thesis using assms(1) g IElem
      by (auto simp: walkIElem_def intro!: bnd_runs runs_intro one_insn_gen_const_runs)
  qed simp_all
  then show ?thesis by (auto simp: walkElemBlk_def on_gen_def holds_def Let_def)
qed


subsection \<open>Blocks\<close>

text \<open>The traversal keeps what its body and its counters keep.\<close>

lemma preorder_loop_holds:
  assumes "\<And>tn s. J s \<Longrightarrow> holds J (visit tn s)" "J s"
  shows "holds (\<lambda>(tn, s). J s) (preorder_loop visit trees treei packedi n i tn s)"
  using assms
proof (induction visit trees treei packedi n i tn s rule: preorder_loop.induct)
  case (1 visit trees treei packedi n i tn s)
  let ?K = "\<lambda>(tn, s). J s"
  have seq: "holds ?K (bnd x f)" if "holds ?K x" "\<And>tn s. J s \<Longrightarrow> holds ?K (f (tn, s))" for x f
    using that by (auto intro!: holds_bnd [where R = ?K])
  show ?case
  proof (cases "wd_size n \<le> i")
    case True
    then show ?thesis using 1(7) by (simp add: preorder_loop.simps)
  next
    case False
    show ?thesis
    proof (cases "isleaf n")
      case True
      show ?thesis
      proof (cases "idx (const_nodes n) (int i)")
        case (Inr v)
        note v = Inr
        show ?thesis
        proof (cases "idx trees (int treei)")
          case (Inr tree)
          note here = False True v Inr
          have r: "holds ?K (if treei + 1 = length trees \<and> packedi + 1 = packedn tree
             then bnd (visit (push_val treei v tn) s) (\<lambda>s. Inr (push_val treei v tn, s))
             else if packedi + 1 = packedn tree then
               (case idx trees (int treei + 1) of Inl e \<Rightarrow> Inl e | Inr next_tree \<Rightarrow>
                bnd (case root_node next_tree of None \<Rightarrow> Inr (push_val treei v tn @ [[]], s)
                     | Some m \<Rightarrow> preorder_loop visit trees (treei + 1) 0 m 0 (push_val treei v tn @ [[]]) s)
                  (\<lambda>(tn, s). Inr (remove_index (treei + 1) tn, s)))
             else if packedi + 1 < packedn tree then
               (case root_node tree of None \<Rightarrow> Inr (push_val treei v tn, s)
                | Some m \<Rightarrow> preorder_loop visit trees treei (packedi + 1) m 0 (push_val treei v tn) s)
             else Inl Undefined)" (is "holds ?K ?R")
            using 1(1) [OF here] 1(2) [OF here] 1(6,7)
            by (auto intro!: seq holds_bnd [where R = J] split: sum.split option.split)
          show ?thesis
            unfolding preorder_loop.simps [of visit trees treei packedi n i tn s]
            by (simp only: here if_False if_True sum.case, rule seq [OF r], simp only: prod.case)
              (rule 1(3) [OF here refl 1(6)])
        qed (use False True v in \<open>simp add: preorder_loop.simps\<close>)
      qed (use False True in \<open>simp add: preorder_loop.simps\<close>)
    next
      case inner: False
      show ?thesis
      proof (cases "idx (sub_nodes n) (int i)")
        case (Inr m)
        show ?thesis
          using False inner Inr 1(4) [OF False inner Inr 1(6,7)] 1(5) [OF False inner Inr refl 1(6)]
          by (subst preorder_loop.simps) (auto intro!: seq)
      qed (use False inner in \<open>simp add: preorder_loop.simps\<close>)
    qed
  qed
qed

lemma traverse_block_holds:
  assumes "\<And>tn s. J s \<Longrightarrow> holds J (body tn s)" "J s"
    and "\<And>s j k. J s \<Longrightarrow> J (s\<lparr>trv_step := j\<rparr>)" "\<And>s k. J s \<Longrightarrow> J (s\<lparr>trv_index := k\<rparr>)"
  shows "holds J (traverse_block body trees s)"
proof -
  have "holds J (got_complete body tn s)" if "J s" for tn s
    using assms that by (auto simp: got_complete_def Let_def)
  then have "holds (\<lambda>(tn, s). J s) (preorder_traverse_tk_trees (got_complete body) trees nd 0 0 [[]] s)"
    if "J s" for s nd
    using preorder_loop_holds [of J "got_complete body"] that
    by (auto simp: preorder_traverse_tk_trees_def split: option.split)
  moreover have "J (s\<lparr>trv_step := j, trv_index := 0\<rparr>)" for j using assms(2-4) by blast
  ultimately show ?thesis
    using assms(2) by (fastforce simp: traverse_block_def Let_def holds_def split: list.split)
qed


lemma ctrl_init_mem_addr:
  "one_insn_gen_ctrl t p s = Inr s' \<Longrightarrow> init_mem_addr s' = init_mem_addr s"
  "gen_label p s = Inr (l, s') \<Longrightarrow> init_mem_addr s' = init_mem_addr s"
  "update_insert_pos_to_label k s = Inr s' \<Longrightarrow> init_mem_addr s' = init_mem_addr s"
proof -
  show c: "one_insn_gen_ctrl t p s = Inr s' \<Longrightarrow> init_mem_addr s' = init_mem_addr s" for t p s s'
    by (auto simp: one_insn_gen_ctrl_def stat_insert_insn_def)
  show "gen_label p s = Inr (l, s') \<Longrightarrow> init_mem_addr s' = init_mem_addr s"
    by (auto simp: gen_label_def stat_inc_labeli_def Let_def dest!: c split: if_splits)
  show "update_insert_pos_to_label k s = Inr s' \<Longrightarrow> init_mem_addr s' = init_mem_addr s"
    by (auto simp: update_insert_pos_to_label_def)
qed

lemma transfer_init_mem_addr:
  assumes "gen_control_transfer_insn opc n s r = Inr (l, s', r')" "is_loop opc \<or> opc = I ''call''"
  shows "init_mem_addr s' = init_mem_addr s \<and> (entries_ok s \<longrightarrow> entries_ok s')"
proof (cases "lock_ctrl s")
  case True
  then show ?thesis using assms(1) gen_control_transfer_locked [of s opc n r] by simp
next
  case False
  have locks: "entries_ok (stat_lock_ctrl s) = entries_ok s" "entries_ok (stat_lock_reg x y s) = entries_ok s" for s x y
    by (simp_all add: entries_ok_def stat_lock_reg_def stat_lock_ctrl_def)
  have o: "opc \<noteq> I ''jmp''" "\<not> is_jcc opc"
    using assms(2) by (auto simp: is_loop_def is_jcc_def)
  show ?thesis
  proof (cases "is_loop opc")
    case True
    then have "init_mem_addr s' = init_mem_addr s"
      using assms(1) False o
      by (auto simp: gen_control_transfer_insn_def stat_lock_reg_def stat_lock_ctrl_def dest!: ctrl_init_mem_addr)
    moreover have "entries_ok s'" if "entries_ok s"
      using assms(1) False o True that
      by (auto simp: gen_control_transfer_insn_def locks dest!: ctrl_entries)
    ultimately show ?thesis by blast
  next
    case l: False
    then have "init_mem_addr s' = init_mem_addr s"
      using assms False o
      by (auto simp: gen_control_transfer_insn_def stat_lock_reg_def stat_lock_ctrl_def dest!: ctrl_init_mem_addr)
    moreover have "entries_ok s'" if "entries_ok s"
      using assms False o l that
      by (auto simp: gen_control_transfer_insn_def locks dest!: ctrl_entries)
    ultimately show ?thesis by blast
  qed
qed

lemma walkTttBlk_runs:
  assumes body: "\<And>m g0 w. runs [] m g0 (w_gen w) \<Longrightarrow> holds (\<lambda>w. runs [] m g0 (w_gen w)) (body w)"
    and opc: "case parse_asm_opcode (ee_tables E) ttt_op of Inl _ \<Rightarrow> True | Inr opc \<Rightarrow> is_loop opc \<or> opc = I ''call''"
    and w: "runs [] m g0 (w_gen w)"
  shows "holds (\<lambda>w. runs [] m g0 (w_gen w)) (walkTttBlk E chain ttt_op n body w)"
proof -
  let ?g1 = "enter_blk chain (w_gen w)"
  have g1: "runs [] m g0 ?g1" using w by (rule enter_blk_runs)
  have "runs [] m g0 (w_gen w')" if ttt: "walkTttBlk E chain ttt_op n body w = Inr w'" for w'
  proof -
    obtain op l s r w3 s' where op: "parse_asm_opcode (ee_tables E) ttt_op = Inr op"
      and c: "gen_control_transfer_insn op n (pg ?g1) (rn ?g1) = Inr (l, s, r)"
      and b: "body (w\<lparr>w_gen := ?g1\<lparr>pg := s, rn := r\<rparr>\<rparr>) = Inr w3"
      and u: "update_insert_pos_to_label l (pg (w_gen w3)) = Inr s'"
      and w': "w' = w3\<lparr>w_gen := (w_gen w3)\<lparr>pg := stat_unlock_ctrl s'\<rparr>\<rparr>"
      using ttt unfolding walkTttBlk_def Let_def by (auto simp: on_gen_def on_pg_Inr)
    have o: "is_loop op \<or> op = I ''call''" using opc op by simp
    show ?thesis
    proof (cases m)
      case None
      have enter: "gen_step (pg ?g1, None) (s, Some l)" by (rule gen_step.enter [OF o c])
      have "gen_ok s (Some l)" using gen_step_ok [OF enter] runs_ok [OF g1] None by simp
      moreover have "texts_ok (?g1\<lparr>pg := s, rn := r\<rparr>)"
        using g1 transfer_init_mem_addr [OF c o] by (simp add: runs_def texts_ok_def)
      ultimately have "runs [] (Some l) (?g1\<lparr>pg := s, rn := r\<rparr>) (?g1\<lparr>pg := s, rn := r\<rparr>)"
        by (intro runs_start) simp_all
      then have r3: "runs [] (Some l) (?g1\<lparr>pg := s, rn := r\<rparr>) (w_gen w3)"
        using body [of "Some l" _ "w\<lparr>w_gen := ?g1\<lparr>pg := s, rn := r\<rparr>\<rparr>"] b by (auto simp: holds_def)
      have leave: "gen_step (pg (w_gen w3), Some l) (stat_unlock_ctrl s', None)" by (rule gen_step.leave [OF u])
      have "gen_step\<^sup>*\<^sup>* (pg g0, None) (stat_unlock_ctrl s', None)"
        using g1 r3 enter leave None unfolding runs_def
        by (auto intro: rtranclp_trans rtranclp.rtrancl_into_rtrancl)
      moreover have "init_mem_addr (stat_unlock_ctrl s') = init_mem_addr (pg (w_gen w3))"
        using ctrl_init_mem_addr(3) [OF u] by (simp add: stat_unlock_ctrl_def)
      moreover have "entries_ok (stat_unlock_ctrl s')"
        using ctrl_entries(3) [OF u] r3 by (simp add: runs_def texts_ok_def entries_ok_def stat_unlock_ctrl_def)
      ultimately show ?thesis using g1 r3 None by (simp add: runs_def texts_ok_def w')
    next
      case (Some k)
      then have "lock_ctrl (pg ?g1)" using runs_ok [OF g1] by (auto simp: gen_ok_def)
      then have "l = -1" using c gen_control_transfer_locked [of "pg ?g1" op n "rn ?g1"] by simp
      then show ?thesis using u by (simp add: update_insert_pos_to_label_def idx_def)
    qed
  qed
  then show ?thesis by (simp add: holds_def)
qed

lemma walk_blk_runs:
  assumes "words_ok (ee_tables E)" "template_ok (ee_tables E) b" "runs [] m g0 (w_gen w)"
  shows "holds (\<lambda>w. runs [] m g0 (w_gen w)) (walk_blk E depth anc b w)"
  using assms(2,3)
proof (induction b arbitrary: anc m g0 w)
  case (SeqBlk x blks)
  then show ?case by (auto intro!: foldM_holds runs_intro)
next
  case (SelBlk x tree)
  then show ?case
    using gen_from_tree_runs [OF assms(1), of tree m g0 "enter_blk (x # anc) (w_gen w)" depth] enter_blk_runs
    by (auto simp: walkSelBlk_def on_gen_def holds_def)
next
  case (TttBlk x ttt_op n blks)
  have "holds (\<lambda>w. runs [] m g0 (w_gen w)) (foldM (walk_blk E depth (x # anc)) blks w)"
    if "runs [] m g0 (w_gen w)" for m g0 w
    using TttBlk.IH TttBlk.prems(1) that by (auto intro!: foldM_holds)
  then show ?case using TttBlk.prems by (auto intro!: walkTttBlk_runs)
next
  case (RptBlk x n blks)
  then show ?case by (auto simp: walkRptBlk_def intro!: foldM_holds runs_intro)
next
  case (TrvBlk x trv blks)
  have body: "holds (\<lambda>w. runs [] m g0 (w_gen w)) (foldM (walk_blk E depth (x # anc)) blks w)"
    if "runs [] m g0 (w_gen w)" for m g0 w
    using TrvBlk.IH TrvBlk.prems(1) that by (auto intro!: foldM_holds)
  have "holds (\<lambda>w. runs [] m g0 (w_gen w)) (traverse_block (\<lambda>tn w. foldM (walk_blk E depth (x # anc)) blks
      (w\<lparr>w_gen := blk_invalid_var_all x (w_gen w), w_trv := (w_trv w)(k := tn)\<rparr>)) trees
      (w\<lparr>w_gen := set_pg (\<lambda>s. s\<lparr>curr_blk := x # anc\<rparr>) (w_gen w)\<rparr>))" for k trees
    using TrvBlk.prems(2) by (auto intro!: traverse_block_holds body runs_intro)
  then show ?case
    by (auto simp: walkTrvBlk_def intro!: holds_bnd_pure [where m = "deref x" for x]
        holds_bnd [where R = "\<lambda>w. runs [] m g0 (w_gen w)"])
next
  case (ElemBlk x e)
  then show ?case using walkElem_runs [OF assms(1)] by simp
qed


subsection \<open>Properties\<close>

text \<open>A generator that has not written anything yet.\<close>

definition fresh_gen :: "gen \<Rightarrow> bool" where
  "fresh_gen g \<longleftrightarrow> pg g = init_x86pgstate zero_x86pgstate \<and>
     (\<forall>b. \<forall>v \<in> set (blk_vars g b). bv_init_mem_addr v = None)"

lemma fresh_gen_runs: "fresh_gen g \<Longrightarrow> runs [] None g g"
proof -
  assume g: "fresh_gen g"
  then have "gen_ok (pg g) None" using gen_ok_init by (simp add: fresh_gen_def)
  moreover have "texts_ok g" using g
    by (auto simp: fresh_gen_def texts_ok_def init_x86pgstate_def zero_x86pgstate_def entries_ok_def
        all_entries_def insnlist_create_def)
  ultimately show ?thesis by (rule runs_start) simp
qed

lemma walk_tmplt_runs:
  assumes "words_ok (ee_tables E)" "template_ok (ee_tables E) t" "fresh_gen (w_gen w)"
    "walk_tmplt E depth t w = Inr w'"
  shows "runs [] None (w_gen w) (w_gen w')"
  using walk_blk_runs [OF assms(1,2) fresh_gen_runs [OF assms(3)], of depth "[]"] assms(4)
  by (simp add: walk_tmplt_def holds_def)


definition start_walk :: walk where
  "start_walk = \<lparr>trv_step = 0, trv_index = 0,
     w_gen = \<lparr>pg = init_x86pgstate zero_x86pgstate, rn = sconst 0, tok_done = '''', tok_rest = '''',
       blk_vars = (\<lambda>b. if b = 0 then [init_blk_var ''v'' ''reg32''] else []), tk_models = (\<lambda>n. None)\<rparr>,
     w_trv = (\<lambda>k. [])\<rparr>"

definition loop_tmplt :: "nat \<Rightarrow> nat \<Rightarrow> nat \<Rightarrow> nat \<Rightarrow> blk" where
  "loop_tmplt a b c d = SeqBlk a [TttBlk b ''loop'' 3 [ElemBlk c (CElem (Some ''eax''))], ElemBlk d (CElem (Some ''ebx''))]"

definition loop_template :: blk where
  "loop_template = loop_tmplt 0 2 3 4"

lemma words_ok_ia32: "words_ok ia32_tables"
proof -
  have mov: "ia32_hash ''mov'' = TokInsn (I ''mov'') 0" "\<not> is_transfer ''mov''"
    by (simp_all add: ia32_hash_def ia32_insns_def is_transfer_list transfer_list_def)
  have "list_all (\<lambda>w. w \<in> set transfer_list \<or> list_all (\<lambda>v. take (length w) v \<noteq> w) transfer_list) ia32_insns"
    unfolding ia32_insns_def transfer_list_def by simp
  then have insns: "is_transfer w \<or> (\<forall>v \<in> set transfer_list. take (length w) v \<noteq> w)" if "w \<in> set ia32_insns" for w
    using that unfolding list_all_iff is_transfer_list by blast
  have "case ia32_hash (take n v) of TokInsn opc _ \<Rightarrow> is_transfer (nasm_insn_names opc) | TokPrefix _ \<Rightarrow> False | _ \<Rightarrow> True"
    if v: "v \<in> set transfer_list" "n \<in> {1..length v}" for v n
  proof (cases "take n v \<in> set ia32_insns")
    case True
    have "length (take n v) = n" using v(2) by simp
    then have "is_transfer (take n v)" using insns [OF True] v(1) by metis
    then show ?thesis using True by (simp add: ia32_hash_def nasm_insn_names_def)
  qed (simp add: ia32_hash_def)
  then show ?thesis using mov unfolding words_ok_def by (simp add: ia32_tables_def no_transfer_def nasm_insn_names_def)
qed

lemma loop_tmplt_ok: "template_ok ia32_tables (loop_tmplt a b c d)"
  by (simp add: loop_tmplt_def elem_ok_def parse_asm_opcode_def ia32_tables_def ia32_hash_def
      ia32_insns_def is_loop_def)

lemma loop_template_ok: "template_ok ia32_tables loop_template"
  by (simp add: loop_template_def loop_tmplt_ok)

definition text_env :: "string eval_env" where
  "text_env = \<lparr>ee_tables = ia32_tables, scanfunc = get_token ia32_tables, loc_segment = NO_SEG, critical = False,
     float_value = (\<lambda>_ _ _. None), string_value = (\<lambda>_ _. None)\<rparr>"

lemma fresh_start: "fresh_gen (w_gen start_walk)"
  by (simp add: fresh_gen_def start_walk_def init_blk_var_def)


lemma check_walks:
  assumes "runs [] m g0 (w_gen w)" "t \<noteq> []" "hd t \<noteq> CHR ''@''" "length t < 120"
  shows "\<exists>w'. walkElemBlk E depth (CElem (Some t)) w = Inr w' \<and> runs [] m g0 (w_gen w')"
proof -
  let ?g = "set_pg (\<lambda>s. s\<lparr>st_opcode := I_none\<rparr>) (w_gen w)"
  have "gen_ok (pg ?g) m" by (rule runs_ok [OF set_pg_runs(2) [OF assms(1)]])
  moreover have "quiet_text (''  check '' @ t)" by (simp add: quiet_line_text)
  ultimately obtain s where "stat_insert_insn (ctl (''  check '' @ t)) INSERT_AFTER (pg ?g) = Inr s"
    using emit_ok by blast
  then have "\<exists>w'. walkElemBlk E depth (CElem (Some t)) w = Inr w'"
    using assms(2-4) by (simp add: walkElemBlk_def walkCElem_def check_value_def on_gen_def on_pg_def Let_def
        emit_text_def one_insn_gen_ctrl_def)
  moreover have "holds (\<lambda>w. runs [] m g0 (w_gen w)) (walkElemBlk E depth (CElem (Some t)) w)"
    unfolding walkElemBlk_def on_gen_def Let_def walkCElem_def elem.case option.case
    using set_pg_runs(2) [OF assms(1), of I_none]
    by (auto intro!: holds_bnd [where R = "runs [] m g0"] holds_bnd_pure [where m = "check_value t g" for t g]
        runs_intro quiet_line_text)
  ultimately show ?thesis by (auto simp: holds_def)
qed

lemma loop_tmplt_walks:
  assumes "fresh_gen (w_gen w0)"
  shows "\<exists>w'. walk_tmplt text_env 2 (loop_tmplt a b c d) w0 = Inr w'"
proof -
  define blks where "blks = [ElemBlk c (CElem (Some ''eax''))]"
  have op: "parse_asm_opcode (ee_tables text_env) ''loop'' = Inr (I ''loop'')"
    by (simp add: text_env_def parse_asm_opcode_def ia32_tables_def ia32_hash_def ia32_insns_def)
  have ttt: "\<exists>w'. walk_blk text_env 2 anc (TttBlk b ''loop'' 3 blks) w = Inr w' \<and> runs [] None g0 (w_gen w')"
    if w: "runs [] None g0 (w_gen w)" for anc g0 w
  proof -
    let ?g = "enter_blk (b # anc) (w_gen w)"
    have g: "runs [] None g0 ?g" using w by (rule enter_blk_runs)
    have loop: "is_loop (I ''loop'') \<or> I ''loop'' = I ''call''" by (simp add: is_loop_def)
    obtain l s r where ct: "gen_control_transfer_insn (I ''loop'') 3 (pg ?g) (rn ?g) = Inr (l, s, r)" "gen_ok s (Some l)"
      using enter_ok [OF runs_ok [OF g] loop] by blast
    let ?w = "w\<lparr>w_gen := ?g\<lparr>pg := s, rn := r\<rparr>\<rparr>"
    have "texts_ok (w_gen ?w)"
      using g transfer_init_mem_addr [OF ct(1) loop] by (simp add: runs_def texts_ok_def)
    then have "runs [] (Some l) (w_gen ?w) (w_gen ?w)" using ct(2) by (intro runs_start) simp_all
    from check_walks [OF this, of "''eax''" text_env 2] obtain w2 where
      w2: "walkElemBlk text_env 2 (CElem (Some ''eax'')) ?w = Inr w2" "runs [] (Some l) (w_gen ?w) (w_gen w2)" by auto
    obtain s' where u: "update_insert_pos_to_label l (pg (w_gen w2)) = Inr s'"
      using leave_ok [OF runs_ok [OF w2(2)]] by blast
    have "\<exists>w'. walk_blk text_env 2 anc (TttBlk b ''loop'' 3 blks) w = Inr w'"
      using op ct(1) w2(1) u by (simp add: walkTttBlk_def Let_def blks_def on_gen_def on_pg_def)
    moreover have "holds (\<lambda>w. runs [] None g0 (w_gen w)) (walk_blk text_env 2 anc (TttBlk b ''loop'' 3 blks) w)"
    proof (rule walk_blk_runs [OF _ _ w])
      show "words_ok (ee_tables text_env)" using words_ok_ia32 by (simp add: text_env_def)
      show "template_ok (ee_tables text_env) (TttBlk b ''loop'' 3 blks)"
        using loop_tmplt_ok [of a b c d] by (simp add: text_env_def loop_tmplt_def blks_def)
    qed
    ultimately show ?thesis by (auto simp: holds_def)
  qed
  have s: "runs [] None (w_gen w0) (enter_blk [a] (w_gen w0))"
    by (intro enter_blk_runs fresh_gen_runs assms)
  obtain w1 where w1: "walk_blk text_env 2 [a] (TttBlk b ''loop'' 3 blks)
      (w0\<lparr>w_gen := enter_blk [a] (w_gen w0)\<rparr>) = Inr w1" "runs [] None (w_gen w0) (w_gen w1)"
    using ttt [of "w_gen w0" "w0\<lparr>w_gen := enter_blk [a] (w_gen w0)\<rparr>" "[a]"] s by auto
  obtain w2 where "walkElemBlk text_env 2 (CElem (Some ''ebx'')) w1 = Inr w2"
    using check_walks [OF w1(2), of "''ebx''" text_env 2] by auto
  then show ?thesis using w1(1) by (simp add: walk_tmplt_def loop_tmplt_def blks_def)
qed

lemma loop_template_walks: "\<exists>w'. walk_tmplt text_env 2 loop_template start_walk = Inr w'"
  unfolding loop_template_def by (rule loop_tmplt_walks [OF fresh_start])


end
