(* ===== verification/Depth.thy ===== *)
theory Depth
  imports Walk
begin

text \<open>
  The recursion of the generator through the instructions that set up operands is two deep:
  \<open>need_init\<close> is off while an operand is set up, and an instruction generated with \<open>need_init\<close> off sets
  up nothing.
\<close>

named_theorems keep_intro \<open>operations that leave the flag for the set-up of operands\<close>

definition flag_is :: "bool \<Rightarrow> gen \<Rightarrow> bool" where
  "flag_is b g \<longleftrightarrow> need_init (pg g) = b"

lemma flag_is_fields [simp]:
  "flag_is b (g\<lparr>rn := r\<rparr>) = flag_is b g" "flag_is b (g\<lparr>tok_rest := x\<rparr>) = flag_is b g"
  "flag_is b (g\<lparr>tok_done := y\<rparr>) = flag_is b g" "flag_is b (g\<lparr>blk_vars := z\<rparr>) = flag_is b g"
  "flag_is b (set_var p v g) = flag_is b g"
  by (simp_all add: flag_is_def set_var_def)

lemma flag_pg: "flag_is b g \<Longrightarrow> need_init s = need_init (pg g) \<Longrightarrow> flag_is b (g\<lparr>pg := s\<rparr>)"
  by (simp add: flag_is_def)

lemma draw_keep [keep_intro]: "flag_is b g \<Longrightarrow> holds (\<lambda>(x, g). flag_is b g) (draw f g)"
  by (auto simp: holds_def draw_Inr)

lemma set_token_text_keep [keep_intro]: "flag_is b g \<Longrightarrow> holds (flag_is b) (set_token_text t g)"
  by (simp add: set_token_text_def)

lemma ctrl_keep:
  "one_insn_gen_ctrl t p s = Inr s' \<Longrightarrow> need_init s' = need_init s"
  "gen_label p s = Inr (l, s') \<Longrightarrow> need_init s' = need_init s"
  "update_insert_pos_to_label k s = Inr s' \<Longrightarrow> need_init s' = need_init s"
  "likely_gen_label s r = Inr (s', r') \<Longrightarrow> need_init s' = need_init s"
proof -
  show c: "one_insn_gen_ctrl t p s = Inr s' \<Longrightarrow> need_init s' = need_init s" for t p s s'
    by (auto simp: one_insn_gen_ctrl_def stat_insert_insn_def)
  show "gen_label p s = Inr (l, s') \<Longrightarrow> need_init s' = need_init s"
    by (auto simp: gen_label_def stat_inc_labeli_def Let_def dest!: c split: if_splits)
  show "update_insert_pos_to_label k s = Inr s' \<Longrightarrow> need_init s' = need_init s"
    by (auto simp: update_insert_pos_to_label_def)
  show "likely_gen_label s r = Inr (s', r') \<Longrightarrow> need_init s' = need_init s"
    by (auto simp: likely_gen_label_def gen_label_def stat_inc_labeli_def Let_def dest!: c split: if_splits)
qed

lemma emit_keep [keep_intro]:
  "flag_is b g \<Longrightarrow> holds (flag_is b) (on_pg (one_insn_gen_ctrl t INSERT_AFTER) g)"
  "flag_is b g \<Longrightarrow> holds (flag_is b) (emit_text x g)"
  by (auto simp: holds_def on_pg_Inr emit_text_def flag_is_def dest!: ctrl_keep)

lemma flag_keep [keep_intro]:
  "flag_is b g \<Longrightarrow> flag_is b (g\<lparr>pg := (pg g)\<lparr>has_mem_opnd := c\<rparr>\<rparr>)"
  "flag_is b g \<Longrightarrow> flag_is b (g\<lparr>pg := (pg g)\<lparr>opi := i\<rparr>\<rparr>)"
  "flag_is b g \<Longrightarrow> flag_is b (g\<lparr>pg := (pg g)\<lparr>st_opcode := opc\<rparr>\<rparr>)"
  by (simp_all add: flag_is_def)

lemma request_keep [keep_intro]:
  assumes "flag_is b g"
  shows "holds (\<lambda>(x, g). flag_is b g) (request_val_node n i g)"
    "holds (\<lambda>(x, g). flag_is b g) (request_packed_val_node n i g)"
    "holds (\<lambda>(x, g). flag_is b g) (request_value g)"
    "holds (\<lambda>(x, g). flag_is b g) (request_values g)"
    "holds (\<lambda>(x, g). flag_is b g) (imm32_or_random v g)"
proof -
  show a: "holds (\<lambda>(x, g). flag_is b g) (request_val_node n i g)"
    "holds (\<lambda>(x, g). flag_is b g) (request_packed_val_node n i g)" for n i
    unfolding request_val_node_def request_packed_val_node_def
    using assms by (auto intro!: runs_vcg keep_intro)
  show "holds (\<lambda>(x, g). flag_is b g) (request_value g)"
    "holds (\<lambda>(x, g). flag_is b g) (request_values g)"
    unfolding request_value_def request_values_def
    using assms by (auto intro!: runs_vcg a split: option.splits)
  show "holds (\<lambda>(x, g). flag_is b g) (imm32_or_random v g)"
    unfolding imm32_or_random_def using assms by (auto intro!: runs_vcg keep_intro split: option.splits)
qed

lemma choose_mode_keep [keep_intro]: "flag_is b g \<Longrightarrow> holds (\<lambda>(x, g). flag_is b g) (choose_mode seed g)"
  unfolding choose_mode_def by (auto intro!: runs_vcg keep_intro)

lemma create_random_modrm_keep [keep_intro]:
  "flag_is b g \<Longrightarrow> holds (\<lambda>(t, sd, g). flag_is b g) (create_random_modrm T seed g)"
  unfolding create_random_modrm_def Let_def
  by (auto intro!: runs_vcg keep_intro flag_pg simp: stat_lock_reg_def stat_unlock_reg_def)

lemma gen_internal_keep [keep_intro]:
  assumes "flag_is b g"
  shows "holds (\<lambda>(t, sd, g). flag_is b g) (create_memory T seed g)"
    "holds (\<lambda>(t, g). flag_is b g) (gen_register T seed g)"
    "holds (\<lambda>(t, g). flag_is b g) (init_immediate_opnd buf seed g)"
    "holds (\<lambda>(t, g). flag_is b g) (gen_immediate seed buf g)"
    "holds (\<lambda>(t, sd, g). flag_is b g) (gen_reg_mem T seed g)"
    "holds (\<lambda>(t, sd, g). flag_is b g) (gen_operand_internal T seed buf g)"
    "holds (\<lambda>(t, sd, g). flag_is b g) (gen_var_operand T p seed t g)"
proof -
  have m: "holds (\<lambda>(t, sd, g). flag_is b g) (create_memory T seed g)"
    if "flag_is b g" for seed g
    unfolding create_memory_def using that by (auto intro: keep_intro)
  then show "holds (\<lambda>(t, sd, g). flag_is b g) (create_memory T seed g)" using assms by blast
  have r: "holds (\<lambda>(t, g). flag_is b g) (gen_register T seed g)" if "flag_is b g" for seed g
    unfolding gen_register_def Let_def using that by (auto intro!: runs_vcg keep_intro split: option.splits)
  then show "holds (\<lambda>(t, g). flag_is b g) (gen_register T seed g)" using assms by blast
  have i: "holds (\<lambda>(t, g). flag_is b g) (init_immediate_opnd buf seed g)" for buf
    unfolding init_immediate_opnd_def Let_def using assms
    by (auto intro!: runs_vcg keep_intro holds_bnd_pure [where m = buf] split: option.splits)
  then show "holds (\<lambda>(t, g). flag_is b g) (init_immediate_opnd buf seed g)" .
  have im: "holds (\<lambda>(t, g). flag_is b g) (gen_immediate seed buf g)" for buf
    unfolding gen_immediate_def Let_def using assms i by (auto intro!: runs_vcg keep_intro)
  then show "holds (\<lambda>(t, g). flag_is b g) (gen_immediate seed buf g)" .
  show rm: "holds (\<lambda>(t, sd, g). flag_is b g) (gen_reg_mem T seed g)"
    unfolding gen_reg_mem_def Let_def using assms by (auto intro!: runs_vcg keep_intro m r)
  have gi: "holds (\<lambda>(t, sd, g). flag_is b g) (gen_operand_internal T seed buf g)" for buf
    unfolding gen_operand_internal_def Let_def using assms by (auto intro!: runs_vcg m r im rm)
  then show "holds (\<lambda>(t, sd, g). flag_is b g) (gen_operand_internal T seed buf g)" .
  show "holds (\<lambda>(t, sd, g). flag_is b g) (gen_var_operand T p seed t g)"
    unfolding gen_var_operand_def Let_def using assms by (auto intro!: runs_vcg gi keep_intro split: option.splits)
qed


subsection \<open>With the flag off, the callback is not called\<close>

abbreviation off :: "gen \<Rightarrow> bool" where
  "off \<equiv> flag_is False"

lemma reads_keep: "reads_on g g' \<Longrightarrow> flag_is b g \<Longrightarrow> flag_is b g'"
  by (auto simp: reads_on_def)

lemma parse_operand_keep [keep_intro]:
  "flag_is b g \<Longrightarrow> holds (\<lambda>(x, g). flag_is b g) (parse_operand E t g)"
  using parse_operand_reads reads_keep by (fastforce simp: holds_def)

text \<open>Sequencing of steps that agree when the flag is off.\<close>

lemma bnd_agree:
  "holds off m \<Longrightarrow> (\<And>g. off g \<Longrightarrow> f g = f' g) \<Longrightarrow> bnd m f = bnd m f'"
  "holds (\<lambda>(x, g). off g) m1 \<Longrightarrow> (\<And>x g. off g \<Longrightarrow> h (x, g) = h' (x, g)) \<Longrightarrow> bnd m1 h = bnd m1 h'"
  "holds (\<lambda>(x, y, g). off g) m2 \<Longrightarrow> (\<And>x y g. off g \<Longrightarrow> k (x, y, g) = k' (x, y, g)) \<Longrightarrow> bnd m2 k = bnd m2 k'"
  subgoal by (cases m) auto
  subgoal by (cases m1) auto
  subgoal by (cases m2) auto
  done

lemma bnd_same: "(\<And>x. m = Inr x \<Longrightarrow> f x = f' x) \<Longrightarrow> bnd m f = bnd m f'"
  by (cases m) simp_all

lemmas bnd_agree_pure = bnd_same [where m = "idx xs i" for xs i]
  bnd_same [where m = "calOperandSize T sd n" for T sd n] bnd_same [where m = "needs_size opc n f b" for opc n f b]

lemma init_opnd_off: "off g \<Longrightarrow> init_opnd cb t seed var g = Inr g"
  by (simp add: init_opnd_def flag_is_def)

lemma gen_operand_insn_seed_off:
  assumes "off g"
  shows "holds (\<lambda>(x, y, g). off g) (gen_operand_insn_seed T cb isd seed g)"
    "gen_operand_insn_seed T cb isd seed g = gen_operand_insn_seed T cb' isd seed g"
proof -
  show "holds (\<lambda>(x, y, g). off g) (gen_operand_insn_seed T cb isd seed g)"
    unfolding gen_operand_insn_seed_def Let_def using assms
    by (auto intro!: runs_vcg keep_intro simp: init_opnd_off split: option.splits)
  show "gen_operand_insn_seed T cb isd seed g = gen_operand_insn_seed T cb' isd seed g"
    unfolding gen_operand_insn_seed_def Let_def using assms
    by (auto intro!: bnd_agree bnd_agree_pure keep_intro simp: init_opnd_off split: option.split)
qed

lemma gen_operand_pseudo_code_off:
  assumes "off g"
  shows "holds (\<lambda>(x, y, g). off g) (gen_operand_pseudo_code T cb seed g)"
    "gen_operand_pseudo_code T cb seed g = gen_operand_pseudo_code T cb' seed g"
proof -
  obtain opnd_len asm_opnd where c: "copy_asm_opnd (dropWhile nasm_isspace (tok_rest g)) = (opnd_len, asm_opnd)"
    by fastforce
  have opnd: "holds (\<lambda>(t, sd, g). off g) (case p of
             Some p \<Rightarrow> gen_var_operand T p sd asm_opnd g
           | None \<Rightarrow> if is_opnd_type sd then gen_operand_internal T sd (Inr asm_opnd) g
                     else Inr (Some asm_opnd, sd, g))" for sd p
    using assms by (auto intro!: keep_intro split: option.splits)
  show "holds (\<lambda>(x, y, g). off g) (gen_operand_pseudo_code T cb seed g)"
    unfolding gen_operand_pseudo_code_def Let_def c prod.case
    apply (rule bnd_pure)
    apply (rule bnd_runs(9) [OF opnd])
    apply (auto intro!: runs_vcg keep_intro simp: init_opnd_off split: option.split)
    done
  show "gen_operand_pseudo_code T cb seed g = gen_operand_pseudo_code T cb' seed g"
    unfolding gen_operand_pseudo_code_def Let_def c prod.case
    apply (rule bnd_same)
    apply (rule bnd_agree(3) [OF opnd])
    apply (auto intro!: bnd_agree bnd_agree_pure keep_intro simp: init_opnd_off split: option.split)
    done
qed

lemma gen_operand_off:
  assumes "off g"
  shows "holds (\<lambda>(x, y, g). off g) (gen_operand T cb isd l g)" "gen_operand T cb isd l g = gen_operand T cb' isd l g"
  unfolding gen_operand_def
  using gen_operand_pseudo_code_off [OF assms] gen_operand_insn_seed_off [OF assms]
  by (auto intro!: runs_vcg split: option.splits) metis+

lemma operand_loop_off:
  "off g \<Longrightarrow> holds (\<lambda>(x, y, g). off g) (operand_loop n E cb isd opds l g) \<and>
    operand_loop n E cb isd opds l g = operand_loop n E cb' isd opds l g"
proof (induction n arbitrary: opds l g)
  case (Suc n)
  let ?g = "g\<lparr>pg := (pg g)\<lparr>opi := int (length opds)\<rparr>\<rparr>"
  have g: "off ?g" using Suc.prems by (rule flag_keep(2))
  have cont: "holds (\<lambda>(x, y, g). off g) (if \<not> ok then Inr (None, il, g)
      else let (t, g) = next_token (ee_tables E) g in
        if t = TokEos then Inr (Some opds, il, g)
        else bnd (parse_operand E t g) (\<lambda>(opd, g). operand_loop n E cb isd (opds @ [opd]) il g))"
    if "off g" for ok il g
    using reads_keep [OF next_token_reads [of g "ee_tables E"] that] that
    by (auto intro!: bnd_runs keep_intro conjunct1 [OF Suc.IH] split: prod.split)
  have agree: "(if \<not> ok then Inr (None, il, g)
      else let (t, g) = next_token (ee_tables E) g in
        if t = TokEos then Inr (Some opds, il, g)
        else bnd (parse_operand E t g) (\<lambda>(opd, g). operand_loop n E cb isd (opds @ [opd]) il g)) =
      (if \<not> ok then Inr (None, il, g)
      else let (t, g) = next_token (ee_tables E) g in
        if t = TokEos then Inr (Some opds, il, g)
        else bnd (parse_operand E t g) (\<lambda>(opd, g). operand_loop n E cb' isd (opds @ [opd]) il g))"
    if "off g" for ok il g
    using reads_keep [OF next_token_reads [of g "ee_tables E"] that]
    by (auto intro!: bnd_agree keep_intro conjunct2 [OF Suc.IH] split: prod.split)
  show ?case
    unfolding operand_loop.simps Let_def [of "g\<lparr>pg := (pg g)\<lparr>opi := int (length opds)\<rparr>\<rparr>"]
    using gen_operand_off(1) [OF g, where cb = cb] gen_operand_off(2) [OF g, where cb = cb and cb' = cb'] cont agree
    by (auto intro!: bnd_runs bnd_agree)
qed simp


lemma finish_insn_off:
  assumes "off g"
  shows "holds off (finish_insn E cb result opds l g)" "finish_insn E cb result opds l g = finish_insn E cb' result opds l g"
proof -
  have "holds off (on_pg (stat_insert_insn i INSERT_AFTER) g)" if "off g" for i g
    using that by (auto simp: holds_def on_pg_Inr stat_insert_insn_def flag_is_def)
  then show "holds off (finish_insn E cb result opds l g)"
    unfolding finish_insn_def Let_def using assms
    by (intro bnd_runs) (auto intro!: keep_intro simp: flag_is_def)
  show "finish_insn E cb result opds l g = finish_insn E cb' result opds l g"
    using assms by (simp add: finish_insn_def flag_is_def Let_def)
qed

lemma transfer_keep:
  assumes "gen_control_transfer_insn opc n s r = Inr (l, s', r')"
  shows "need_init s' = need_init s"
proof -
  have jumps: "need_init s' = need_init s" if "gen_jmp_insns opcs s = Inr s'" for opcs s s'
    using foldM_holds [where I = "\<lambda>t. need_init t = need_init s" and s = s, of opcs "\<lambda>opc s. one_insn_gen_ctrl
     (Some (''  '' @ nasm_insn_names opc @ '' label'' @ fmt_d (labeli s))) INSERT_AFTER s"] that
    by (auto simp: gen_jmp_insns_def holds_def dest!: ctrl_keep)
  have target: "need_init s' = need_init s" if "gen_jmp_target s r = Inr (l, s', r')" for s r l s' r'
    using that by (auto simp: gen_jmp_target_def gen_jmp_to_label_def dest!: ctrl_keep split: if_splits)
  show ?thesis
    using assms unfolding gen_control_transfer_insn_def
    by (auto simp: stat_lock_reg_def stat_lock_ctrl_def dest!: ctrl_keep jumps target split: if_splits)
qed


lemma gen_opcode_keep: "gen_opcode seed g = Inr g' \<Longrightarrow> need_init (pg g') = need_init (pg g)"
  by (auto simp: gen_opcode_def set_token_text_def get_token_cbufptr_def split: option.splits if_splits)

lemma read_keep:
  "read_prefix T g = Inr (prefs, t, g') \<Longrightarrow> need_init (pg g') = need_init (pg g)"
  "read_opcode t g = Inr (opc, c, g') \<Longrightarrow> need_init (pg g') = need_init (pg g)"
proof -
  have n: "next_token T g = (t, g') \<Longrightarrow> pg g' = pg g" for g t g'
    by (auto simp: next_token_def Let_def split: prod.splits)
  show "read_prefix T g = Inr (prefs, t, g') \<Longrightarrow> need_init (pg g') = need_init (pg g)"
    by (auto simp: read_prefix_def Let_def dest!: n split: prod.splits token.splits)
  show "read_opcode t g = Inr (opc, c, g') \<Longrightarrow> need_init (pg g') = need_init (pg g)"
    by (auto simp: read_opcode_def split: token.splits if_splits)
qed

text \<open>The instruction up to its operands, and the rest.\<close>

definition insn_head :: "string eval_env \<Rightarrow> insn_seed option \<Rightarrow> gen \<Rightarrow> ((int \<times> insn) \<times> gen) res" where
  "insn_head E seed g =
     bnd (likely_gen_label (pg g) (rn g)) (\<lambda>(s, r).
     bnd (gen_opcode seed (g\<lparr>pg := s, rn := r\<rparr>)) (\<lambda>g.
     bnd (read_prefix (ee_tables E) g) (\<lambda>(prefs, t, g).
     bnd (read_opcode t g) (\<lambda>(opc, cond, g).
     bnd (gen_control_transfer_insn opc (-1) (pg g) (rn g)) (\<lambda>(label, s, r).
     Inr ((label, \<lparr>ctrl = None, prefixes = prefs, opcode_of = opc, condition = cond,
           operands = 0, oprs = [], times = 1, evex_rm = 0, evex_brerop = -1\<rparr>), g\<lparr>pg := s, rn := r\<rparr>))))))"

definition insn_tail ::
  "string eval_env \<Rightarrow> (string \<Rightarrow> gen \<Rightarrow> gen res) \<Rightarrow> insn_seed option \<Rightarrow> int \<times> insn \<Rightarrow> gen \<Rightarrow> (bool \<times> gen) res" where
  "insn_tail E cb seed li g =
     (if 0 \<le> fst li then Inr (True, g)
      else bnd (operand_loop MAX_OPERANDS E cb seed [] False g) (\<lambda>(opds, is_label, g).
      case opds of None \<Rightarrow> Inr (False, g)
      | Some opds \<Rightarrow> bnd (finish_insn E cb (snd li) opds is_label g) (\<lambda>g. Inr (True, g))))"

lemma one_insn_gen_split: "one_insn_gen E cb seed g = bnd (insn_head E seed g) (\<lambda>(li, g). insn_tail E cb seed li g)"
  by (simp add: one_insn_gen_def insn_head_def insn_tail_def bnd_assoc case_prod_unfold Let_def cong: if_cong option.case_cong)

lemma insn_head_keep: "flag_is b g \<Longrightarrow> holds (\<lambda>(li, g). flag_is b g) (insn_head E seed g)"
  unfolding insn_head_def
  by (auto simp: holds_def flag_is_def dest!: ctrl_keep gen_opcode_keep read_keep transfer_keep)

lemma insn_tail_off:
  assumes "off g"
  shows "holds (\<lambda>(b, g). off g) (insn_tail E cb seed li g)" "insn_tail E cb seed li g = insn_tail E cb' seed li g"
proof -
  note l = operand_loop_off [OF assms]
  show "holds (\<lambda>(b, g). off g) (insn_tail E cb seed li g)"
    unfolding insn_tail_def
    using assms by (auto intro!: bnd_runs conjunct1 [OF l] finish_insn_off split: option.split)
  have "bnd (operand_loop MAX_OPERANDS E cb seed [] False g) (\<lambda>(opds, is_label, g).
      case opds of None \<Rightarrow> Inr (False, g)
      | Some opds \<Rightarrow> bnd (finish_insn E cb (snd li) opds is_label g) (\<lambda>g. Inr (True, g))) =
    bnd (operand_loop MAX_OPERANDS E cb seed [] False g) (\<lambda>(opds, is_label, g).
      case opds of None \<Rightarrow> Inr (False, g)
      | Some opds \<Rightarrow> bnd (finish_insn E cb' (snd li) opds is_label g) (\<lambda>g. Inr (True, g)))"
    by (rule bnd_agree(3) [OF conjunct1 [OF l]])
       (auto simp: finish_insn_off(2) [where cb = cb and cb' = cb'] split: option.split)
  moreover have "operand_loop MAX_OPERANDS E cb seed [] False g = operand_loop MAX_OPERANDS E cb' seed [] False g"
    using operand_loop_off [OF assms] by blast
  ultimately show "insn_tail E cb seed li g = insn_tail E cb' seed li g"
    unfolding insn_tail_def by (simp only:)
qed

lemma one_insn_gen_off:
  assumes "off g"
  shows "holds (\<lambda>(b, g). off g) (one_insn_gen E cb seed g)" "one_insn_gen E cb seed g = one_insn_gen E cb' seed g"
  unfolding one_insn_gen_split
  using insn_head_keep [OF assms] insn_tail_off by (auto intro!: bnd_runs bnd_agree)

lemma one_insn_gen_const_off:
  assumes "off g"
  shows "holds off (one_insn_gen_const n E t g)"
    "one_insn_gen_const (Suc n) E t g = one_insn_gen_const (Suc k) E t g"
proof -
  have off: "holds off (set_token_text t (get_token_cbufptr g))"
    using assms by (intro keep_intro) (simp add: get_token_cbufptr_def flag_is_def)
  then show "one_insn_gen_const (Suc n) E t g = one_insn_gen_const (Suc k) E t g"
    unfolding one_insn_gen_const.simps
    by (rule bnd_agree(1)) (subst one_insn_gen_off(2) [where cb' = "one_insn_gen_const k E"], simp_all)
  show "holds off (one_insn_gen_const n E t g)"
  proof (cases n)
    case (Suc m)
    then show ?thesis using off by (auto intro!: bnd_runs one_insn_gen_off(1))
  qed simp
qed


subsection \<open>Callbacks that agree with the flag off\<close>

definition alike :: "(string \<Rightarrow> gen \<Rightarrow> gen res) \<Rightarrow> (string \<Rightarrow> gen \<Rightarrow> gen res) \<Rightarrow> bool" where
  "alike cb cb' \<longleftrightarrow> (\<forall>t g. off g \<longrightarrow> cb t g = cb' t g \<and> holds off (cb t g))"

lemma alikeD: "alike cb cb' \<Longrightarrow> off g \<Longrightarrow> cb t g = cb' t g"
  "alike cb cb' \<Longrightarrow> off g \<Longrightarrow> holds off (cb t g)"
  unfolding alike_def by blast+

lemma init_opnd_alike:
  assumes "alike cb cb'"
  shows "init_opnd cb t seed var g = init_opnd cb' t seed var g"
proof -
  have "init_register_opnd cb t g = init_register_opnd cb' t g" if "off g" for g
    unfolding init_register_opnd_def using that
    by (auto intro!: bnd_agree keep_intro alikeD(1) [OF assms])
  then have "init_register_opnd cb t (g\<lparr>pg := (pg g)\<lparr>need_init := False, has_mem_opnd := False\<rparr>\<rparr>) =
      init_register_opnd cb' t (g\<lparr>pg := (pg g)\<lparr>need_init := False, has_mem_opnd := False\<rparr>\<rparr>)"
    by (simp add: flag_is_def)
  then show ?thesis by (simp add: init_opnd_def Let_def)
qed

lemma init_implied_alike:
  assumes "alike cb cb'" "off g"
  shows "init_implied cb i g = init_implied cb' i g" "holds off (init_implied cb i g)"
proof -
  have v: "holds (\<lambda>(x, g). off g) (request_value g)" using assms(2) by (rule keep_intro)
  have r: "init_specific_register cb r g = init_specific_register cb' r g" for r
    unfolding init_specific_register_def Let_def
    by (rule bnd_agree(2) [OF v])
       (auto intro!: arg_cong2 [where f = bnd] bnd_agree keep_intro alikeD(1) [OF assms(1)])
  have k: "holds off (init_specific_register cb r g)" for r
    unfolding init_specific_register_def Let_def using assms(2)
    by (auto intro!: runs_vcg keep_intro alikeD(2) [OF assms(1)])
  have m: "holds off (init_specific_mem r g)" "holds off (init_popf g)" "holds off (init_fpu_dest_register r g)" for r
    unfolding init_specific_mem_def init_popf_def init_fpu_dest_register_def using assms(2)
    by (auto intro!: runs_vcg keep_intro)
  show "init_implied cb i g = init_implied cb' i g" "holds off (init_implied cb i g)"
    using r k m by (simp_all add: init_implied_def split: implied.split)
qed

lemma implied_alike:
  assumes "alike cb cb'"
  shows "off g \<Longrightarrow> foldM (init_implied cb) xs g = foldM (init_implied cb') xs g"
  using init_implied_alike [OF assms] by (induction xs arbitrary: g) (auto intro!: bnd_agree)

lemma insn_tail_alike:
  assumes "alike cb cb'"
  shows "insn_tail E cb seed li g = insn_tail E cb' seed li g"
proof -
  have i: "init_opnd cb = init_opnd cb'" using init_opnd_alike [OF assms] by blast
  have "gen_operand T cb isd l g = gen_operand T cb' isd l g" for T isd l g
    unfolding gen_operand_def gen_operand_pseudo_code_def gen_operand_insn_seed_def i ..
  then have "gen_operand (ee_tables E) cb = gen_operand (ee_tables E) cb'" by blast
  then have l: "operand_loop n E cb isd = operand_loop n E cb' isd" for n isd
  proof (induction n)
    case (Suc n)
    show ?case by (intro ext) (simp only: operand_loop.simps Suc.prems Suc.IH [OF Suc.prems])
  qed (intro ext, simp)
  have "init_implied_operands T cb r g = init_implied_operands T cb' r g" for T r g
    unfolding init_implied_operands_def Let_def using implied_alike [OF assms]
    by (simp add: flag_is_def)
  then have "init_implied_operands (ee_tables E) cb = init_implied_operands (ee_tables E) cb'" by (intro ext)
  then have "finish_insn E cb = finish_insn E cb'" by (intro ext) (simp only: finish_insn_def)
  then show ?thesis by (simp only: insn_tail_def l)
qed

lemma one_insn_gen_alike:
  "alike cb cb' \<Longrightarrow> one_insn_gen E cb seed g = one_insn_gen E cb' seed g"
proof -
  assume "alike cb cb'"
  then have "insn_tail E cb seed = insn_tail E cb' seed" by (intro ext insn_tail_alike)
  then show ?thesis unfolding one_insn_gen_split by simp
qed

lemma const_alike: "alike (one_insn_gen_const (Suc n) E) (one_insn_gen_const (Suc k) E)"
  using one_insn_gen_const_off unfolding alike_def by blast

lemma const_depth: "one_insn_gen_const (n + 2) E t g = one_insn_gen_const 2 E t g"
  using one_insn_gen_alike [OF const_alike [where n = n and k = 0]] by (simp add: numeral_2_eq_2)

lemma gen_from_tree_depth: "gen_from_tree E (n + 2) tree g = gen_from_tree E 2 tree g"
  unfolding gen_from_tree_def using const_depth by presburger

subsection \<open>Property\<close>


end
