(* ===== verification/HashTbl.thy ===== *)
theory HashTbl
  imports Crc64 "HOL-Library.Multiset"
begin

text \<open>
  The open-addressing hash table of \<open>nasmlib/hashtbl.c\<close>, which holds the instruction groups, the
  constant groups and the testing knowledge: a table of a power of two of slots, probed with
  an odd step, doubled when half of it is used.  The lemmas show that it is a finite map.
\<close>

unbundle bit_operations_syntax

subsection \<open>The table\<close>

text \<open>
  A slot whose key is null is \<open>None\<close>; a key is the bytes it points to, so its length goes with it.
  The data is the pointer the client stores.
\<close>

record 'd hash_node =
  hn_hash :: "64 word"
  hn_key :: string
  hn_data :: 'd

record 'd hash_table =
  ht_table :: "'d hash_node option list option"
  ht_load :: nat
  ht_size :: nat
  ht_max_load :: nat

text \<open>
  What a failed lookup keeps for the insertion: the hash, the key, and the free slot, or a null
  pointer when there is no table yet.  \<open>hi_size\<close> tells which table the slot is in, as growing frees
  the old one.
\<close>

record hash_insert =
  hi_hash :: "64 word"
  hi_key :: string
  hi_where :: "nat option"
  hi_size :: nat

definition HASH_MAX_LOAD :: nat where
  "HASH_MAX_LOAD = 2"

definition HASH_INIT_SIZE :: nat where
  "HASH_INIT_SIZE = 16"

definition hash_max_load :: "nat \<Rightarrow> nat" where
  "hash_max_load sz = sz * (HASH_MAX_LOAD - 1) div HASH_MAX_LOAD"

definition hash_expand :: "nat \<Rightarrow> nat" where
  "hash_expand sz = push_bit 1 sz"

definition hash_mask :: "nat \<Rightarrow> 64 word" where
  "hash_mask sz = of_nat sz - 1"

definition hash_pos :: "64 word \<Rightarrow> 64 word \<Rightarrow> nat" where
  "hash_pos h msk = unat (h AND msk)"

definition hash_inc :: "64 word \<Rightarrow> 64 word \<Rightarrow> 64 word" where
  "hash_inc h msk = (drop_bit 32 h AND msk) OR 1"

definition hash_pos_next :: "nat \<Rightarrow> 64 word \<Rightarrow> 64 word \<Rightarrow> nat" where
  "hash_pos_next pos inc msk = unat ((of_nat pos + inc) AND msk)"

definition zero_hash :: "'d hash_table" where
  "zero_hash = \<lparr>ht_table = None, ht_load = 0, ht_size = 0, ht_max_load = 0\<rparr>"

definition hash_init :: "'d hash_table \<Rightarrow> 'd hash_table" where
  "hash_init head = \<lparr>ht_table = Some (replicate HASH_INIT_SIZE None), ht_load = 0,
     ht_size = HASH_INIT_SIZE, ht_max_load = hash_max_load HASH_INIT_SIZE\<rparr>"

text \<open>
  The loop over the slots: it stops at a free slot, or at one that matches.  It is bounded by the
  number of slots: after as many steps it is back where it started and would go on for ever.
\<close>

fun hash_probe ::
  "nat \<Rightarrow> ('d hash_node \<Rightarrow> bool) \<Rightarrow> 'd hash_node option list \<Rightarrow> 64 word \<Rightarrow> 64 word \<Rightarrow> nat \<Rightarrow> (nat \<times> bool) res"
where
  "hash_probe 0 matches tbl inc msk pos = Inl Diverges"
| "hash_probe (Suc n) matches tbl inc msk pos =
     bnd (idx tbl (int pos)) (\<lambda>np.
     case np of None \<Rightarrow> Inr (pos, False)
     | Some nd \<Rightarrow> if matches nd then Inr (pos, True)
                else hash_probe n matches tbl inc msk (hash_pos_next pos inc msk))"

text \<open>Found with the slot, or not found with what is needed to insert.\<close>

definition hash_find_by ::
  "64 word \<Rightarrow> ('d hash_node \<Rightarrow> bool) \<Rightarrow> 'd hash_table \<Rightarrow> string \<Rightarrow> (nat + hash_insert) res" where
  "hash_find_by h matches head key =
     (let msk = hash_mask (ht_size head);
          ins = (\<lambda>w. \<lparr>hi_hash = h, hi_key = key, hi_where = w, hi_size = ht_size head\<rparr>) in
      case ht_table head of None \<Rightarrow> Inr (Inr (ins None))
      | Some tbl \<Rightarrow>
          bnd (hash_probe (length tbl) matches tbl (hash_inc h msk) msk (hash_pos h msk)) (\<lambda>(p, found).
          Inr (if found then Inl p else Inr (ins (Some p)))))"

definition hash_findb :: "'d hash_table \<Rightarrow> string \<Rightarrow> (nat + hash_insert) res" where
  "hash_findb head key =
     (let h = crc64b CRC64_INIT key in
      hash_find_by h (\<lambda>np. h = hn_hash np \<and> key = hn_key np) head key)"

definition hash_find :: "'d hash_table \<Rightarrow> string \<Rightarrow> (nat + hash_insert) res" where
  "hash_find head key = hash_findb head (key @ [CHR 0x00])"

definition hash_findib :: "'d hash_table \<Rightarrow> string \<Rightarrow> (nat + hash_insert) res" where
  "hash_findib head key =
     (let h = crc64ib CRC64_INIT key in
      hash_find_by h (\<lambda>np. h = hn_hash np \<and> map nasm_tolower key = map nasm_tolower (hn_key np)) head key)"

definition hash_findi :: "'d hash_table \<Rightarrow> string \<Rightarrow> (nat + hash_insert) res" where
  "hash_findi head key = hash_findib head (key @ [CHR 0x00])"

text \<open>Moving the entry in slot \<open>i\<close> of the old table to the new one; \<open>np\<close> is the slot of the new entry.\<close>

definition rebalance_step ::
  "'d hash_node option list \<Rightarrow> 64 word \<Rightarrow> nat \<Rightarrow> nat \<Rightarrow> 'd hash_node option list \<times> nat \<Rightarrow>
   ('d hash_node option list \<times> nat) res" where
  "rebalance_step tbl msk np0 i st =
     (case st of (newtbl, np) \<Rightarrow>
      case tbl ! i of None \<Rightarrow> Inr (newtbl, np)
      | Some nd \<Rightarrow>
          bnd (hash_probe (length newtbl) (\<lambda>_. False) newtbl (hash_inc (hn_hash nd) msk) msk (hash_pos (hn_hash nd) msk))
            (\<lambda>(p, _). Inr (newtbl[p := Some nd], if i = np0 then p else np)))"

definition hash_add ::
  "hash_insert \<Rightarrow> string option \<Rightarrow> 'd \<Rightarrow> 'd hash_table \<Rightarrow> (nat \<times> 'd hash_table) res" where
  "hash_add ins key data head =
     (let nd = \<lparr>hn_hash = hi_hash ins, hn_key = (case key of Some k \<Rightarrow> k | None \<Rightarrow> hi_key ins), hn_data = data\<rparr> in
      bnd (case hi_where ins of
             None \<Rightarrow> Inr (hash_init head, hash_pos (hi_hash ins) (hash_mask HASH_INIT_SIZE))
           | Some p \<Rightarrow> if hi_size ins = ht_size head then Inr (head, p) else Inl Undefined) (\<lambda>(head, np).
      bnd (deref (ht_table head)) (\<lambda>tbl.
      let tbl = tbl[np := Some nd]; ld = ht_load head + 1 in
      if ld > ht_max_load head then
        let newsize = hash_expand (ht_size head); msk = hash_mask newsize in
        bnd (foldM (rebalance_step tbl msk np) [0..<ht_size head] (replicate newsize None, np)) (\<lambda>(newtbl, np).
        Inr (np, \<lparr>ht_table = Some newtbl, ht_load = ld, ht_size = newsize, ht_max_load = hash_max_load newsize\<rparr>))
      else Inr (np, head\<lparr>ht_table := Some tbl, ht_load := ld\<rparr>))))"

text \<open>
  The iterator is the index of the next slot; at the end it goes back to the first one.
  \<open>hash_for_each\<close> is the list of the nodes for which the loop body runs.
\<close>

function hash_iterate_loop :: "'d hash_node option list \<Rightarrow> nat \<Rightarrow> nat \<Rightarrow> 'd hash_node option \<times> nat" where
  "hash_iterate_loop tbl ep cp =
     (if cp < ep then case tbl ! cp of Some nd \<Rightarrow> (Some nd, Suc cp) | None \<Rightarrow> hash_iterate_loop tbl ep (Suc cp)
      else (None, 0))"
  by pat_completeness auto
termination
  by (relation "measure (\<lambda>(tbl, ep, cp). ep - cp)") auto

declare hash_iterate_loop.simps [simp del]

definition hash_iterate :: "'d hash_table \<Rightarrow> nat \<Rightarrow> 'd hash_node option \<times> nat" where
  "hash_iterate head cp = (case ht_table head of None \<Rightarrow> (None, 0) | Some tbl \<Rightarrow> hash_iterate_loop tbl (ht_size head) cp)"

lemma hash_iterate_loop_next: "hash_iterate_loop tbl ep cp = (Some nd, c) \<Longrightarrow> cp < c \<and> c \<le> ep"
proof (induction tbl ep cp rule: hash_iterate_loop.induct)
  case (1 tbl ep cp)
  then show ?case by (subst (asm) (2) hash_iterate_loop.simps) (auto split: if_splits option.splits)
qed

function hash_for_each_from :: "'d hash_table \<Rightarrow> nat \<Rightarrow> 'd hash_node list" where
  "hash_for_each_from head cp =
     (case hash_iterate head cp of (None, c) \<Rightarrow> [] | (Some nd, c) \<Rightarrow> nd # hash_for_each_from head c)"
  by pat_completeness auto
termination
  by (relation "measure (\<lambda>(head, cp). ht_size head - cp)")
    (force simp: hash_iterate_def split: option.splits dest: hash_iterate_loop_next [OF sym])+

declare hash_for_each_from.simps [simp del]

definition hash_for_each :: "'d hash_table \<Rightarrow> 'd hash_node list" where
  "hash_for_each head = hash_for_each_from head 0"

definition hash_free :: "'d hash_table \<Rightarrow> 'd hash_table" where
  "hash_free head = zero_hash"


subsection \<open>The probe sequence\<close>

text \<open>
  With \<open>2 ^ k\<close> slots the probe of a hash visits \<open>slot k h 0\<close>, \<open>slot k h 1\<close>, \<dots>; the step is odd, so
  the first \<open>2 ^ k\<close> of them are all the slots.
\<close>

definition slot :: "nat \<Rightarrow> 64 word \<Rightarrow> nat \<Rightarrow> nat" where
  "slot k h j = (unat h + j * unat (hash_inc h (mask k))) mod 2 ^ k"

lemma slot_less [simp]: "slot k h j < 2 ^ k"
  by (simp add: slot_def)

lemma hash_mask_exp: "hash_mask (2 ^ k) = mask k"
  by (simp add: hash_mask_def mask_eq_exp_minus_1)

lemma unat_and_mask: "unat (w AND mask k) = unat w mod 2 ^ k" for w :: "64 word"
proof -
  have "unat (w AND mask k) = unat (take_bit k w)" by (simp only: take_bit_eq_mask)
  also have "\<dots> = take_bit k (unat w)" by (rule unsigned_take_bit_eq)
  finally show ?thesis by (simp only: take_bit_eq_mod)
qed

lemma hash_pos_slot: "hash_pos h (mask k) = slot k h 0"
  by (simp add: hash_pos_def slot_def unat_and_mask)

lemma hash_pos_next_slot:
  assumes "k < 64"
  shows "hash_pos_next (slot k h j) (hash_inc h (mask k)) (mask k) = slot k h (Suc j)"
proof -
  have d: "(2::nat) ^ k dvd 2 ^ 64" using assms by (intro le_imp_power_dvd) simp
  have "slot k h j < 2 ^ 64" using slot_less [of k h j] power_strict_increasing [of k 64 "2::nat"] assms
    by (meson less_trans one_less_numeral_iff semiring_norm(76))
  then have "hash_pos_next (slot k h j) (hash_inc h (mask k)) (mask k) =
      (slot k h j + unat (hash_inc h (mask k))) mod 2 ^ 64 mod 2 ^ k"
    by (simp add: hash_pos_next_def unat_and_mask unat_word_ariths unat_of_nat)
  then show ?thesis using d by (simp add: mod_mod_cancel slot_def mod_simps algebra_simps)
qed

lemma odd_hash_inc: "odd (unat (hash_inc h msk))"
proof -
  have "bit (hash_inc h msk) 0" by (simp only: hash_inc_def bit_or_iff bit_1_iff) simp
  then have "bit (unat (hash_inc h msk)) 0" by (simp add: bit_unsigned_iff del: bit_0)
  then show ?thesis by (simp add: bit_0)
qed

lemma slot_inject_le: "slot k h i = slot k h j \<Longrightarrow> i \<le> j \<Longrightarrow> j < 2 ^ k \<Longrightarrow> i = j"
proof -
  assume eq: "slot k h i = slot k h j" and b: "i \<le> j" "j < 2 ^ k"
  let ?inc = "unat (hash_inc h (mask k))"
  have c: "coprime (2 ^ k) ?inc" using odd_hash_inc [of h "mask k"] by simp
  have "i * ?inc \<le> j * ?inc" using b by simp
  then have "2 ^ k dvd (j - i) * ?inc"
    using eq mod_eq_dvd_iff_nat [of "unat h + i * ?inc" "unat h + j * ?inc" "2 ^ k"]
    by (simp add: slot_def diff_mult_distrib)
  then have "2 ^ k dvd j - i" using c by (simp add: coprime_dvd_mult_left_iff)
  then have "j - i = 0" using b by (metis diff_le_self dvd_imp_le le_less_trans less_le_not_le not_gr_zero)
  then show "i = j" using b by simp
qed

lemma slot_inject: "slot k h i = slot k h j \<Longrightarrow> i < 2 ^ k \<Longrightarrow> j < 2 ^ k \<Longrightarrow> i = j"
  using slot_inject_le by (metis nat_le_linear)

lemma slot_onto: "p < 2 ^ k \<Longrightarrow> \<exists>j < 2 ^ k. slot k h j = p"
proof -
  assume p: "p < 2 ^ k"
  have "inj_on (slot k h) {..<2 ^ k}" by (auto simp: inj_on_def intro: slot_inject)
  then have "slot k h ` {..<2 ^ k} = {..<2 ^ k}"
    by (intro card_subset_eq) (auto simp: card_image)
  then show ?thesis using p by (metis image_iff lessThan_iff)
qed

subsection \<open>Probing\<close>

definition stops :: "('d hash_node \<Rightarrow> bool) \<Rightarrow> 'd hash_node option list \<Rightarrow> nat \<Rightarrow> bool" where
  "stops M tbl p \<longleftrightarrow> (case tbl ! p of None \<Rightarrow> True | Some nd \<Rightarrow> M nd)"

lemma not_stops: "\<not> stops M tbl p \<Longrightarrow> tbl ! p \<noteq> None"
  by (cases "tbl ! p") (auto simp: stops_def)

lemma hash_probe_stops:
  assumes "k < 64" "length tbl = 2 ^ k"
  shows "d < n \<Longrightarrow> (\<forall>i < d. \<not> stops M tbl (slot k h (j + i))) \<Longrightarrow> stops M tbl (slot k h (j + d)) \<Longrightarrow>
    hash_probe n M tbl (hash_inc h (mask k)) (mask k) (slot k h j) =
      Inr (slot k h (j + d), tbl ! slot k h (j + d) \<noteq> None)"
proof (induction n arbitrary: j d)
  case (Suc n)
  have l: "slot k h j < length tbl" using assms(2) by simp
  show ?case
  proof (cases d)
    case 0
    then show ?thesis using Suc.prems l by (auto simp: stops_def split: option.splits)
  next
    case (Suc d')
    then have "\<not> stops M tbl (slot k h j)" using Suc.prems(2) by force
    moreover have "\<forall>i < d'. \<not> stops M tbl (slot k h (Suc j + i))" using Suc.prems(2) Suc by force
    ultimately show ?thesis using Suc.IH [of d' "Suc j"] Suc.prems(1,3) Suc l assms(1)
      by (auto simp: stops_def hash_pos_next_slot split: option.splits)
  qed
qed simp

text \<open>The first slot of the sequence at which the search stops.\<close>

lemma hash_probe_ends:
  assumes "k < 64" "length tbl = 2 ^ k" "\<exists>p < 2 ^ k. stops M tbl p"
  obtains d where "d < 2 ^ k" "\<forall>i < d. \<not> stops M tbl (slot k h i)" "stops M tbl (slot k h d)"
    "hash_probe (2 ^ k) M tbl (hash_inc h (mask k)) (mask k) (hash_pos h (mask k)) =
      Inr (slot k h d, tbl ! slot k h d \<noteq> None)"
proof -
  obtain j where j: "j < 2 ^ k" "stops M tbl (slot k h j)" using assms(3) slot_onto by metis
  define d where "d = (LEAST j. stops M tbl (slot k h j))"
  have d: "stops M tbl (slot k h d)" using j(2) unfolding d_def by (rule LeastI)
  have "d \<le> j" using j(2) unfolding d_def by (rule Least_le)
  moreover have l: "\<forall>i < d. \<not> stops M tbl (slot k h i)" unfolding d_def using not_less_Least by blast
  ultimately show ?thesis using hash_probe_stops [OF assms(1,2), of d "2 ^ k" M h 0] j(1) d
    by (intro that [of d]) (simp_all add: hash_pos_slot)
qed

subsection \<open>The entries of a table\<close>

fun entries :: "'d hash_node option list \<Rightarrow> 'd hash_node list" where
  "entries [] = []"
| "entries (None # t) = entries t"
| "entries (Some nd # t) = nd # entries t"

lemma entries_append [simp]: "entries (s @ t) = entries s @ entries t"
  by (induction s rule: entries.induct) auto

lemma entries_replicate [simp]: "entries (replicate n None) = []"
  by (induction n) auto

lemma entries_put: "p < length tbl \<Longrightarrow> tbl ! p = None \<Longrightarrow>
    mset (entries (tbl[p := Some nd])) = add_mset nd (mset (entries tbl))"
  using id_take_nth_drop [of p tbl] upd_conv_take_nth_drop [of p tbl "Some nd"]
  by (metis (no_types) entries_append entries.simps(2,3) mset.simps(2) mset_append union_mset_add_mset_right)

lemma set_entries: "nd \<in> set (entries tbl) \<longleftrightarrow> (\<exists>i < length tbl. tbl ! i = Some nd)"
proof -
  have "nd \<in> set (entries tbl) \<longleftrightarrow> Some nd \<in> set tbl" by (induction tbl rule: entries.induct) auto
  then show ?thesis by (simp add: in_set_conv_nth)
qed

lemma entries_for_each: "entries (drop cp tbl) =
    (case hash_iterate_loop tbl (length tbl) cp of (None, c) \<Rightarrow> [] | (Some nd, c) \<Rightarrow> nd # entries (drop c tbl))"
proof (induction tbl "length tbl" cp rule: hash_iterate_loop.induct)
  case (1 tbl cp)
  then show ?case
    by (subst hash_iterate_loop.simps) (auto simp: Cons_nth_drop_Suc [symmetric] split: option.split)
qed

lemma length_entries_full: "(\<forall>i < length tbl. tbl ! i \<noteq> None) \<Longrightarrow> length (entries tbl) = length tbl"
proof (induction tbl)
  case (Cons a t)
  have "a \<noteq> None" using Cons.prems by force
  moreover have "\<forall>i < length t. t ! i \<noteq> None" using Cons.prems by force
  ultimately show ?case using Cons.IH by auto
qed simp

lemma free_slot: "length (entries tbl) < length tbl \<Longrightarrow> \<exists>p < length tbl. tbl ! p = None"
  using length_entries_full by fastforce

lemma entries_unique:
  "distinct (map f (entries tbl)) \<Longrightarrow> i < length tbl \<Longrightarrow> j < length tbl \<Longrightarrow>
   tbl ! i = Some a \<Longrightarrow> tbl ! j = Some b \<Longrightarrow> f a = f b \<Longrightarrow> i = j"
proof (induction tbl arbitrary: i j)
  case (Cons x t)
  have d: "distinct (map f (entries t))" using Cons.prems(1) by (cases x) auto
  have n: "c \<in> set (entries t)" if "l < length t" "t ! l = Some c" for l c using that set_entries by blast
  show ?case
    using Cons.IH [OF d] Cons.prems n by (cases i; cases j; cases x) (auto simp: image_iff, metis)
qed simp

subsection \<open>The invariant\<close>

text \<open>
  A table is given with its hash function \<open>hf\<close> and the function \<open>canon\<close> that maps keys to what is
  compared: keys and their bytes, or their lower-case form.  The hash of an entry is the hash of
  its key, no key stands twice, and every entry can be reached: the slots its probe visits first
  are used.  The table is never more than half full, so a search ends.
\<close>

definition reachable :: "nat \<Rightarrow> 'd hash_node option list \<Rightarrow> bool" where
  "reachable k tbl \<longleftrightarrow> length tbl = 2 ^ k \<and>
     (\<forall>p nd. p < 2 ^ k \<longrightarrow> tbl ! p = Some nd \<longrightarrow>
       (\<exists>j. slot k (hn_hash nd) j = p \<and> (\<forall>i < j. tbl ! slot k (hn_hash nd) i \<noteq> None)))"

definition keyed :: "(string \<Rightarrow> 64 word) \<Rightarrow> (string \<Rightarrow> string) \<Rightarrow> 'd hash_node list \<Rightarrow> bool" where
  "keyed hf canon nds \<longleftrightarrow> (\<forall>nd \<in> set nds. hn_hash nd = hf (hn_key nd)) \<and> distinct (map (canon \<circ> hn_key) nds)"

definition ht_ok :: "(string \<Rightarrow> 64 word) \<Rightarrow> (string \<Rightarrow> string) \<Rightarrow> 'd hash_table \<Rightarrow> bool" where
  "ht_ok hf canon head \<longleftrightarrow> (case ht_table head of None \<Rightarrow> head = zero_hash
     | Some tbl \<Rightarrow> \<exists>k. 4 \<le> k \<and> k \<le> 59 \<and> ht_size head = 2 ^ k \<and> ht_max_load head = 2 ^ (k - 1) \<and>
         ht_load head = length (entries tbl) \<and> ht_load head \<le> ht_max_load head \<and>
         reachable k tbl \<and> keyed hf canon (entries tbl))"

definition ht_map :: "(string \<Rightarrow> string) \<Rightarrow> 'd hash_table \<Rightarrow> string \<rightharpoonup> 'd" where
  "ht_map canon head = map_of (map (\<lambda>nd. (canon (hn_key nd), hn_data nd)) (hash_for_each head)) \<circ> canon"

lemma keyed_mset: "mset xs = mset ys \<Longrightarrow> keyed hf canon xs = keyed hf canon ys"
  unfolding keyed_def by (metis mset_eq_imp_distinct_iff mset_map set_mset_mset)

lemma keyed_Cons: "keyed hf canon (nd # nds) \<longleftrightarrow>
    hn_hash nd = hf (hn_key nd) \<and> canon (hn_key nd) \<notin> (canon \<circ> hn_key) ` set nds \<and> keyed hf canon nds"
  by (auto simp: keyed_def)

lemma for_each_entries:
  assumes "ht_ok hf canon head"
  shows "hash_for_each head = (case ht_table head of None \<Rightarrow> [] | Some tbl \<Rightarrow> entries tbl)"
proof (cases "ht_table head")
  case None
  then show ?thesis by (simp add: hash_for_each_def hash_for_each_from.simps [of head 0] hash_iterate_def)
next
  case (Some tbl)
  then have l: "ht_size head = length tbl" using assms by (auto simp: ht_ok_def reachable_def)
  have "hash_for_each_from head cp = entries (drop cp tbl)" for cp
  proof (induction "length tbl - cp" arbitrary: cp rule: less_induct)
    case less
    obtain r c where rc: "hash_iterate_loop tbl (length tbl) cp = (r, c)" by fastforce
    then have it: "hash_iterate head cp = (r, c)" by (simp add: hash_iterate_def Some l)
    show ?case
    proof (cases r)
      case None
      then show ?thesis using it rc by (simp add: hash_for_each_from.simps [of head cp] entries_for_each [of cp])
    next
      case (Some nd)
      then have "hash_for_each_from head c = entries (drop c tbl)"
        using less hash_iterate_loop_next [of tbl "length tbl" cp nd c] rc by auto
      then show ?thesis using Some it rc
        by (simp add: hash_for_each_from.simps [of head cp] entries_for_each [of cp])
    qed
  qed
  then show ?thesis using Some by (simp add: hash_for_each_def)
qed

lemma ht_map_eq:
  assumes "ht_ok hf canon head"
  shows "ht_map canon head key = Some d \<longleftrightarrow>
    (\<exists>tbl. ht_table head = Some tbl \<and> (\<exists>nd \<in> set (entries tbl). canon (hn_key nd) = canon key \<and> hn_data nd = d))"
proof (cases "ht_table head")
  case None
  then show ?thesis using for_each_entries [OF assms] by (simp add: ht_map_def)
next
  case (Some tbl)
  then have "distinct (map fst (map (\<lambda>nd. (canon (hn_key nd), hn_data nd)) (entries tbl)))"
    using assms by (auto simp: ht_ok_def keyed_def comp_def)
  from map_of_eq_Some_iff [OF this] show ?thesis
    using for_each_entries [OF assms] Some by (force simp: ht_map_def)
qed

lemma reachable_put:
  assumes "reachable k tbl" "tbl ! slot k (hn_hash nd) d = None" "\<forall>i < d. tbl ! slot k (hn_hash nd) i \<noteq> None"
  shows "reachable k (tbl[slot k (hn_hash nd) d := Some nd])"
  unfolding reachable_def
proof (intro conjI allI impI)
  show "length (tbl[slot k (hn_hash nd) d := Some nd]) = 2 ^ k" using assms(1) by (simp add: reachable_def)
next
  fix p x
  let ?t = "tbl[slot k (hn_hash nd) d := Some nd]"
  assume p: "p < 2 ^ k" "?t ! p = Some x"
  have l: "length tbl = 2 ^ k" using assms(1) by (simp add: reachable_def)
  have keep: "?t ! q \<noteq> None" if "tbl ! q \<noteq> None" for q
    using that l by (cases "q = slot k (hn_hash nd) d") auto
  show "\<exists>j. slot k (hn_hash x) j = p \<and> (\<forall>i < j. ?t ! slot k (hn_hash x) i \<noteq> None)"
  proof (cases "p = slot k (hn_hash nd) d")
    case True
    then have "x = nd" using p l by simp
    then show ?thesis using True assms(3) keep by blast
  next
    case False
    then have "tbl ! p = Some x" using p by simp
    then obtain j where "slot k (hn_hash x) j = p" "\<forall>i < j. tbl ! slot k (hn_hash x) i \<noteq> None"
      using assms(1) p(1) unfolding reachable_def by blast
    then show ?thesis using keep by blast
  qed
qed

lemma reachable_empty: "reachable k (replicate (2 ^ k) None)"
  by (simp add: reachable_def)

subsection \<open>Finding\<close>

text \<open>
  The two hash functions of the program agree with their comparisons: what compares equal has
  the same hash.
\<close>

locale hashing =
  fixes hf :: "string \<Rightarrow> 64 word" and canon :: "string \<Rightarrow> string"
  assumes hf_canon: "canon a = canon b \<Longrightarrow> hf a = hf b"
begin

text \<open>What a failed search leaves behind: the first free slot of the probe, all before it used.\<close>

definition insert_ok :: "'d hash_table \<Rightarrow> string \<Rightarrow> hash_insert \<Rightarrow> bool" where
  "insert_ok head key ins \<longleftrightarrow> hi_hash ins = hf key \<and> hi_key ins = key \<and> hi_size ins = ht_size head \<and>
     (case ht_table head of None \<Rightarrow> hi_where ins = None
      | Some tbl \<Rightarrow> \<exists>k d. ht_size head = 2 ^ k \<and> hi_where ins = Some (slot k (hf key) d) \<and>
          tbl ! slot k (hf key) d = None \<and> (\<forall>i < d. tbl ! slot k (hf key) i \<noteq> None))"

lemma find_some:
  assumes ok: "ht_ok hf canon head" and m: "ht_map canon head key = Some d"
  shows "\<exists>tbl p nd. ht_table head = Some tbl \<and> p < length tbl \<and> tbl ! p = Some nd \<and> hn_data nd = d \<and>
    hash_find_by (hf key) (\<lambda>np. hf key = hn_hash np \<and> canon key = canon (hn_key np)) head key = Inr (Inl p)"
proof -
  let ?M = "\<lambda>np. hf key = hn_hash np \<and> canon key = canon (hn_key np)"
  obtain tbl nd where tbl: "ht_table head = Some tbl" and nd: "nd \<in> set (entries tbl)" "canon (hn_key nd) = canon key"
    "hn_data nd = d" using m ht_map_eq [OF ok] by metis
  obtain k where k: "k \<le> 59" "ht_size head = 2 ^ k" "reachable k tbl" "keyed hf canon (entries tbl)"
    using ok tbl by (auto simp: ht_ok_def)
  have l: "length tbl = 2 ^ k" using k(3) by (simp add: reachable_def)
  obtain p where p: "p < 2 ^ k" "tbl ! p = Some nd" using nd(1) l by (auto simp: set_entries)
  have h: "hn_hash nd = hf key" using k(4) nd hf_canon unfolding keyed_def by metis
  have "\<exists>p < 2 ^ k. stops ?M tbl p" using p nd(2) h by (auto simp: stops_def intro!: exI [of _ p])
  from hash_probe_ends [OF _ l this, of "hf key"] obtain e where e: "e < 2 ^ k"
    "\<forall>i < e. \<not> stops ?M tbl (slot k (hf key) i)" "stops ?M tbl (slot k (hf key) e)"
    "hash_probe (2 ^ k) ?M tbl (hash_inc (hf key) (mask k)) (mask k) (hash_pos (hf key) (mask k)) =
      Inr (slot k (hf key) e, tbl ! slot k (hf key) e \<noteq> None)" using k(1) by auto
  obtain j where j: "slot k (hf key) j = p" "\<forall>i < j. tbl ! slot k (hf key) i \<noteq> None"
    using k(3) p h unfolding reachable_def by metis
  have "stops ?M tbl (slot k (hf key) j)" using j(1) p nd(2) h by (simp add: stops_def)
  then have "e \<le> j" using e(2) not_less by blast
  then have "tbl ! slot k (hf key) e \<noteq> None" using j p by (cases "e = j") auto
  then obtain x where x: "tbl ! slot k (hf key) e = Some x" by auto
  then have "canon (hn_key x) = canon (hn_key nd)" using e(3) nd(2) by (simp add: stops_def)
  then have "slot k (hf key) e = p"
    using entries_unique [of "canon \<circ> hn_key" tbl "slot k (hf key) e" p] x p k(4) l by (simp add: keyed_def)
  then show ?thesis using e(4) x p nd(3) tbl l k(2) by (auto simp: hash_find_by_def hash_mask_exp Let_def)
qed

lemma find_none:
  assumes ok: "ht_ok hf canon head" and m: "ht_map canon head key = None"
  shows "\<exists>ins. hash_find_by (hf key) (\<lambda>np. hf key = hn_hash np \<and> canon key = canon (hn_key np)) head key = Inr (Inr ins) \<and>
    insert_ok head key ins"
proof (cases "ht_table head")
  case None
  then show ?thesis by (simp add: hash_find_by_def insert_ok_def Let_def)
next
  case (Some tbl)
  let ?M = "\<lambda>np. hf key = hn_hash np \<and> canon key = canon (hn_key np)"
  obtain k where k: "4 \<le> k" "k \<le> 59" "ht_size head = 2 ^ k" "ht_max_load head = 2 ^ (k - 1)"
    "ht_load head = length (entries tbl)" "ht_load head \<le> ht_max_load head" "reachable k tbl"
    using ok Some by (auto simp: ht_ok_def)
  have l: "length tbl = 2 ^ k" using k(7) by (simp add: reachable_def)
  have "(2::nat) ^ (k - 1) < 2 ^ k" using k(1) by (intro power_strict_increasing) auto
  then have "length (entries tbl) < length tbl" using k(4-6) l by linarith
  then obtain q where q: "q < 2 ^ k" "tbl ! q = None" using free_slot [of tbl] l by auto
  have "\<exists>p < 2 ^ k. stops ?M tbl p" using q by (auto simp: stops_def)
  from hash_probe_ends [OF _ l this, of "hf key"] obtain e where e: "e < 2 ^ k"
    "\<forall>i < e. \<not> stops ?M tbl (slot k (hf key) i)" "stops ?M tbl (slot k (hf key) e)"
    "hash_probe (2 ^ k) ?M tbl (hash_inc (hf key) (mask k)) (mask k) (hash_pos (hf key) (mask k)) =
      Inr (slot k (hf key) e, tbl ! slot k (hf key) e \<noteq> None)" using k(2) by auto
  have "tbl ! slot k (hf key) e = None"
  proof (rule ccontr)
    assume "tbl ! slot k (hf key) e \<noteq> None"
    then obtain x where x: "tbl ! slot k (hf key) e = Some x" by auto
    then have "x \<in> set (entries tbl)" using l slot_less set_entries by metis
    moreover have "canon (hn_key x) = canon key" using x e(3) by (simp add: stops_def)
    ultimately have "ht_map canon head key = Some (hn_data x)" using ht_map_eq [OF ok, of key] Some by blast
    then show False using m by simp
  qed
  moreover have "\<forall>i < e. tbl ! slot k (hf key) i \<noteq> None" using e(2) not_stops by blast
  ultimately show ?thesis using e(4) Some l k(3)
    by (auto simp: hash_find_by_def hash_mask_exp Let_def insert_ok_def)
qed

end

subsection \<open>Inserting\<close>

lemma entries_take_Suc: "i < length tbl \<Longrightarrow> entries (take (Suc i) tbl) = entries (take i tbl) @ entries [tbl ! i]"
  by (simp add: take_Suc_conv_app_nth)

lemma length_entries: "length (entries tbl) \<le> length tbl"
  by (induction tbl rule: entries.induct) auto

lemma rebalance_fold:
  assumes k: "k < 63" "length tbl = 2 ^ k" and np: "np < 2 ^ k" "tbl ! np = Some nd"
  shows "i \<le> 2 ^ k \<Longrightarrow> \<exists>new q. foldM (rebalance_step tbl (mask (Suc k)) np) [0..<i] (replicate (2 ^ Suc k) None, np) =
      Inr (new, q) \<and> reachable (Suc k) new \<and> mset (entries new) = mset (entries (take i tbl)) \<and>
      (np < i \<longrightarrow> q < 2 ^ Suc k \<and> new ! q = Some nd)"
proof (induction i)
  case 0
  then show ?case using reachable_empty [of "Suc k"] by simp
next
  case (Suc i)
  then obtain new q where IH: "foldM (rebalance_step tbl (mask (Suc k)) np) [0..<i] (replicate (2 ^ Suc k) None, np) =
      Inr (new, q)" "reachable (Suc k) new" "mset (entries new) = mset (entries (take i tbl))"
    "np < i \<longrightarrow> q < 2 ^ Suc k \<and> new ! q = Some nd" by auto
  have i: "i < length tbl" using Suc.prems k(2) by simp
  have l: "length new = 2 ^ Suc k" using IH(2) by (simp add: reachable_def)
  have run: "foldM (rebalance_step tbl (mask (Suc k)) np) [0..<Suc i] (replicate (2 ^ Suc k) None, np) =
      rebalance_step tbl (mask (Suc k)) np i (new, q)" using IH(1) by (simp add: foldM_append del: power_Suc)
  show ?case
  proof (cases "tbl ! i")
    case None
    then have "np \<noteq> i" using np by auto
    then have "np < Suc i \<longrightarrow> q < 2 ^ Suc k \<and> new ! q = Some nd" using IH(4) by (metis less_antisym)
    moreover have "rebalance_step tbl (mask (Suc k)) np i (new, q) = Inr (new, q)" using None by (simp add: rebalance_step_def)
    moreover have "mset (entries new) = mset (entries (take (Suc i) tbl))" using IH(3) None i by (simp add: entries_take_Suc)
    ultimately show ?thesis using run IH(2) by metis
  next
    case (Some x)
    have "length (entries new) = length (entries (take i tbl))" using IH(3) by (metis size_mset)
    also have "\<dots> \<le> i" using length_entries [of "take i tbl"] by simp
    also have "i < length new" using i l k(2) by simp
    finally have "\<exists>p < 2 ^ Suc k. stops (\<lambda>_. False) new p" using free_slot [of new] l by (auto simp: stops_def)
    from hash_probe_ends [OF _ l this, of "hn_hash x"] obtain e where e:
      "\<forall>i < e. \<not> stops (\<lambda>_. False) new (slot (Suc k) (hn_hash x) i)" "stops (\<lambda>_. False) new (slot (Suc k) (hn_hash x) e)"
      "hash_probe (2 ^ Suc k) (\<lambda>_. False) new (hash_inc (hn_hash x) (mask (Suc k))) (mask (Suc k))
         (hash_pos (hn_hash x) (mask (Suc k))) = Inr (slot (Suc k) (hn_hash x) e, new ! slot (Suc k) (hn_hash x) e \<noteq> None)"
      using k(1) by auto
    let ?p = "slot (Suc k) (hn_hash x) e"
    have f: "new ! ?p = None" using e(2) by (auto simp: stops_def split: option.splits)
    have "\<forall>i < e. new ! slot (Suc k) (hn_hash x) i \<noteq> None" using e(1) not_stops by blast
    from reachable_put [OF IH(2) f this] have r: "reachable (Suc k) (new[?p := Some x])" .
    have m: "mset (entries (new[?p := Some x])) = mset (entries (take (Suc i) tbl))"
      using entries_put [OF _ f] l IH(3) i Some slot_less [of "Suc k"] by (simp add: entries_take_Suc del: power_Suc)
    have "rebalance_step tbl (mask (Suc k)) np i (new, q) = Inr (new[?p := Some x], if i = np then ?p else q)"
      using e(3) l by (simp add: rebalance_step_def Some del: power_Suc)
    moreover have "np < Suc i \<longrightarrow> (if i = np then ?p else q) < 2 ^ Suc k \<and>
        new[?p := Some x] ! (if i = np then ?p else q) = Some nd"
      using IH(4) np Some l f slot_less [of "Suc k"] by (auto simp: nth_list_update less_Suc_eq simp del: power_Suc)
    ultimately show ?thesis using run r m
      by (intro exI [of _ "new[?p := Some x]"] exI [of _ "if i = np then ?p else q"]) simp
  qed
qed

text \<open>Storing an entry in a used table: the table stays or is replaced by one twice the size.\<close>

definition stored :: "(string \<Rightarrow> 64 word) \<Rightarrow> (string \<Rightarrow> string) \<Rightarrow> 'd hash_node list \<Rightarrow> 'd hash_node \<Rightarrow> nat \<times> 'd hash_table \<Rightarrow> bool" where
  "stored hf canon nds nd r \<longleftrightarrow> (case r of (p, head) \<Rightarrow> ht_ok hf canon head \<and>
     (\<exists>tbl. ht_table head = Some tbl \<and> p < length tbl \<and> tbl ! p = Some nd \<and> mset (entries tbl) = add_mset nd (mset nds)))"

definition store_tail :: "'d hash_node \<Rightarrow> 'd hash_table \<times> nat \<Rightarrow> (nat \<times> 'd hash_table) res" where
  "store_tail nd = (\<lambda>(head, np). bnd (deref (ht_table head)) (\<lambda>tbl.
      let tbl = tbl[np := Some nd]; ld = ht_load head + 1 in
      if ld > ht_max_load head then
        let newsize = hash_expand (ht_size head); msk = hash_mask newsize in
        bnd (foldM (rebalance_step tbl msk np) [0..<ht_size head] (replicate newsize None, np)) (\<lambda>(newtbl, np).
        Inr (np, \<lparr>ht_table = Some newtbl, ht_load = ld, ht_size = newsize, ht_max_load = hash_max_load newsize\<rparr>))
      else Inr (np, head\<lparr>ht_table := Some tbl, ht_load := ld\<rparr>)))"

lemma hash_add_store: "hash_add ins key data head =
    (let nd = \<lparr>hn_hash = hi_hash ins, hn_key = (case key of Some k \<Rightarrow> k | None \<Rightarrow> hi_key ins), hn_data = data\<rparr> in
     bnd (case hi_where ins of
             None \<Rightarrow> Inr (hash_init head, hash_pos (hi_hash ins) (hash_mask HASH_INIT_SIZE))
           | Some p \<Rightarrow> if hi_size ins = ht_size head then Inr (head, p) else Inl Undefined) (store_tail nd))"
  by (simp add: hash_add_def store_tail_def)

lemma store_tail_ok:
  assumes ok: "ht_ok hf canon head" and tbl: "ht_table head = Some tbl" "ht_size head = 2 ^ k"
    and free: "tbl ! slot k (hn_hash nd) d = None" "\<forall>i < d. tbl ! slot k (hn_hash nd) i \<noteq> None"
    and nd: "keyed hf canon (nd # entries tbl)" and bound: "ht_load head < 2 ^ 58"
  shows "\<exists>r. store_tail nd (head, slot k (hn_hash nd) d) = Inr r \<and> stored hf canon (entries tbl) nd r"
proof -
  let ?p = "slot k (hn_hash nd) d" let ?t = "tbl[?p := Some nd]"
  have k: "4 \<le> k" "k \<le> 59" "ht_max_load head = 2 ^ (k - 1)" "ht_load head = length (entries tbl)" "reachable k tbl"
    using ok tbl by (auto simp: ht_ok_def)
  have l: "length tbl = 2 ^ k" using k(5) by (simp add: reachable_def)
  have m: "mset (entries ?t) = add_mset nd (mset (entries tbl))" using entries_put [OF _ free(1)] l by simp
  then have ky: "keyed hf canon (entries ?t)" using nd keyed_mset [of "nd # entries tbl" "entries ?t"] by simp
  have ld: "length (entries ?t) = ht_load head + 1" using m k(4) by (metis Suc_eq_plus1 size_add_mset size_mset)
  show ?thesis
  proof (cases "ht_load head + 1 > ht_max_load head")
    case False
    have "stored hf canon (entries tbl) nd (?p, head\<lparr>ht_table := Some ?t, ht_load := ht_load head + 1\<rparr>)"
      unfolding stored_def using k tbl(2) ky ld l m False reachable_put [OF k(5) free]
      by (auto simp: ht_ok_def intro!: exI [of _ k])
    then show ?thesis using False tbl(1) by (simp add: store_tail_def Let_def)
  next
    case True
    then have "(2::nat) ^ (k - 1) \<le> ht_load head" using k(3) by simp
    then have "(2::nat) ^ (k - 1) < 2 ^ 58" using bound by linarith
    then have k59: "Suc k \<le> 59" using power_less_imp_less_exp [of "2 :: nat" "k - 1" 58] by simp
    have e: "hash_expand (ht_size head) = 2 ^ Suc k" by (simp add: hash_expand_def tbl(2) push_bit_eq_mult)
    obtain new q where nq: "foldM (rebalance_step ?t (mask (Suc k)) ?p) [0..<2 ^ k] (replicate (2 ^ Suc k) None, ?p) =
        Inr (new, q)" "reachable (Suc k) new" "mset (entries new) = mset (entries (take (2 ^ k) ?t))"
      "q < 2 ^ Suc k \<and> new ! q = Some nd"
      using rebalance_fold [of k ?t ?p nd "2 ^ k"] k59 l by auto
    have mn: "mset (entries new) = mset (entries ?t)" using nq(3) l by simp
    have kn: "keyed hf canon (entries new)" using ky keyed_mset [OF mn] by simp
    have ln: "length (entries new) = ht_load head + 1" using mn ld by (metis size_mset)
    have max: "hash_max_load (2 ^ Suc k) = 2 ^ k" by (simp add: hash_max_load_def HASH_MAX_LOAD_def)
    have "ht_load head \<le> ht_max_load head" using ok tbl by (auto simp: ht_ok_def)
    moreover have "(2::nat) ^ (k - 1) < 2 ^ k" using k(1) by (intro power_strict_increasing) auto
    ultimately have "ht_load head + 1 \<le> 2 ^ k" using k(3) by linarith
    then have "ht_ok hf canon \<lparr>ht_table = Some new, ht_load = ht_load head + 1, ht_size = 2 ^ Suc k,
        ht_max_load = hash_max_load (2 ^ Suc k)\<rparr>"
      using k59 k(1) nq(2) kn ln max unfolding ht_ok_def by (auto simp del: power_Suc intro!: exI [of _ "Suc k"])
    then have "stored hf canon (entries tbl) nd (q, \<lparr>ht_table = Some new, ht_load = ht_load head + 1, ht_size = 2 ^ Suc k,
        ht_max_load = hash_max_load (2 ^ Suc k)\<rparr>)"
      using nq(2,4) mn m unfolding stored_def by (simp add: reachable_def del: power_Suc)
    then show ?thesis using True tbl nq(1) e hash_mask_exp [of "Suc k"]
      by (simp add: store_tail_def Let_def del: power_Suc)
  qed
qed

context hashing
begin

lemma add_ok:
  assumes ok: "ht_ok hf canon head" and m: "ht_map canon head key = None" and ins: "insert_ok head key ins"
    and bound: "ht_load head < 2 ^ 58" and key': "key' = None \<or> key' = Some key"
  shows "\<exists>p head' tbl nd. hash_add ins key' d head = Inr (p, head') \<and> ht_ok hf canon head' \<and>
    ht_table head' = Some tbl \<and> p < length tbl \<and> tbl ! p = Some nd \<and> hn_data nd = d \<and>
    ht_load head' = ht_load head + 1 \<and>
    (\<forall>x. ht_map canon head' x = (if canon x = canon key then Some d else ht_map canon head x))"
proof -
  let ?nd = "\<lparr>hn_hash = hf key, hn_key = key, hn_data = d\<rparr>"
  have hi: "hi_hash ins = hf key" "(case key' of None \<Rightarrow> hi_key ins | Some k \<Rightarrow> k) = key" "hi_size ins = ht_size head"
    using ins key' by (auto simp: insert_ok_def)
  define nds where "nds = (case ht_table head of None \<Rightarrow> [] | Some tbl \<Rightarrow> entries tbl)"
  have old: "ht_map canon head x = Some c \<longleftrightarrow> (\<exists>nd \<in> set nds. canon (hn_key nd) = canon x \<and> hn_data nd = c)" for x c
    using ht_map_eq [OF ok, of x c] by (cases "ht_table head") (simp_all add: nds_def)
  have "canon key \<notin> (canon \<circ> hn_key) ` set nds"
  proof
    assume "canon key \<in> (canon \<circ> hn_key) ` set nds"
    then obtain nd where "nd \<in> set nds" "canon (hn_key nd) = canon key" by auto
    then have "ht_map canon head key = Some (hn_data nd)" using old [of key "hn_data nd"] by blast
    then show False using m by simp
  qed
  moreover have "keyed hf canon nds" using ok by (auto simp: nds_def ht_ok_def keyed_def split: option.splits)
  ultimately have ky: "keyed hf canon (?nd # nds)" by (simp add: keyed_Cons)
  have load: "length nds = ht_load head" using ok by (auto simp: nds_def ht_ok_def zero_hash_def split: option.splits)
  have "\<exists>r. hash_add ins key' d head = Inr r \<and> stored hf canon nds ?nd r"
  proof (cases "ht_table head")
    case None
    then have head: "head = zero_hash" "hi_where ins = None" "nds = []"
      using ok ins by (auto simp: ht_ok_def insert_ok_def nds_def)
    let ?h = "hash_init head"
    have sz: "HASH_INIT_SIZE = 2 ^ 4" by (simp add: HASH_INIT_SIZE_def)
    have h: "ht_table ?h = Some (replicate (2 ^ 4) None)" "ht_size ?h = 2 ^ 4" "ht_load ?h = 0"
      by (simp_all add: hash_init_def sz)
    have "ht_ok hf canon ?h" using h reachable_empty [of 4]
      by (auto simp: ht_ok_def hash_init_def sz hash_max_load_def HASH_MAX_LOAD_def keyed_def intro!: exI [of _ 4])
    moreover have "replicate (2 ^ 4) None ! slot 4 (hf key) 0 = None" by (rule nth_replicate) (rule slot_less)
    ultimately show ?thesis using store_tail_ok [of hf canon ?h, OF _ h(1,2), of ?nd 0] ky head h hi hash_mask_exp [of 4]
      by (simp add: hash_add_store Let_def sz hash_pos_slot)
  next
    case (Some tbl)
    then obtain k e where k: "ht_size head = 2 ^ k" "hi_where ins = Some (slot k (hf key) e)"
      "tbl ! slot k (hf key) e = None" "\<forall>i < e. tbl ! slot k (hf key) i \<noteq> None"
      using ins by (auto simp: insert_ok_def)
    from store_tail_ok [OF ok Some k(1), of ?nd e] show ?thesis
      using ky k hi Some bound by (simp add: hash_add_store Let_def nds_def)
  qed
  then obtain p head' tbl where r: "hash_add ins key' d head = Inr (p, head')" "ht_ok hf canon head'"
    "ht_table head' = Some tbl" "p < length tbl" "tbl ! p = Some ?nd" "mset (entries tbl) = add_mset ?nd (mset nds)"
    unfolding stored_def by auto
  have s: "set (entries tbl) = insert ?nd (set nds)" using r(6) by (metis set_mset_add_mset_insert set_mset_mset)
  have new: "ht_map canon head' x = Some c \<longleftrightarrow> (\<exists>nd \<in> insert ?nd (set nds). canon (hn_key nd) = canon x \<and> hn_data nd = c)"
    for x c using ht_map_eq [OF r(2), of x c] r(3) s by simp
  have "ht_map canon head' x = (if canon x = canon key then Some d else ht_map canon head x)" for x
  proof (cases "canon x = canon key")
    case True
    then show ?thesis using new [of x d] by auto
  next
    case False
    then have "ht_map canon head' x = Some c \<longleftrightarrow> ht_map canon head x = Some c" for c using new old by auto
    then have "ht_map canon head' x = ht_map canon head x" by (metis option.exhaust)
    then show ?thesis using False by simp
  qed
  moreover have "ht_load head' = ht_load head + 1"
    using r(2,3) load arg_cong [OF r(6), of size] by (auto simp: ht_ok_def)
  ultimately show ?thesis using r by (intro exI [of _ p] exI [of _ head'] exI [of _ tbl] exI [of _ ?nd]) simp
qed

end

lemma byte_canon: "map nasm_tolower a = map nasm_tolower b \<Longrightarrow> crc64ib c a = crc64ib c b"
proof -
  have "crc64ib c s = foldl (\<lambda>crc x. crc64_byte crc (byte_of x)) c (map nasm_tolower s)" for s
    by (simp add: crc64ib_def foldl_map)
  then show "map nasm_tolower a = map nasm_tolower b \<Longrightarrow> ?thesis" by simp
qed

interpretation hb: hashing "crc64b CRC64_INIT" id
  by unfold_locales simp

interpretation hi: hashing "crc64ib CRC64_INIT" "map nasm_tolower"
  by unfold_locales (rule byte_canon)

lemma hash_findb_eq: "hash_findb head key =
    hash_find_by (crc64b CRC64_INIT key) (\<lambda>np. crc64b CRC64_INIT key = hn_hash np \<and> id key = id (hn_key np)) head key"
  by (simp add: hash_findb_def Let_def)

lemma hash_findib_eq: "hash_findib head key =
    hash_find_by (crc64ib CRC64_INIT key) (\<lambda>np. crc64ib CRC64_INIT key = hn_hash np \<and>
      map nasm_tolower key = map nasm_tolower (hn_key np)) head key"
  by (simp add: hash_findib_def Let_def)

subsection \<open>The dictionary\<close>

text \<open>
  What the clients rely on: a lookup, an insertion of a key that is not there, and the number of
  entries.  A client that inserts distinct keys finds each with its value afterwards.
\<close>

locale dictionary =
  fixes ok :: "'t \<Rightarrow> bool" and find :: "'t \<Rightarrow> 'k \<Rightarrow> 'd option res" and put :: "'k \<Rightarrow> 'd \<Rightarrow> 't \<Rightarrow> 't res"
    and used :: "'t \<Rightarrow> nat" and limit :: nat
  assumes find_ends: "ok t \<Longrightarrow> \<exists>r. find t k = Inr r"
    and put_new: "ok t \<Longrightarrow> find t k = Inr None \<Longrightarrow> used t < limit \<Longrightarrow>
      \<exists>t'. put k d t = Inr t' \<and> ok t' \<and> used t' = used t + 1 \<and>
        (\<forall>x. find t' x = (if x = k then Inr (Some d) else find t x))"
begin

lemma put_all:
  "ok t \<Longrightarrow> distinct (map fst kds) \<Longrightarrow> (\<forall>k \<in> set (map fst kds). find t k = Inr None) \<Longrightarrow>
   used t + length kds \<le> limit \<Longrightarrow>
   \<exists>t'. foldM (\<lambda>(k, d). put k d) kds t = Inr t' \<and> ok t' \<and> used t' = used t + length kds \<and>
     (\<forall>x. find t' x = (case map_of kds x of Some d \<Rightarrow> Inr (Some d) | None \<Rightarrow> find t x))"
proof (induction kds arbitrary: t)
  case (Cons kd kds)
  obtain k d where kd: "kd = (k, d)" by fastforce
  obtain u where u: "put k d t = Inr u" "ok u" "used u = used t + 1"
    "\<forall>x. find u x = (if x = k then Inr (Some d) else find t x)"
    using put_new [of t k d] Cons.prems kd by auto
  have "\<forall>k \<in> set (map fst kds). find u k = Inr None" using u(4) Cons.prems(2,3) kd by auto
  from Cons.IH [OF u(2) _ this] obtain t' where t': "foldM (\<lambda>(k, d). put k d) kds u = Inr t'" "ok t'"
    "used t' = used u + length kds" "\<forall>x. find t' x = (case map_of kds x of Some d \<Rightarrow> Inr (Some d) | None \<Rightarrow> find u x)"
    using Cons.prems(2,4) kd u(3) by auto
  have "k \<notin> fst ` set kds" using Cons.prems(2) kd by simp
  then have "map_of kds k = None" by (simp add: map_of_eq_None_iff)
  then have "find t' x = (case map_of (kd # kds) x of Some d \<Rightarrow> Inr (Some d) | None \<Rightarrow> find t x)" for x
    using t'(4) u(4) kd by (auto split: option.split)
  then show ?case using t' u kd by auto
qed simp

end

text \<open>The calls of the loaders: the data found, if any, and a lookup followed by an insertion.\<close>

definition hash_data :: "'d hash_table \<Rightarrow> string \<Rightarrow> 'd option res" where
  "hash_data head key = bnd (hash_find head key) (\<lambda>r.
     case r of Inr _ \<Rightarrow> Inr None
     | Inl p \<Rightarrow> bnd (deref (ht_table head)) (\<lambda>tbl. bnd (idx tbl (int p)) (\<lambda>np. Inr (map_option hn_data np))))"

definition find_add :: "string \<Rightarrow> 'd \<Rightarrow> 'd hash_table \<Rightarrow> 'd hash_table res" where
  "find_add key data head = bnd (hash_find head key) (\<lambda>r.
     case r of Inl _ \<Rightarrow> Inl Undefined
     | Inr ins \<Rightarrow> bnd (hash_add ins (Some (key @ [CHR 0x00])) data head) (\<lambda>(_, head). Inr head))"

lemma hash_data_map:
  assumes "ht_ok (crc64b CRC64_INIT) id head"
  shows "hash_data head key = Inr (ht_map id head (key @ [CHR 0x00]))"
proof (cases "ht_map id head (key @ [CHR 0x00])")
  case None
  from hb.find_none [OF assms this] show ?thesis using None
    by (auto simp: hash_data_def hash_find_def hash_findb_eq)
next
  case (Some d)
  from hb.find_some [OF assms this] show ?thesis using Some
    by (auto simp: hash_data_def hash_find_def hash_findb_eq)
qed

interpretation wd: dictionary "ht_ok (crc64b CRC64_INIT) id" hash_data find_add ht_load "2 ^ 58"
proof
  fix head :: "'d hash_table" and key d
  assume ok: "ht_ok (crc64b CRC64_INIT) id head"
  then show "\<exists>r. hash_data head key = Inr r" by (simp add: hash_data_map)
  assume n: "hash_data head key = Inr None" and b: "ht_load head < 2 ^ 58"
  then have m: "ht_map id head (key @ [CHR 0x00]) = None" using hash_data_map [OF ok] by simp
  from hb.find_none [OF ok m] obtain ins where ins: "hash_find head key = Inr (Inr ins)"
    "hb.insert_ok head (key @ [CHR 0x00]) ins" by (auto simp: hash_find_def hash_findb_eq)
  from hb.add_ok [OF ok m ins(2) b, of "Some (key @ [CHR 0x00])" d] obtain p head' where
    r: "hash_add ins (Some (key @ [CHR 0x00])) d head = Inr (p, head')" "ht_ok (crc64b CRC64_INIT) id head'"
    "ht_load head' = ht_load head + 1"
    "\<forall>x. ht_map id head' x = (if id x = id (key @ [CHR 0x00]) then Some d else ht_map id head x)" by blast
  then show "\<exists>t'. find_add key d head = Inr t' \<and> ht_ok (crc64b CRC64_INIT) id t' \<and> ht_load t' = ht_load head + 1 \<and>
      (\<forall>x. hash_data t' x = (if x = key then Inr (Some d) else hash_data head x))"
    using ins(1) by (auto simp: find_add_def hash_data_map ok)
qed

subsection \<open>Properties\<close>

text \<open>
  C18: Looking a key up in a table that satisfies the invariant ends.  It finds a slot of the table
  exactly if the map has the key, and that slot holds the data of the map; this is so for the
  lookup by bytes and for the lookup without regard to case.
\<close>

theorem hash_find_is_lookup:
  assumes "ht_ok (crc64b CRC64_INIT) id head" "ht_ok (crc64ib CRC64_INIT) (map nasm_tolower) head'"
  shows "(case ht_map id head key of
      None \<Rightarrow> \<exists>ins. hash_findb head key = Inr (Inr ins)
    | Some d \<Rightarrow> \<exists>tbl p nd. hash_findb head key = Inr (Inl p) \<and> ht_table head = Some tbl \<and> p < length tbl \<and>
        tbl ! p = Some nd \<and> hn_data nd = d) \<and>
    (case ht_map (map nasm_tolower) head' key of
      None \<Rightarrow> \<exists>ins. hash_findib head' key = Inr (Inr ins)
    | Some d \<Rightarrow> \<exists>tbl p nd. hash_findib head' key = Inr (Inl p) \<and> ht_table head' = Some tbl \<and> p < length tbl \<and>
        tbl ! p = Some nd \<and> hn_data nd = d)"
  using hb.find_none [OF assms(1), of key] hb.find_some [OF assms(1), of key]
    hi.find_none [OF assms(2), of key] hi.find_some [OF assms(2), of key]
  by (auto simp: hash_findb_eq hash_findib_eq split: option.split)

lemma zero_hash_ok: "ht_ok hf canon zero_hash"
  by (simp add: ht_ok_def zero_hash_def)

lemma zero_hash_map: "ht_map canon zero_hash key = None"
  by (simp add: ht_map_def hash_for_each_def hash_for_each_from.simps [of zero_hash 0] hash_iterate_def)
    (simp add: zero_hash_def)

theorem hash_find_is_lookup_witness:
  "(\<exists>ins. hash_findb (zero_hash :: nat hash_table) ''mov'' = Inr (Inr ins)) \<and>
   (\<exists>ins. hash_findib (zero_hash :: nat hash_table) ''mov'' = Inr (Inr ins))"
  using hash_find_is_lookup [OF zero_hash_ok zero_hash_ok, of "''mov''"] by (simp add: zero_hash_map)

text \<open>
  C19: Inserting after a failed lookup keeps the invariant: keys stay unique, every entry stays
  reachable along its probe, and the table is never more than half full, also when the table is
  created or doubled.  The new table is the old map with the new entry, and the returned
  slot holds the data that was given.
\<close>

theorem hash_add_keeps_invariant:
  assumes "ht_ok (crc64b CRC64_INIT) id head" "hash_findb head key = Inr (Inr ins)" "ht_load head < 2 ^ 58"
    "key' = None \<or> key' = Some key"
  shows "\<exists>p head' tbl nd. hash_add ins key' d head = Inr (p, head') \<and> ht_ok (crc64b CRC64_INIT) id head' \<and>
    ht_map id head' = (ht_map id head)(key \<mapsto> d) \<and>
    ht_table head' = Some tbl \<and> p < length tbl \<and> tbl ! p = Some nd \<and> hn_data nd = d"
proof -
  have n: "ht_map id head key = None"
    using hb.find_some [OF assms(1), of key] assms(2) by (cases "ht_map id head key") (auto simp: hash_findb_eq)
  have "hb.insert_ok head key ins" using hb.find_none [OF assms(1) n] assms(2) by (auto simp: hash_findb_eq)
  from hb.add_ok [OF assms(1) n this assms(3,4), of d] show ?thesis by (fastforce simp: fun_eq_iff)
qed

theorem hash_add_keeps_invariant_witness:
  "\<exists>ins p head'. hash_findb (zero_hash :: nat hash_table) ''mov'' = Inr (Inr ins) \<and> hash_add ins None (7 :: nat) zero_hash = Inr (p, head') \<and>
     ht_ok (crc64b CRC64_INIT) id head' \<and> ht_map id head' ''mov'' = Some 7"
proof -
  obtain ins where ins: "hash_findb (zero_hash :: nat hash_table) ''mov'' = Inr (Inr ins)"
    by (auto simp: hash_findb_def hash_find_by_def zero_hash_def Let_def)
  have "ht_load (zero_hash :: nat hash_table) < 2 ^ 58" by (simp add: zero_hash_def)
  from hash_add_keeps_invariant [OF zero_hash_ok ins this, of None 7] obtain p head' where
    r: "hash_add ins None (7 :: nat) zero_hash = Inr (p, head')" "ht_ok (crc64b CRC64_INIT) id head'"
    "ht_map id head' = (ht_map id zero_hash)(''mov'' \<mapsto> 7)" by auto
  then have "ht_map id head' ''mov'' = Some 7" by simp
  with ins r show ?thesis by (intro exI [of _ ins] exI [of _ p] exI [of _ head']) simp
qed

end
