(* ===== verification/Transform.thy ===== *)
theory Transform
  imports Strings Rng
begin

text \<open>
  Reading the numbers of the data files: \<open>nasmlib/transform.c\<close>, \<open>nasm_trim\<close> of
  \<open>nasmlib/string.c\<close>, and the functions of the C library the loaders call (\<open>atoi\<close>, \<open>atof\<close>,
  \<open>strtof\<close>, \<open>strtod\<close>, \<open>strtold\<close>).  The lemmas show that printed numbers are read back, and
  what a packed decimal number is.
\<close>

unbundle bit_operations_syntax

subsection \<open>Hexadecimal numbers\<close>

text \<open>
  The functions accept the letters up to \<open>P\<close>, as they compare with the radix and not with six.
  The sum is kept in an \<open>int\<close>, which wraps in the compiled program.
\<close>

definition ascii_xdigit_value :: "char \<Rightarrow> int" where
  "ascii_xdigit_value ch =
     (if is_dec ch then int (code ch) - 48
      else if 65 \<le> code ch \<and> code ch \<le> 90 \<and> code ch < 65 + 16 then int (code ch) - 65 + 10
      else if 97 \<le> code ch \<and> code ch \<le> 122 \<and> code ch < 97 + 16 then int (code ch) - 97 + 10
      else -1)"

definition skip_head :: "string \<Rightarrow> string" where
  "skip_head hex =
     (case dropWhile (\<lambda>c. c = CHR '' '') hex of
        c # d # rest \<Rightarrow> if c = CHR ''0'' \<and> (d = CHR ''X'' \<or> d = CHR ''x'') then rest else c # d # rest
      | h \<Rightarrow> h)"

definition hex_digits :: "string \<Rightarrow> int list" where
  "hex_digits s = takeWhile (\<lambda>t. t \<noteq> -1) (map ascii_xdigit_value s)"

definition hex2dec :: "string \<Rightarrow> 32 word" where
  "hex2dec hex = foldl (\<lambda>num temp. num * 16 + of_int temp) 0 (hex_digits (skip_head hex))"

definition hex2declong :: "string \<Rightarrow> 64 word" where
  "hex2declong hex = foldl (\<lambda>num temp. num * 16 + of_int temp) 0 (hex_digits (skip_head hex))"

subsection \<open>Packed decimals\<close>

text \<open>
  The digits go from the last character to the first into the low and high halves of the bytes;
  \<open>p\<close> is \<open>bcd_ptr\<close>, and the array has twelve bytes.  Byte 9 is the sign.
\<close>

definition bcd_digit :: "char \<Rightarrow> 8 word" where
  "bcd_digit c = of_nat (code c) - 48"

fun bcd_fill :: "8 word list \<Rightarrow> nat \<Rightarrow> 8 word \<Rightarrow> nat \<Rightarrow> string \<Rightarrow> (8 word list \<times> nat \<times> 8 word) res" where
  "bcd_fill bcd p temp i [] = Inr (bcd, p, temp)"
| "bcd_fill bcd p temp i (c # cs) =
     (if even i then bcd_fill bcd p (temp OR bcd_digit c) (Suc i) cs
      else if p < length bcd then bcd_fill (bcd[p := temp OR push_bit 4 (bcd_digit c)]) (Suc p) 0 (Suc i) cs
      else Inl Undefined)"

definition bcd_word :: "8 word list \<Rightarrow> 96 word" where
  "bcd_word bs = of_nat (foldr (\<lambda>b n. unat b + 256 * n) bs 0)"

text \<open>
  The search for the last character goes back over spaces; if there are none but spaces it leaves
  the string at its start.
\<close>

definition str2bcd :: "string \<Rightarrow> (96 word) res" where
  "str2bcd hex =
     (let s = dropWhile (\<lambda>c. c = CHR '' '') hex;
          neg = (s \<noteq> [] \<and> hd s = CHR ''-'');
          ds = dropWhile (\<lambda>c. c = CHR '' '') (rev (if neg then tl s else s))
      in bnd (guard_res (neg \<or> ds \<noteq> []) Undefined) (\<lambda>_.
         bnd (bcd_fill (replicate 12 0) 0 0 0 ds) (\<lambda>(bcd, p, temp).
         if p < length bcd then Inr (bcd_word ((bcd[p := temp])[9 := if neg then 0x80 else 0]))
         else Inl Undefined)))"

subsection \<open>The environment of the x87 unit\<close>

text \<open>Seven numbers between braces; each goes through a buffer of 64 bytes.\<close>

fun x87_numbers :: "nat \<Rightarrow> string \<Rightarrow> 32 word list res" where
  "x87_numbers 0 hex = Inr []"
| "x87_numbers (Suc n) hex =
     (let num_buffer = takeWhile (\<lambda>c. c \<noteq> CHR ''}'' \<and> c \<noteq> CHR '','') hex in
      case dropWhile (\<lambda>c. c \<noteq> CHR ''}'' \<and> c \<noteq> CHR '','') hex of
        [] \<Rightarrow> Inl Undefined
      | _ # rest \<Rightarrow>
          bnd (guard_res (length num_buffer < 64) Undefined) (\<lambda>_.
          bnd (x87_numbers n rest) (\<lambda>ns. Inr (hex2dec num_buffer # ns))))"

definition str2x87env :: "string \<Rightarrow> 32 word list res" where
  "str2x87env hex =
     (case dropWhile (\<lambda>c. c \<noteq> CHR ''{'') hex of [] \<Rightarrow> Inl Undefined | _ # rest \<Rightarrow> x87_numbers 7 rest)"

subsection \<open>Trimming\<close>

text \<open>
  Leading spaces are skipped.  Trailing ones are looked for in front of the first newline or the
  end; when there are some, the string ends there.  On a text with no character in front of that
  point the search starts in front of the text.
\<close>

definition nasm_trim :: "string \<Rightarrow> string res" where
  "nasm_trim p =
     (let s = dropWhile nasm_isspace p; line = takeWhile (\<lambda>c. code c \<noteq> 10) s;
          kept = rev (dropWhile nasm_isspace (rev line))
      in if line = [] then (if s = p then Inl Undefined else Inr s)
         else Inr (if kept = line then s else kept))"

subsection \<open>The C library\<close>

text \<open>Numbers outside the range of \<open>int\<close> have no defined result.\<close>

definition atoi :: "string \<Rightarrow> int res" where
  "atoi s =
     (let s = dropWhile is_space s;
          neg = (s \<noteq> [] \<and> hd s = CHR ''-'');
          s = (if s \<noteq> [] \<and> hd s \<in> {CHR ''-'', CHR ''+''} then tl s else s);
          n = int (read_numeral 10 (takeWhile is_dec s)); v = (if neg then - n else n)
      in if - (2 ^ 31) \<le> v \<and> v < 2 ^ 31 then Inr v else Inl Undefined)"

text \<open>
  A decimal number: the sign and the rational it denotes.  A text that the library would read as a
  hexadecimal number, an infinity or a NaN stops the model; the data files have none.
\<close>

definition read_exponent :: "string \<Rightarrow> int" where
  "read_exponent s =
     (case s of c # r \<Rightarrow>
        if c \<in> {CHR ''e'', CHR ''E''} then
          let neg = (r \<noteq> [] \<and> hd r = CHR ''-'');
              r = (if r \<noteq> [] \<and> hd r \<in> {CHR ''-'', CHR ''+''} then tl r else r);
              n = int (read_numeral 10 (takeWhile is_dec r))
          in if neg then - n else n
        else 0
      | [] \<Rightarrow> 0)"

definition read_decimal :: "string \<Rightarrow> (bool \<times> rat) res" where
  "read_decimal s =
     (let s = dropWhile is_space s;
          neg = (s \<noteq> [] \<and> hd s = CHR ''-'');
          s = (if s \<noteq> [] \<and> hd s \<in> {CHR ''-'', CHR ''+''} then tl s else s);
          whole = takeWhile is_dec s; r = dropWhile is_dec s;
          point = (r \<noteq> [] \<and> hd r = CHR ''.'');
          frac = (if point then takeWhile is_dec (tl r) else []);
          r = (if point then dropWhile is_dec (tl r) else r)
      in if map nasm_tolower (take 2 s) = ''0x'' \<or> map nasm_tolower (take 3 s) \<in> {''inf'', ''nan''} then Inl Undefined
         else if whole @ frac = [] then Inr (False, 0)
         else Inr (neg, of_nat (read_numeral 10 (whole @ frac)) *
                10 powi (read_exponent r - int (length frac))))"

text \<open>
  Rounding to \<open>p\<close> significant bits, ties to even, where the smallest unit is \<open>2 powi emin\<close>: the
  exponent of the unit and the number of units.
\<close>

definition floor_log2 :: "rat \<Rightarrow> int" where
  "floor_log2 q = (case quotient_of q of (a, b) \<Rightarrow>
     let k = int (floorlog 2 (nat a)) - int (floorlog 2 (nat b)) in if 2 powi k \<le> q then k else k - 1)"

definition round_units :: "nat \<Rightarrow> int \<Rightarrow> rat \<Rightarrow> int \<times> int" where
  "round_units p emin q =
     (if q = 0 then (emin, 0)
      else let e = max emin (floor_log2 q - int p + 1) in (e, round_even (q / 2 powi e)))"

text \<open>
  The encodings.  A number of units that became \<open>2 ^ p\<close> by rounding carries into the exponent; too
  large a number is an infinity.
\<close>

definition ieee_bits :: "nat \<Rightarrow> int \<Rightarrow> nat \<Rightarrow> bool \<times> rat \<Rightarrow> int" where
  "ieee_bits p emin ebits = (\<lambda>(neg, q). case round_units p emin q of (e, m) \<Rightarrow>
     (if neg then 2 ^ (ebits + p - 1) else 0) +
     min ((e - emin) * 2 ^ (p - 1) + m) ((2 ^ ebits - 1) * 2 ^ (p - 1)))"

definition strtof :: "string \<Rightarrow> (32 word) res" where
  "strtof s = bnd (read_decimal s) (\<lambda>x. Inr (of_int (ieee_bits 24 (-149) 8 x)))"

definition strtod :: "string \<Rightarrow> (64 word) res" where
  "strtod s = bnd (read_decimal s) (\<lambda>x. Inr (of_int (ieee_bits 53 (-1074) 11 x)))"

text \<open>The extended format has the leading bit in the low word: the low and the high word.\<close>

definition strtold :: "string \<Rightarrow> (64 word \<times> 16 word) res" where
  "strtold s = bnd (read_decimal s) (\<lambda>(neg, q).
     case round_units 64 (-16445) q of (e, m) \<Rightarrow>
     let m' = (if m = 2 ^ 64 then 2 ^ 63 else m);
         ef = (if m < 2 ^ 63 then 0 else e + 16445 + (if m = 2 ^ 64 then 2 else 1));
         inf = 32767 \<le> ef
     in Inr (of_int (if inf then 2 ^ 63 else m'), of_int ((if neg then 2 ^ 15 else 0) + (if inf then 32767 else ef))))"

text \<open>As a rational; an infinity is outside the model.\<close>

definition atof :: "string \<Rightarrow> double res" where
  "atof s = bnd (read_decimal s) (\<lambda>(neg, q).
     case round_units 53 (-1074) q of (e, m) \<Rightarrow>
     let x = of_int m * 2 powi e in
     if x < 2 ^ 1024 then Inr (if neg then - x else x) else Inl Undefined)"


subsection \<open>Reading printed numbers\<close>

lemma xdigit_digit_char: "d < 16 \<Longrightarrow> ascii_xdigit_value (digit_char d) = int d"
  by (auto simp: ascii_xdigit_value_def digit_char_def is_dec_def of_char_of)

lemma xdigits_numeral: "\<forall>t \<in> set (map ascii_xdigit_value (numeral_string 16 n)). t \<noteq> -1"
proof (induction "16::nat" n rule: numeral_string.induct)
  case (1 n)
  then show ?case by (subst numeral_string.simps) (auto simp: xdigit_digit_char)
qed

lemma foldl_numeral:
  "foldl (\<lambda>num temp. num * 16 + of_int temp) 0 (map ascii_xdigit_value (numeral_string 16 n)) = (of_nat n :: 'a :: ring_1)"
proof (induction "16::nat" n rule: numeral_string.induct)
  case (1 n)
  show ?case
  proof (cases "n < 16")
    case True
    then show ?thesis by (subst numeral_string.simps) (simp add: xdigit_digit_char)
  next
    case False
    have "(of_nat (n div 16) * 16 + of_nat (n mod 16) :: 'a) = of_nat (n div 16 * 16 + n mod 16)"
      by (simp only: of_nat_add of_nat_mult of_nat_numeral)
    also have "\<dots> = of_nat n" by (simp only: div_mult_mod_eq)
    finally show ?thesis using 1 False by (subst numeral_string.simps) (simp add: xdigit_digit_char)
  qed
qed

lemma skip_head_prefixed: "skip_head (replicate n (CHR '' '') @ ''0x'' @ s) = s"
proof -
  have "dropWhile (\<lambda>c. c = CHR '' '') (replicate n (CHR '' '') @ ''0x'' @ s) = ''0x'' @ s" by (induction n) auto
  then show ?thesis by (simp add: skip_head_def)
qed

lemma hex_digits_printed:
  "hex_digits (numeral_string 16 k @ replicate m (CHR '' '')) = map ascii_xdigit_value (numeral_string 16 k)"
proof -
  have "ascii_xdigit_value (CHR '' '') = -1" by (simp add: ascii_xdigit_value_def is_dec_def)
  then have "takeWhile (\<lambda>t. t \<noteq> -1) (replicate m (ascii_xdigit_value (CHR '' ''))) = []" by (cases m) auto
  moreover have "takeWhile (\<lambda>t. t \<noteq> -1) (map ascii_xdigit_value (numeral_string 16 k) @ ys) =
      map ascii_xdigit_value (numeral_string 16 k) @ takeWhile (\<lambda>t. t \<noteq> -1) ys" for ys
    using xdigits_numeral [of k] by (intro takeWhile_append2) blast
  ultimately show ?thesis by (simp only: hex_digits_def map_append map_replicate append_Nil2)
qed

subsection \<open>Packed decimals\<close>

text \<open>What the loop makes of the digits, two at a time.\<close>

fun bcd_pack :: "string \<Rightarrow> 8 word list" where
  "bcd_pack (c # d # cs) = (bcd_digit c OR push_bit 4 (bcd_digit d)) # bcd_pack cs"
| "bcd_pack [c] = [bcd_digit c]"
| "bcd_pack [] = [0]"

lemma length_bcd_pack: "length (bcd_pack cs) = length cs div 2 + 1"
  by (induction cs rule: bcd_pack.induct) auto

lemma bcd_fill_pack:
  "length dn + length (bcd_pack cs) \<le> 12 \<Longrightarrow>
   \<exists>p temp. bcd_fill (dn @ replicate (12 - length dn) 0) (length dn) 0 (2 * length dn) cs =
       Inr (dn @ butlast (bcd_pack cs) @ replicate (12 - length dn - (length (bcd_pack cs) - 1)) 0, p, temp) \<and>
     p = length dn + length (bcd_pack cs) - 1 \<and> temp = last (bcd_pack cs)"
proof (induction cs arbitrary: "dn" rule: bcd_pack.induct)
  case (1 c d cs)
  let ?b = "bcd_digit c OR push_bit 4 (bcd_digit d)"
  have l: "length dn < 12" using 1(2) by simp
  have ne: "bcd_pack cs \<noteq> []" using length_bcd_pack [of cs] by auto
  have "replicate (12 - length dn) 0 = (0 :: 8 word) # replicate (12 - length (dn @ [?b])) 0"
    using l by (simp flip: replicate_Suc add: Suc_diff_Suc)
  then have "(dn @ replicate (12 - length dn) 0)[length dn := ?b] = (dn @ [?b]) @ replicate (12 - length (dn @ [?b])) 0"
    by (simp only: list_update_length append_assoc append_Cons append_Nil)
  then have "bcd_fill (dn @ replicate (12 - length dn) 0) (length dn) 0 (2 * length dn) (c # d # cs) =
      bcd_fill ((dn @ [?b]) @ replicate (12 - length (dn @ [?b])) 0) (length (dn @ [?b])) 0 (2 * length (dn @ [?b])) cs"
    using l by simp
  then show ?case using 1(1) [of "dn @ [?b]"] 1(2) ne by (simp add: length_bcd_pack)
qed auto


definition bytes_val :: "8 word list \<Rightarrow> nat" where
  "bytes_val bs = foldr (\<lambda>b n. unat b + 256 * n) bs 0"

lemma bytes_val_simps [simp]: "bytes_val [] = 0" "bytes_val (b # bs) = unat b + 256 * bytes_val bs"
  by (simp_all add: bytes_val_def)

lemma bytes_val_append: "bytes_val (xs @ ys) = bytes_val xs + 256 ^ length xs * bytes_val ys"
  by (induction xs) (simp_all add: algebra_simps)

lemma bytes_val_zeros [simp]: "bytes_val (replicate n 0) = 0"
  by (induction n) auto

lemma bcd_halves: "\<forall>k \<in> set [0..<10]. \<forall>l \<in> set [0..<10]. unat ((of_nat k :: 8 word) OR push_bit 4 (of_nat l)) = k + 16 * l"
  by code_simp

lemma bcd_digit_val: "is_dec c \<Longrightarrow> bcd_digit c = of_nat (digit_val c)" "is_dec c \<Longrightarrow> digit_val c < 10"
  by (auto simp: bcd_digit_def is_dec_def digit_val_def of_nat_diff)

lemma bytes_val_pack:
  "(\<forall>c \<in> set cs. is_dec c) \<Longrightarrow> bytes_val (bcd_pack cs) = read_numeral 16 (rev cs)"
proof (induction cs rule: bcd_pack.induct)
  case (1 c d cs)
  have "unat (bcd_digit c OR push_bit 4 (bcd_digit d)) = digit_val c + 16 * digit_val d"
    using bcd_halves bcd_digit_val 1(2) by simp
  then show ?case using 1 by (simp add: read_numeral_def)
next
  case (2 c)
  then show ?case using bcd_digit_val(2) [of c] by (simp add: read_numeral_def bcd_digit_val(1) unat_of_nat)
qed (simp add: read_numeral_def)

lemma last_bcd_pack: "even (length cs) \<Longrightarrow> last (bcd_pack cs) = 0"
proof (induction cs rule: bcd_pack.induct)
  case (1 c d cs)
  then have "bcd_pack cs \<noteq> []" using length_bcd_pack [of cs] by auto
  then show ?case using 1 by simp
qed auto

lemma bcd_bound: "(\<forall>c \<in> set ds. is_dec c) \<Longrightarrow> read_numeral 16 ds < 16 ^ length ds"
proof (induction ds rule: rev_induct)
  case (snoc c ds)
  then have "read_numeral 16 ds < 16 ^ length ds" "digit_val c < 16" using bcd_digit_val(2) [of c] by auto
  then show ?case by (simp add: read_numeral_def)
qed (simp add: read_numeral_def)

lemma dropWhile_spaces: "dropWhile (\<lambda>c. c = CHR '' '') (replicate n (CHR '' '') @ s) = dropWhile (\<lambda>c. c = CHR '' '') s"
  by (induction n) auto

text \<open>
  C38: A decimal number of at most 18 digits, with spaces around it and perhaps a minus sign, becomes
  the packed decimal with these digits: its nine low bytes read in base 16 are the digits, the tenth
  is the sign, and the others are zero.
\<close>

theorem str2bcd_packs:
  assumes "\<forall>c \<in> set ds. is_dec c" "ds \<noteq> []" "length ds \<le> 18"
  shows "\<exists>bcd. str2bcd (replicate n (CHR '' '') @ (if neg then ''-'' else []) @ ds @ replicate m (CHR '' '')) = Inr bcd \<and>
    unat bcd = read_numeral 16 ds + (if neg then 0x80 * 256 ^ 9 else 0)"
proof -
  let ?pk = "bcd_pack (rev ds)" let ?k = "length ds div 2"
  define sg where "sg = (if neg then 0x80 else 0 :: 8 word)"
  have dec: "c \<noteq> CHR '' ''" "c \<noteq> CHR ''-''" if "c \<in> set ds" for c using assms(1) that by (auto simp: is_dec_def)
  then have h: "hd ds \<noteq> CHR '' ''" "hd ds \<noteq> CHR ''-''" "last ds \<noteq> CHR '' ''" using assms(2) by auto
  let ?s = "(if neg then ''-'' else []) @ ds @ replicate m (CHR '' '')"
  have s: "dropWhile (\<lambda>c. c = CHR '' '') ?s = ?s" using h assms(2) by (cases ds) auto
  have r: "dropWhile (\<lambda>c. c = CHR '' '') (rev (ds @ replicate m (CHR '' ''))) = rev ds"
    using h(3) assms(2) by (cases ds rule: rev_cases) (auto simp: dropWhile_spaces)
  have l: "length ?pk = ?k + 1" by (simp add: length_bcd_pack)
  obtain p temp where f: "bcd_fill (replicate 12 0) 0 0 0 (rev ds) =
      Inr (butlast ?pk @ replicate (12 - ?k) 0, p, temp)" "p = ?k" "temp = last ?pk"
    using bcd_fill_pack [of "[]" "rev ds"] l assms(3) by auto
  have pk: "butlast ?pk @ [last ?pk] = ?pk" using l by (intro append_butlast_last_id) auto
  have z: "replicate (12 - ?k) 0 = (0 :: 8 word) # replicate (11 - ?k) 0"
    using assms(3) by (simp flip: replicate_Suc add: Suc_diff_le)
  have upd: "(butlast ?pk @ replicate (12 - ?k) 0)[?k := last ?pk] = ?pk @ replicate (11 - ?k) 0"
    using pk l unfolding z by (metis append_Cons append_Nil append_assoc diff_add_inverse2 length_butlast list_update_length)
  let ?bs = "?pk @ replicate (11 - ?k) 0"
  have d9: "drop 9 ?bs = replicate 3 0"
  proof (cases "length ds = 18")
    case True
    then have "?pk = butlast ?pk @ [0]" using last_bcd_pack [of "rev ds"] pk by simp
    moreover have "length (butlast ?pk) = 9" using l True by simp
    ultimately have "drop 9 ?pk = [0]" by (metis append_eq_conv_conj)
    moreover have "replicate 2 (0 :: 8 word) = [0, 0]" "replicate 3 (0 :: 8 word) = [0, 0, 0]" by code_simp+
    ultimately show ?thesis using l True by simp
  next
    case False
    then have "?k + 1 \<le> 9" using assms(3) by linarith
    then show ?thesis using l by simp
  qed
  have len: "length ?bs = 12" using l assms(3) by simp
  then have t9: "length (take 9 ?bs) = 9" by simp
  have "?bs = take 9 ?bs @ replicate 3 0" using d9 by (metis append_take_drop_id)
  then have "?bs = take 9 ?bs @ 0 # [0, 0]" by (simp only: numeral_3_eq_3 replicate.simps)
  then obtain t where t: "?bs = t @ 0 # [0, 0]" "length t = 9" using t9 by blast
  then have "?bs[9 := sg] = t @ sg # [0, 0]" by (metis list_update_length)
  then have v: "bytes_val (?bs[9 := sg]) = bytes_val ?bs + 256 ^ 9 * unat sg"
    unfolding t(1) by (simp only: bytes_val_append bytes_val_simps unat_0 mult_0_right add_0_right t(2))
  have "bytes_val ?bs = read_numeral 16 ds" using assms(1) by (simp add: bytes_val_append bytes_val_pack)
  then have v': "bytes_val (?bs[9 := sg]) = read_numeral 16 ds + (if neg then 0x80 * 256 ^ 9 else 0)"
    using v by (simp add: sg_def)
  have "read_numeral 16 ds < 16 ^ 18" using bcd_bound [OF assms(1)] power_increasing [OF assms(3), of "16 :: nat"] by simp
  then have "bytes_val (?bs[9 := sg]) < 2 ^ 96" unfolding v' by simp
  moreover have "unat (bcd_word bs) = bytes_val bs" if "bytes_val bs < 2 ^ 96" for bs
    using that unfolding bcd_word_def bytes_val_def by (simp add: unsigned_of_nat take_bit_nat_eq_self)
  ultimately have "unat (bcd_word (?bs[9 := sg])) = read_numeral 16 ds + (if neg then 0x80 * 256 ^ 9 else 0)"
    using v' by metis
  moreover have "str2bcd (replicate n (CHR '' '') @ ?s) = Inr (bcd_word (?bs[9 := sg]))"
  proof -
    have a: "dropWhile (\<lambda>c. c = CHR '' '') (replicate n (CHR '' '') @ ?s) = ?s" using s by (simp only: dropWhile_spaces)
    have b: "(?s \<noteq> [] \<and> hd ?s = CHR ''-'') = neg" using h assms(2) by (cases neg) auto
    have c: "(if neg then tl ?s else ?s) = ds @ replicate m (CHR '' '')" by simp
    have d: "guard_res (neg \<or> rev ds \<noteq> []) Undefined = Inr ()" using assms(2) by (simp add: guard_res_def)
    have "?k < length (butlast ?pk @ replicate (12 - ?k) (0 :: 8 word))" using l assms(3) by simp
    then show ?thesis unfolding str2bcd_def Let_def a b c r d f sg_def [symmetric]
      by (simp only: bnd.simps prod.case upd if_True)
  qed
  ultimately show ?thesis by blast
qed


theorem str2bcd_packs_witness:
  "\<exists>bcd. str2bcd ''-12'' = Inr bcd \<and> unat bcd = 0x12 + 0x80 * 256 ^ 9"
  using str2bcd_packs [of "''12''" 0 True 0] by (simp add: is_dec_def read_numeral_def digit_val_def)

text \<open>
  C37: A 32-bit or 64-bit value that was printed in hexadecimal is read back, with spaces in front
  and behind, for every value.
\<close>

theorem hex_reads_printed:
  "hex2dec (replicate n (CHR '' '') @ ''0x'' @ fmt_x w @ replicate m (CHR '' '')) = w \<and>
   hex2declong (replicate n (CHR '' '') @ ''0x'' @ numeral_string 16 (unat v) @ replicate m (CHR '' '')) = v"
  by (simp only: hex2dec_def hex2declong_def fmt_x_def skip_head_prefixed hex_digits_printed foldl_numeral of_nat_unat ucast_id
    simp_thms)

end
