(* ===== verification/ParseXml.thy ===== *)
theory ParseXml
  imports Transform HashTbl Tmplt
begin

text \<open>
  Loading the data files: \<open>xmlparser/parseTKs.c\<close> (constant groups and testing knowledge),
  \<open>xmlparser/parseTmplt.c\<close> (instruction groups and templates) and \<open>xmlparser/parseLib.c\<close>.  Reading a
  file and parsing its XML is libxml2's part: a parameter gives the top-level nodes of the
  document with a name.
\<close>

subsection \<open>Documents\<close>

text \<open>An element with its attributes and children, or a node of another kind with its content.\<close>

datatype xml =
    Elem string "(string \<times> string) list" "xml list"
  | Other string

definition is_elem :: "xml \<Rightarrow> bool" where
  "is_elem x = (case x of Elem _ _ _ \<Rightarrow> True | Other _ \<Rightarrow> False)"

definition getElemsSize :: "xml list \<Rightarrow> nat" where
  "getElemsSize nodes = length (filter is_elem nodes)"

definition children :: "xml \<Rightarrow> xml list" where
  "children x = (case x of Elem _ _ ch \<Rightarrow> ch | Other _ \<Rightarrow> [])"

definition elem_name :: "xml \<Rightarrow> string" where
  "elem_name x = (case x of Elem name _ _ \<Rightarrow> name | Other _ \<Rightarrow> '''')"

definition xmlGetProp :: "xml \<Rightarrow> string \<Rightarrow> string option" where
  "xmlGetProp x name = (case x of Elem _ attrs _ \<Rightarrow> map_of attrs name | Other _ \<Rightarrow> None)"

text \<open>\<open>node->children->content\<close>: a null pointer without children, or when the first is an element.\<close>

definition first_content :: "xml \<Rightarrow> string res" where
  "first_content x = (case children x of Other s # _ \<Rightarrow> Inr s | _ \<Rightarrow> Inl Undefined)"

text \<open>
  The state of the loaders: the hash tables, the variable \<open>trv_state\<close> of \<open>parseTmplt.c\<close>, the
  variables of the blocks, how many blocks and traversal states there are, and the template.
  \<open>nonfatal\<close> counts the calls of \<open>nasm_nonfatal\<close>, which only print.
\<close>

record loader =
  hash_wdtrees :: "wd_node hash_table"
  hash_tks :: "wd_root list hash_table"
  ld_trv_state :: "(nat \<times> wd_root list) option"
  ld_vars :: "nat \<Rightarrow> blk_var list"
  ld_blks :: nat
  ld_trvs :: nat
  ld_tmpltm :: "blk option"
  nonfatal :: nat

text \<open>
  The calls \<open>hash_find\<close> and \<open>hash_add\<close> with the record \<open>hi\<close> between them: the lookup fills it in when it
  fails, and the insertion uses it in any case.  \<open>None\<close> is a record that was never filled in.
\<close>

definition add_named ::
  "string \<Rightarrow> 'd \<Rightarrow> hash_insert option \<times> 'd hash_table \<Rightarrow> (hash_insert option \<times> 'd hash_table) res" where
  "add_named key data st = (case st of (hi, head) \<Rightarrow>
     bnd (hash_find head key) (\<lambda>r.
     let hi = (case r of Inr ins \<Rightarrow> Some ins | Inl _ \<Rightarrow> hi) in
     bnd (deref hi) (\<lambda>ins.
     bnd (hash_add ins (Some (key @ [CHR 0x00])) data head) (\<lambda>(_, head). Inr (hi, head)))))"

subsection \<open>Constant groups\<close>

text \<open>Writing the members of the union; the bytes a member does not cover stay.\<close>

definition set_imm32 :: "32 word \<Rightarrow> const_node \<Rightarrow> const_node" where
  "set_imm32 w n = n\<lparr>cn_union := (cn_union n AND NOT (mask 32)) OR ucast w\<rparr>"

definition set_imm64 :: "64 word \<Rightarrow> const_node \<Rightarrow> const_node" where
  "set_imm64 w n = n\<lparr>cn_union := (cn_union n AND NOT (mask 64)) OR ucast w\<rparr>"

definition parse_const :: "string \<Rightarrow> string \<Rightarrow> const_node \<Rightarrow> const_node res" where
  "parse_const cNodeName cNodeContent n =
     (if cNodeName = ''Immf'' then
        bnd (strtof cNodeContent) (\<lambda>f. bnd (strtod cNodeContent) (\<lambda>d. bnd (strtold cNodeContent) (\<lambda>(lo, hi).
        Inr (n\<lparr>cn_type := CONST_FLOAT, float32 := f, float64 := d, float80_low := lo, float80_high := hi\<rparr>))))
      else if cNodeName = ''Imm64'' then Inr (set_imm64 (hex2declong cNodeContent) (n\<lparr>cn_type := CONST_IMM64\<rparr>))
      else if cNodeName = ''Mmx'' then Inr (set_imm64 (hex2declong cNodeContent) n)
      else if cNodeName = ''Bcd'' then
        bnd (str2bcd cNodeContent) (\<lambda>b. Inr (n\<lparr>cn_type := CONST_BCD, cn_union := b\<rparr>))
      else if cNodeName = ''Float32i'' then Inr (set_imm32 (hex2dec cNodeContent) (n\<lparr>cn_type := CONST_FLOAT32I\<rparr>))
      else if cNodeName = ''Float32f'' then
        bnd (strtof cNodeContent) (\<lambda>f. Inr (n\<lparr>cn_type := CONST_FLOAT32F, float32 := f\<rparr>))
      else if cNodeName = ''Float64i'' then
        Inr (set_imm64 (ucast (hex2dec cNodeContent)) (n\<lparr>cn_type := CONST_FLOAT64I\<rparr>))
      else if cNodeName = ''Float64f'' then
        bnd (strtod cNodeContent) (\<lambda>d. Inr (n\<lparr>cn_type := CONST_FLOAT64F, float64 := d\<rparr>))
      else if cNodeName = ''X87env'' then
        bnd (str2x87env cNodeContent) (\<lambda>env. Inr (n\<lparr>cn_type := CONST_X87ENV, WdTree.const_node.x87env := env\<rparr>))
      else Inr (set_imm32 (hex2dec cNodeContent) (n\<lparr>cn_type := CONST_IMM32\<rparr>)))"

text \<open>
  The constants of a group, in one variable \<open>val_node\<close> that goes from constant to constant and
  from group to group; at the start of the file it holds whatever \<open>val_node\<close> is given.
\<close>

definition parse_constants :: "xml list \<Rightarrow> const_node \<Rightarrow> (const_node list \<times> const_node) res" where
  "parse_constants cNodes val_node =
     foldM (\<lambda>cNode (cs, val_node).
       bnd (first_content cNode) (\<lambda>content.
       bnd (parse_const (elem_name cNode) content val_node) (\<lambda>val_node. Inr (cs @ [val_node], val_node))))
       (filter is_elem cNodes) ([], val_node)"

definition parseCGs :: "const_node \<Rightarrow> xml \<Rightarrow> loader \<Rightarrow> loader res" where
  "parseCGs val_node cgsNode ld =
     bnd (foldM (\<lambda>cgNode (val_node, st).
            bnd (parse_constants (children cgNode) val_node) (\<lambda>(cs, val_node).
            bnd (deref (xmlGetProp cgNode ''name'')) (\<lambda>key.
            bnd (add_named key (WdNode True (getElemsSize (children cgNode)) [] [] cs) st) (\<lambda>st.
            Inr (val_node, st)))))
          (filter is_elem (children cgsNode)) (val_node, None, hash_wdtrees ld)) (\<lambda>(_, _, tbl).
     Inr (ld\<lparr>hash_wdtrees := tbl\<rparr>))"

subsection \<open>Testing knowledge\<close>

text \<open>A weighted choice between named groups, of an operand or of a select block.\<close>

definition named_group :: "loader \<Rightarrow> string option \<Rightarrow> wd_node res" where
  "named_group ld key = bnd (deref key) (\<lambda>key. bnd (hash_data (hash_wdtrees ld) key) deref)"

definition weighted_groups :: "string \<Rightarrow> loader \<Rightarrow> xml list \<Rightarrow> (int list \<times> wd_node list) res" where
  "weighted_groups key_attr ld nodes =
     foldM (\<lambda>nNode (weights, sub_nodes).
       bnd (deref (xmlGetProp nNode ''weight'')) (\<lambda>propWeight.
       bnd (atoi propWeight) (\<lambda>weight.
       bnd (named_group ld (xmlGetProp nNode key_attr)) (\<lambda>sub.
       Inr (weights @ [weight], sub_nodes @ [sub])))))
       (filter is_elem nodes) ([], [])"

definition parseOpndTK :: "loader \<Rightarrow> xml \<Rightarrow> wd_node res" where
  "parseOpndTK ld tkNode =
     bnd (weighted_groups ''name'' ld (children tkNode)) (\<lambda>(weights, sub_nodes).
     Inr (WdNode False (getElemsSize (children tkNode)) weights sub_nodes []))"

definition opnd_tree :: "loader \<Rightarrow> string option \<Rightarrow> xml \<Rightarrow> wd_root res" where
  "opnd_tree ld prop_packedn node =
     bnd (case prop_packedn of None \<Rightarrow> Inr 1 | Some s \<Rightarrow> atoi s) (\<lambda>packed.
     bnd (parseOpndTK ld node) (\<lambda>n. Inr \<lparr>packedn = packed, root_node = Some n\<rparr>))"

text \<open>The first child without an operand makes the whole element one tree, and ends the loop.\<close>

fun parseInstTK :: "loader \<Rightarrow> xml \<Rightarrow> xml list \<Rightarrow> wd_root list \<Rightarrow> wd_root list res" where
  "parseInstTK ld tkNode [] tk_trees = Inr tk_trees"
| "parseInstTK ld tkNode (opndNode # rest) tk_trees =
     (if \<not> is_elem opndNode then parseInstTK ld tkNode rest tk_trees
      else let prop_packedn = xmlGetProp opndNode ''packedn'' in
        case xmlGetProp opndNode ''opnd'' of
          None \<Rightarrow> bnd (opnd_tree ld prop_packedn tkNode) (\<lambda>t. Inr (tk_trees @ [t]))
        | Some _ \<Rightarrow> bnd (opnd_tree ld prop_packedn opndNode) (\<lambda>t. parseInstTK ld tkNode rest (tk_trees @ [t])))"

definition parseTKs :: "xml \<Rightarrow> loader \<Rightarrow> loader res" where
  "parseTKs tksNode ld =
     bnd (foldM (\<lambda>tkNode st.
            bnd (parseInstTK ld tkNode (children tkNode) []) (\<lambda>tk_trees.
            bnd (deref (xmlGetProp tkNode ''inst'')) (\<lambda>key. add_named key tk_trees st)))
          (filter is_elem (children tksNode)) (None, hash_tks ld)) (\<lambda>(_, tbl).
     Inr (ld\<lparr>hash_tks := tbl\<rparr>))"

text \<open>
  A file of the testing knowledge.  A document whose first node is not an element is passed over,
  as is, with a message, a root element with another name and a file that cannot be read.
\<close>

definition parse_tks_file :: "(string \<Rightarrow> xml list option) \<Rightarrow> const_node \<Rightarrow> string \<Rightarrow> loader \<Rightarrow> loader res" where
  "parse_tks_file docs val_node fname ld =
     (case docs fname of None \<Rightarrow> Inr (ld\<lparr>nonfatal := nonfatal ld + 1\<rparr>)
      | Some [] \<Rightarrow> Inl Undefined
      | Some (node # _) \<Rightarrow>
          if is_elem node then
            if elem_name node = ''ConstGroups'' then parseCGs val_node node ld
            else if elem_name node = ''TestingKnowledges'' then parseTKs node ld
            else Inr (ld\<lparr>nonfatal := nonfatal ld + 1\<rparr>)
          else Inr ld)"

definition tks_xmlfiles :: "string list" where
  "tks_xmlfiles =
     [''fixedpointConsts.xml'', ''fixedpointTK.xml'', ''floatpointConsts.xml'', ''floatpointTK.xml'',
      ''mmxConsts.xml'', ''mmxTK.xml'', ''sseConsts.xml'', ''sseTK.xml'', ''sse2Consts.xml'', ''sse2TK.xml'']"

text \<open>File names go through a buffer of 1024 bytes.\<close>

definition file_name :: "string \<Rightarrow> string \<Rightarrow> string res" where
  "file_name path name =
     (let fname = path @ ''/'' @ name in if length fname < 1024 then Inr fname else Inl Undefined)"

definition init_tks :: "(string \<Rightarrow> xml list option) \<Rightarrow> const_node \<Rightarrow> string \<Rightarrow> loader \<Rightarrow> loader res" where
  "init_tks docs val_node tk_tmplt_path ld =
     foldM (\<lambda>f ld. bnd (file_name tk_tmplt_path f) (\<lambda>fname. parse_tks_file docs val_node fname ld)) tks_xmlfiles ld"


subsection \<open>Instruction groups\<close>

definition asm_op_node :: "string \<Rightarrow> const_node" where
  "asm_op_node op = \<lparr>cn_type = CONST_ASM_OP, cn_union = 0, asm_op = op, float32 = 0, float64 = 0,
     float80_low = 0, float80_high = 0, x87env = []\<rparr>"

definition parse_group :: "xml \<Rightarrow> wd_node res" where
  "parse_group groupNode =
     bnd (foldM (\<lambda>iNode cs.
            bnd (first_content iNode) (\<lambda>content. bnd (nasm_trim content) (\<lambda>op. Inr (cs @ [asm_op_node op]))))
          (filter is_elem (children groupNode)) []) (\<lambda>cs.
     Inr (WdNode True (getElemsSize (children groupNode)) [] [] cs))"

definition parseGroups :: "xml \<Rightarrow> loader \<Rightarrow> loader res" where
  "parseGroups groupsNode ld =
     bnd (foldM (\<lambda>groupNode tbl.
            bnd (parse_group groupNode) (\<lambda>inst_group_node.
            bnd (deref (xmlGetProp groupNode ''name'')) (\<lambda>key.
            bnd (add_named key inst_group_node (None, tbl)) (\<lambda>(_, tbl). Inr tbl))))
          (filter is_elem (children groupsNode)) (hash_wdtrees ld)) (\<lambda>tbl.
     Inr (ld\<lparr>hash_wdtrees := tbl\<rparr>))"

subsection \<open>Templates\<close>

definition trimmed :: "string option \<Rightarrow> string res" where
  "trimmed p = bnd (deref p) nasm_trim"

text \<open>A block is allocated with the next number; its variables are none.\<close>

definition new_blk :: "loader \<Rightarrow> nat \<times> loader" where
  "new_blk ld = (ld_blks ld, ld\<lparr>ld_blks := ld_blks ld + 1, ld_vars := (ld_vars ld)(ld_blks ld := [])\<rparr>)"

definition parseSelBlk :: "xml \<Rightarrow> loader \<Rightarrow> wd_root res" where
  "parseSelBlk selNode ld =
     bnd (weighted_groups ''type'' ld (children selNode)) (\<lambda>(weights, sub_nodes).
     Inr \<lparr>packedn = 1, root_node = Some (WdNode False (getElemsSize (children selNode)) weights sub_nodes [])\<rparr>)"

definition parse_times :: "string option \<Rightarrow> int res" where
  "parse_times prop_times = (case prop_times of None \<Rightarrow> Inr 0 | Some s \<Rightarrow> atoi s)"

definition parseV :: "xml \<Rightarrow> nat \<Rightarrow> loader \<Rightarrow> loader res" where
  "parseV VNode b ld =
     bnd (deref (xmlGetProp VNode ''var'')) (\<lambda>name.
     bnd (deref (xmlGetProp VNode ''type'')) (\<lambda>ty.
     Inr (ld\<lparr>ld_vars := (ld_vars ld)(b := ld_vars ld b @ [init_blk_var name ty])\<rparr>)))"

definition parse_inip :: "string option \<Rightarrow> double res" where
  "parse_inip prop_inip = (case prop_inip of None \<Rightarrow> Inr 0 | Some s \<Rightarrow> atof s)"

definition parseG :: "xml \<Rightarrow> loader \<Rightarrow> elem res" where
  "parseG GNode ld =
     bnd (trimmed (xmlGetProp GNode ''type'')) (\<lambda>g_type.
     bnd (named_group ld (Some g_type)) (\<lambda>g_tree.
     bnd (parse_inip (xmlGetProp GNode ''inip'')) (\<lambda>inip.
     Inr (GElem inip \<lparr>packedn = 1, root_node = Some g_tree\<rparr>))))"

definition parseC :: "xml \<Rightarrow> elem res" where
  "parseC CNode = bnd (trimmed (xmlGetProp CNode ''type'')) (\<lambda>c_type. Inr (CElem (Some c_type)))"

text \<open>What the lookups of the testing knowledge find.\<close>

definition tk_lookup :: "loader \<Rightarrow> string \<Rightarrow> wd_root list option" where
  "tk_lookup ld name = (case hash_data (hash_tks ld) name of Inr t \<Rightarrow> t | Inl _ \<Rightarrow> None)"

definition parseI :: "tables \<Rightarrow> gen \<Rightarrow> xml \<Rightarrow> loader \<Rightarrow> (elem \<times> loader) res" where
  "parseI T g INode ld =
     bnd (trimmed (xmlGetProp INode ''type'')) (\<lambda>asm_inst.
     bnd (parse_inip (xmlGetProp INode ''inip'')) (\<lambda>inip.
     bnd (case xmlGetProp INode ''trv'' of None \<Rightarrow> Inr False
          | Some s \<Rightarrow> bnd (nasm_trim s) (\<lambda>s. Inr (s = ''true''))) (\<lambda>trv.
     if trv then
       bnd (create_trv_state T asm_inst (g\<lparr>tk_models := tk_lookup ld\<rparr>)) (\<lambda>trees.
       let k = ld_trvs ld in
       Inr (IElem 1 asm_inst (Some k), ld\<lparr>ld_trv_state := Some (k, trees), ld_trvs := k + 1\<rparr>))
     else Inr (IElem inip asm_inst None, ld))))"

definition supported :: "string list" where
  "supported = [''sequence'', ''select'', ''transfer'', ''repeat'', ''traverse'', ''G'', ''C'', ''I'']"

text \<open>
  A node among the children of block \<open>b\<close>: a variable goes to the block, other elements become
  blocks of their own.
\<close>

fun parse_node :: "tables \<Rightarrow> gen \<Rightarrow> nat \<Rightarrow> xml \<Rightarrow> loader \<Rightarrow> (blk list \<times> loader) res"
  and parseBlk :: "tables \<Rightarrow> gen \<Rightarrow> nat \<Rightarrow> xml list \<Rightarrow> loader \<Rightarrow> (blk list \<times> loader) res"
where
  "parse_node T g b (Other s) ld = Inr ([], ld)"
| "parse_node T g b (Elem blk_name attrs ch) ld =
     (if blk_name = ''V'' then bnd (parseV (Elem blk_name attrs ch) b ld) (\<lambda>ld. Inr ([], ld))
      else let (n, ld) = new_blk ld in
        if blk_name = ''sequence'' then bnd (parseBlk T g n ch ld) (\<lambda>(blks, ld). Inr ([SeqBlk n blks], ld))
        else if blk_name = ''select'' then
          bnd (parseSelBlk (Elem blk_name attrs ch) ld) (\<lambda>tree. Inr ([SelBlk n tree], ld))
        else if blk_name = ''transfer'' then
          bnd (parse_times (map_of attrs ''times'')) (\<lambda>n_times.
          bnd (trimmed (map_of attrs ''type'')) (\<lambda>ttt_op.
          bnd (parseBlk T g n ch ld) (\<lambda>(blks, ld). Inr ([TttBlk n ttt_op n_times blks], ld))))
        else if blk_name = ''repeat'' then
          bnd (bnd (deref (map_of attrs ''times'')) atoi) (\<lambda>n_times.
          bnd (parseBlk T g n ch ld) (\<lambda>(blks, ld). Inr ([RptBlk n n_times blks], ld)))
        else if blk_name = ''traverse'' then
          bnd (parseBlk T g n ch ld) (\<lambda>(blks, ld).
          Inr ([TrvBlk n (ld_trv_state ld) blks], ld\<lparr>ld_trv_state := None\<rparr>))
        else if blk_name = ''G'' then bnd (parseG (Elem blk_name attrs ch) ld) (\<lambda>e. Inr ([ElemBlk n e], ld))
        else if blk_name = ''C'' then bnd (parseC (Elem blk_name attrs ch)) (\<lambda>e. Inr ([ElemBlk n e], ld))
        else if blk_name = ''I'' then bnd (parseI T g (Elem blk_name attrs ch) ld) (\<lambda>(e, ld). Inr ([ElemBlk n e], ld))
        else Inl Fatal)"
| "parseBlk T g b [] ld = Inr ([], ld)"
| "parseBlk T g b (blkNode # rest) ld =
     bnd (parse_node T g b blkNode ld) (\<lambda>(blks, ld).
     bnd (parseBlk T g b rest ld) (\<lambda>(blks', ld). Inr (blks @ blks', ld)))"

definition parseTmplts :: "tables \<Rightarrow> gen \<Rightarrow> xml \<Rightarrow> loader \<Rightarrow> loader res" where
  "parseTmplts T g tmpltsNode ld =
     (let (n, ld) = new_blk ld in
      bnd (parseBlk T g n (children tmpltsNode) ld) (\<lambda>(blks, ld). Inr (ld\<lparr>ld_tmpltm := Some (SeqBlk n blks)\<rparr>)))"

definition parse_tmplts_file ::
  "tables \<Rightarrow> gen \<Rightarrow> (string \<Rightarrow> xml list option) \<Rightarrow> string \<Rightarrow> loader \<Rightarrow> loader res" where
  "parse_tmplts_file T g docs fname ld =
     (case docs fname of None \<Rightarrow> Inl Fatal
      | Some nodes \<Rightarrow>
          (case dropWhile (\<lambda>x. \<not> is_elem x) nodes of [] \<Rightarrow> Inr ld
           | node # _ \<Rightarrow>
               if elem_name node = ''InsnGroups'' then parseGroups node ld
               else if elem_name node = ''Template'' then parseTmplts T g node ld
               else Inl Fatal))"

definition tmplts_xmlfiles :: "string list" where
  "tmplts_xmlfiles = [''insn-group.xml'', ''flag-pattern-group.xml'']"

definition init_tmplts :: "tables \<Rightarrow> gen \<Rightarrow> (string \<Rightarrow> xml list option) \<Rightarrow> string \<Rightarrow> loader \<Rightarrow> loader res" where
  "init_tmplts T g docs group_tmplt_path ld =
     foldM (\<lambda>f ld. bnd (file_name group_tmplt_path f) (\<lambda>fname. parse_tmplts_file T g docs fname ld)) tmplts_xmlfiles ld"

text \<open>The state before any file is loaded.\<close>

definition zero_loader :: loader where
  "zero_loader = \<lparr>hash_wdtrees = zero_hash, hash_tks = zero_hash, ld_trv_state = None, ld_vars = (\<lambda>_. []),
     ld_blks = 0, ld_trvs = 0, ld_tmpltm = None, nonfatal = 0\<rparr>"


subsection \<open>What a loaded dictionary holds\<close>

text \<open>Every value in the table has the property \<open>Q\<close>; the lemma is the effect of loading a file of named entries.\<close>

definition dict_holds :: "('d \<Rightarrow> bool) \<Rightarrow> 'd hash_table \<Rightarrow> bool" where
  "dict_holds Q head \<longleftrightarrow> ht_ok (crc64b CRC64_INIT) id head \<and> (\<forall>k d. hash_data head k = Inr (Some d) \<longrightarrow> Q d)"

lemma dict_holds_zero: "dict_holds Q zero_hash"
  by (simp add: dict_holds_def zero_hash_ok hash_data_map zero_hash_map)

lemma add_named_new:
  assumes "ht_ok (crc64b CRC64_INIT) id head" "hash_data head key = Inr None" "add_named key d (hi, head) = Inr (hi', head')"
  shows "find_add key d head = Inr head'"
proof -
  have "ht_map id head (key @ [CHR 0x00]) = None" using assms(1,2) by (simp add: hash_data_map)
  from hb.find_none [OF assms(1) this] obtain ins where "hash_find head key = Inr (Inr ins)"
    by (auto simp: hash_find_def hash_findb_eq)
  then show ?thesis using assms(3) by (auto simp: add_named_def find_add_def)
qed

lemma add_named_holds:
  assumes "dict_holds Q head" "hash_data head key = Inr None" "ht_load head < 2 ^ 58" "Q d"
    "add_named key d (hi, head) = Inr (hi', head')"
  shows "dict_holds Q head' \<and> ht_load head' = ht_load head + 1 \<and>
    (\<forall>x. hash_data head' x = (if x = key then Inr (Some d) else hash_data head x))"
proof -
  have ok: "ht_ok (crc64b CRC64_INIT) id head" using assms(1) by (simp add: dict_holds_def)
  from wd.put_new [OF ok assms(2,3), of d] add_named_new [OF ok assms(2,5)] obtain t where
    "t = head'" "ht_ok (crc64b CRC64_INIT) id t" "ht_load t = ht_load head + 1"
    "\<forall>x. hash_data t x = (if x = key then Inr (Some d) else hash_data head x)" by auto
  then show ?thesis using assms(1,4) by (auto simp: dict_holds_def)
qed

lemma foldM_adds:
  assumes step: "\<And>x s s'. x \<in> set xs \<Longrightarrow> f x s = Inr s' \<Longrightarrow>
      \<exists>k d hi hi'. nm x = Some k \<and> Q d \<and> add_named k d (hi, tab s) = Inr (hi', tab s')"
  shows "foldM f xs s = Inr s' \<Longrightarrow> dict_holds Q (tab s) \<Longrightarrow> distinct (map nm xs) \<Longrightarrow>
    (\<forall>x \<in> set xs. \<forall>k. nm x = Some k \<longrightarrow> hash_data (tab s) k = Inr None) \<Longrightarrow> ht_load (tab s) + length xs \<le> 2 ^ 58 \<Longrightarrow>
    dict_holds Q (tab s') \<and>
    (\<forall>k. if Some k \<in> nm ` set xs then (\<exists>d. hash_data (tab s') k = Inr (Some d)) else hash_data (tab s') k = hash_data (tab s) k)"
  using step
proof (induction xs arbitrary: s)
  case (Cons x xs)
  obtain u where u: "f x s = Inr u" "foldM f xs u = Inr s'" using Cons.prems(1) by auto
  obtain k d hi hi' where k: "nm x = Some k" "Q d" "add_named k d (hi, tab s) = Inr (hi', tab u)"
    using Cons.prems(6) [OF _ u(1)] by auto
  have n: "hash_data (tab s) k = Inr None" using Cons.prems(4) k(1) by simp
  have l: "ht_load (tab s) < 2 ^ 58" using Cons.prems(5) by simp
  note h = add_named_holds [OF Cons.prems(2) n l k(2,3)]
  have fresh: "\<forall>y \<in> set xs. \<forall>c. nm y = Some c \<longrightarrow> hash_data (tab u) c = Inr None"
    using Cons.prems(3,4) h k(1) by (auto simp: image_iff)
  have "dict_holds Q (tab s') \<and>
    (\<forall>c. if Some c \<in> nm ` set xs then (\<exists>d. hash_data (tab s') c = Inr (Some d)) else hash_data (tab s') c = hash_data (tab u) c)"
    using Cons.prems(3,5,6) h by (intro Cons.IH [OF u(2) _ _ fresh]) auto
  moreover have "Some k \<notin> nm ` set xs" using Cons.prems(3) k(1) by force
  ultimately show ?case using h k(1) by auto
qed simp

lemma foldM_append_length:
  assumes "\<And>x acc acc'. f x acc = Inr acc' \<Longrightarrow> length (out acc') = Suc (length (out acc))"
  shows "foldM f xs acc = Inr acc' \<Longrightarrow> length (out acc') = length (out acc) + length xs"
proof (induction xs arbitrary: acc)
  case (Cons x xs)
  then obtain u where u: "f x acc = Inr u" "foldM f xs u = Inr acc'" by auto
  show ?case using Cons.IH [OF u(2)] assms [OF u(1)] by simp
qed simp

lemma parse_constants_length: "parse_constants nodes v = Inr (cs, v') \<Longrightarrow> length cs = getElemsSize nodes"
  unfolding parse_constants_def getElemsSize_def
  by (drule foldM_append_length [where out = fst, rotated]) auto

lemma parse_group_ok: "parse_group x = Inr n \<Longrightarrow> wd_ok n"
  unfolding parse_group_def getElemsSize_def
  by (auto dest!: foldM_append_length [where out = "\<lambda>x. x", rotated])

subsection \<open>Weighted choices\<close>

text \<open>The weights written in the file: what the selection needs of them.\<close>

definition choice_ok :: "xml list \<Rightarrow> bool" where
  "choice_ok nodes \<longleftrightarrow>
     (let ws = map (\<lambda>x. case xmlGetProp x ''weight'' of Some s \<Rightarrow> (case atoi s of Inr w \<Rightarrow> w | Inl _ \<Rightarrow> 0) | None \<Rightarrow> 0)
            (filter is_elem nodes)
      in ws = [] \<or> (\<forall>w \<in> set ws. 0 \<le> w) \<and> sum_list ws = 100)"

lemma weighted_groups_spec:
  assumes "weighted_groups a ld nodes = Inr (ws, subs)" "dict_holds wd_ok (hash_wdtrees ld)"
  shows "ws = map (\<lambda>x. case xmlGetProp x ''weight'' of Some s \<Rightarrow> (case atoi s of Inr w \<Rightarrow> w | Inl _ \<Rightarrow> 0) | None \<Rightarrow> 0)
      (filter is_elem nodes) \<and> length subs = getElemsSize nodes \<and> list_all wd_ok subs"
proof -
  define f where "f = (\<lambda>nNode (weights :: int list, sub_nodes :: wd_node list).
       bnd (deref (xmlGetProp nNode ''weight'')) (\<lambda>propWeight.
       bnd (atoi propWeight) (\<lambda>weight.
       bnd (named_group ld (xmlGetProp nNode a)) (\<lambda>sub.
       Inr (weights @ [weight], sub_nodes @ [sub])))))"
  have "foldM f xs (w0, s0) = Inr (ws, subs) \<Longrightarrow> list_all wd_ok s0 \<Longrightarrow>
      ws = w0 @ map (\<lambda>x. case xmlGetProp x ''weight'' of Some s \<Rightarrow> (case atoi s of Inr w \<Rightarrow> w | Inl _ \<Rightarrow> 0) | None \<Rightarrow> 0) xs \<and>
      length subs = length s0 + length xs \<and> list_all wd_ok subs" for xs w0 s0
  proof (induction xs arbitrary: w0 s0)
    case (Cons x xs)
    then obtain s w sub k where u: "xmlGetProp x ''weight'' = Some s" "atoi s = Inr w"
      "hash_data (hash_wdtrees ld) k = Inr (Some sub)"
      "foldM f xs (w0 @ [w], s0 @ [sub]) = Inr (ws, subs)"
      by (auto simp: f_def named_group_def)
    have "wd_ok sub" using assms(2) u(3) by (auto simp: dict_holds_def)
    then show ?case using Cons.IH [OF u(4)] Cons.prems(2) u by simp
  qed simp
  from this [of "filter is_elem nodes" "[]" "[]"] show ?thesis
    using assms(1) by (simp add: weighted_groups_def f_def getElemsSize_def)
qed

lemma weighted_groups_ok:
  assumes "weighted_groups a ld nodes = Inr (ws, subs)" "dict_holds wd_ok (hash_wdtrees ld)" "choice_ok nodes"
  shows "wd_ok (WdNode False (getElemsSize nodes) ws subs [])"
  using weighted_groups_spec [OF assms(1,2)] assms(3) by (auto simp: choice_ok_def Let_def getElemsSize_def)


subsection \<open>Loading groups and knowledge\<close>

definition root_ok :: "wd_root \<Rightarrow> bool" where
  "root_ok t \<longleftrightarrow> (\<exists>n. root_node t = Some n \<and> wd_ok n)"

definition loader_ok :: "loader \<Rightarrow> bool" where
  "loader_ok ld \<longleftrightarrow> dict_holds wd_ok (hash_wdtrees ld) \<and> dict_holds (list_all root_ok) (hash_tks ld)"

text \<open>The names in a file are different, the table has none of them, and it has room for them.\<close>

definition new_names :: "string \<Rightarrow> 'd hash_table \<Rightarrow> xml list \<Rightarrow> bool" where
  "new_names a head xs \<longleftrightarrow> distinct (map (\<lambda>x. xmlGetProp x a) xs) \<and>
     (\<forall>x \<in> set xs. \<forall>k. xmlGetProp x a = Some k \<longrightarrow> hash_data head k = Inr None) \<and> ht_load head + length xs \<le> 2 ^ 58"

definition tk_choices_ok :: "xml \<Rightarrow> bool" where
  "tk_choices_ok tkNode \<longleftrightarrow> (\<forall>opndNode \<in> set (filter is_elem (children tkNode)).
     choice_ok (children (if xmlGetProp opndNode ''opnd'' = None then tkNode else opndNode)))"

lemma parseOpndTK_ok:
  "parseOpndTK ld x = Inr n \<Longrightarrow> dict_holds wd_ok (hash_wdtrees ld) \<Longrightarrow> choice_ok (children x) \<Longrightarrow> wd_ok n"
  using weighted_groups_ok by (auto simp: parseOpndTK_def)

lemma opnd_tree_ok:
  "opnd_tree ld p x = Inr t \<Longrightarrow> dict_holds wd_ok (hash_wdtrees ld) \<Longrightarrow> choice_ok (children x) \<Longrightarrow> root_ok t"
  using parseOpndTK_ok by (auto simp: opnd_tree_def root_ok_def)

lemma parseInstTK_ok:
  "parseInstTK ld tk nodes ts = Inr ts' \<Longrightarrow> dict_holds wd_ok (hash_wdtrees ld) \<Longrightarrow> list_all root_ok ts \<Longrightarrow>
   (\<forall>x \<in> set (filter is_elem nodes). choice_ok (children (if xmlGetProp x ''opnd'' = None then tk else x))) \<Longrightarrow>
   list_all root_ok ts'"
proof (induction ld tk nodes ts rule: parseInstTK.induct)
  case (2 ld tk x rest ts)
  then show ?case using opnd_tree_ok
    by (cases "is_elem x"; cases "xmlGetProp x ''opnd''") (auto simp: Let_def)
qed simp

text \<open>The new table finds the entries of the file, and whatever the old one found otherwise.\<close>

definition extends :: "string \<Rightarrow> xml list \<Rightarrow> 'd hash_table \<Rightarrow> 'd hash_table \<Rightarrow> bool" where
  "extends a xs head head' \<longleftrightarrow> (\<forall>k. if Some k \<in> (\<lambda>x. xmlGetProp x a) ` set xs
     then (\<exists>d. hash_data head' k = Inr (Some d)) else hash_data head' k = hash_data head k)"

lemma load_entries:
  assumes "foldM f xs s = Inr s'" "dict_holds Q (tab s)" "new_names a (tab s) xs"
    and step: "\<forall>x \<in> set xs. \<forall>s s'. f x s = Inr s' \<longrightarrow>
      (\<exists>k d hi hi'. xmlGetProp x a = Some k \<and> Q d \<and> add_named k d (hi, tab s) = Inr (hi', tab s'))"
  shows "dict_holds Q (tab s') \<and> extends a xs (tab s) (tab s')"
proof -
  have "\<exists>k d hi hi'. xmlGetProp x a = Some k \<and> Q d \<and> add_named k d (hi, tab s) = Inr (hi', tab s')"
    if "x \<in> set xs" "f x s = Inr s'" for x s s' using step that by blast
  from foldM_adds [where nm = "\<lambda>x. xmlGetProp x a" and f = f and tab = tab and Q = Q, OF this assms(1,2)] show ?thesis
    using assms(3) by (simp add: extends_def new_names_def)
qed

lemma parseCGs_ok:
  assumes "parseCGs v node ld = Inr ld'" "dict_holds wd_ok (hash_wdtrees ld)"
    "new_names ''name'' (hash_wdtrees ld) (filter is_elem (children node))"
  shows "dict_holds wd_ok (hash_wdtrees ld') \<and> hash_tks ld' = hash_tks ld \<and>
    extends ''name'' (filter is_elem (children node)) (hash_wdtrees ld) (hash_wdtrees ld')"
proof -
  let ?f = "\<lambda>cgNode (val_node, st). bnd (parse_constants (children cgNode) val_node) (\<lambda>(cs, val_node).
            bnd (deref (xmlGetProp cgNode ''name'')) (\<lambda>key.
            bnd (add_named key (WdNode True (getElemsSize (children cgNode)) [] [] cs) st) (\<lambda>st.
            Inr (val_node, st))))"
  obtain v' hi tbl where r: "foldM ?f (filter is_elem (children node)) (v, None, hash_wdtrees ld) = Inr (v', hi, tbl)"
    "ld' = ld\<lparr>hash_wdtrees := tbl\<rparr>" using assms(1) by (auto simp: parseCGs_def)
  have s: "\<forall>x \<in> set (filter is_elem (children node)). \<forall>s s'. ?f x s = Inr s' \<longrightarrow> (\<exists>k d hi hi'. xmlGetProp x ''name'' = Some k \<and> wd_ok d \<and> add_named k d (hi, snd (snd s)) = Inr (hi', snd (snd s')))"
  proof (intro ballI allI impI)
    fix x s s' assume x: "x \<in> set (filter is_elem (children node))" and run: "?f x s = Inr s'"
    obtain w hi tbl where st: "s = (w, hi, tbl)" by (cases s)
    obtain cs w' k hi' tbl' where c: "parse_constants (children x) w = Inr (cs, w')" "xmlGetProp x ''name'' = Some k"
      "add_named k (WdNode True (getElemsSize (children x)) [] [] cs) (hi, tbl) = Inr (hi', tbl')" "s' = (w', hi', tbl')"
      using run st by auto
    have "wd_ok (WdNode True (getElemsSize (children x)) [] [] cs)" using parse_constants_length [OF c(1)] by simp
    then show "\<exists>k d hi hi'. xmlGetProp x ''name'' = Some k \<and> wd_ok d \<and> add_named k d (hi, snd (snd s)) = Inr (hi', snd (snd s'))"
      using st c(2-4) by (intro exI conjI) simp_all
  qed
  from load_entries [where f = ?f and tab = "\<lambda>s. snd (snd s)" and a = "''name''" and Q = "wd_ok", OF r(1) _ _ s]
  show ?thesis using assms(2,3) r(2) by (simp add: loader_ok_def)
qed

lemma parseGroups_ok:
  assumes "parseGroups node ld = Inr ld'" "dict_holds wd_ok (hash_wdtrees ld)"
    "new_names ''name'' (hash_wdtrees ld) (filter is_elem (children node))"
  shows "dict_holds wd_ok (hash_wdtrees ld') \<and> hash_tks ld' = hash_tks ld \<and>
    extends ''name'' (filter is_elem (children node)) (hash_wdtrees ld) (hash_wdtrees ld')"
proof -
  let ?f = "\<lambda>groupNode tbl. bnd (parse_group groupNode) (\<lambda>inst_group_node.
            bnd (deref (xmlGetProp groupNode ''name'')) (\<lambda>key.
            bnd (add_named key inst_group_node (None, tbl)) (\<lambda>(_, tbl). Inr tbl)))"
  obtain tbl where r: "foldM ?f (filter is_elem (children node)) (hash_wdtrees ld) = Inr tbl"
    "ld' = ld\<lparr>hash_wdtrees := tbl\<rparr>" using assms(1) by (auto simp: parseGroups_def)
  have s: "\<forall>x \<in> set (filter is_elem (children node)). \<forall>s s'. ?f x s = Inr s' \<longrightarrow> (\<exists>k d hi hi'. xmlGetProp x ''name'' = Some k \<and> wd_ok d \<and> add_named k d (hi, s) = Inr (hi', s'))"
    by (auto dest!: parse_group_ok)
  from load_entries [where f = ?f and tab = "\<lambda>s. s" and a = "''name''" and Q = "wd_ok", OF r(1) _ _ s]
  show ?thesis using assms(2,3) r(2) by (simp add: loader_ok_def)
qed

lemma parseTKs_ok:
  assumes "parseTKs node ld = Inr ld'" "loader_ok ld"
    "new_names ''inst'' (hash_tks ld) (filter is_elem (children node))"
    "\<forall>tk \<in> set (filter is_elem (children node)). tk_choices_ok tk"
  shows "dict_holds (list_all root_ok) (hash_tks ld') \<and> hash_wdtrees ld' = hash_wdtrees ld \<and>
    extends ''inst'' (filter is_elem (children node)) (hash_tks ld) (hash_tks ld')"
proof -
  let ?f = "\<lambda>tkNode st. bnd (parseInstTK ld tkNode (children tkNode) []) (\<lambda>tk_trees.
            bnd (deref (xmlGetProp tkNode ''inst'')) (\<lambda>key. add_named key tk_trees st))"
  obtain hi tbl where r: "foldM ?f (filter is_elem (children node)) (None, hash_tks ld) = Inr (hi, tbl)"
    "ld' = ld\<lparr>hash_tks := tbl\<rparr>" using assms(1) by (auto simp: parseTKs_def)
  have d: "dict_holds wd_ok (hash_wdtrees ld)" using assms(2) by (simp add: loader_ok_def)
  have s: "\<forall>x \<in> set (filter is_elem (children node)). \<forall>s s'. ?f x s = Inr s' \<longrightarrow> (\<exists>k d hi hi'. xmlGetProp x ''inst'' = Some k \<and> list_all root_ok d \<and> add_named k d (hi, snd s) = Inr (hi', snd s'))"
  proof (intro ballI allI impI)
    fix x s s' assume x: "x \<in> set (filter is_elem (children node))" and run: "?f x s = Inr s'"
    obtain ts k where ts: "parseInstTK ld x (children x) [] = Inr ts" "xmlGetProp x ''inst'' = Some k" "add_named k ts s = Inr s'"
      using run by auto
    have "list_all root_ok ts" using parseInstTK_ok [OF ts(1) d] assms(4) x by (simp add: tk_choices_ok_def)
    then show "\<exists>k d hi hi'. xmlGetProp x ''inst'' = Some k \<and> list_all root_ok d \<and> add_named k d (hi, snd s) = Inr (hi', snd s')"
      using ts(2,3) by (cases s; cases s') auto
  qed
  from load_entries [where f = ?f and tab = snd and a = "''inst''" and Q = "list_all root_ok", OF r(1) _ _ s]
  show ?thesis using assms(2,3) r(2) by (simp add: loader_ok_def)
qed


subsection \<open>Blocks of a loaded template\<close>

text \<open>The numbers of a block and of all blocks in it, outer ones first, and the trees it selects from.\<close>

fun blk_nos :: "blk \<Rightarrow> nat list" where
  "blk_nos (SeqBlk n blks) = n # concat (map blk_nos blks)"
| "blk_nos (SelBlk n tree) = [n]"
| "blk_nos (TttBlk n ttt_op k blks) = n # concat (map blk_nos blks)"
| "blk_nos (RptBlk n k blks) = n # concat (map blk_nos blks)"
| "blk_nos (TrvBlk n trv blks) = n # concat (map blk_nos blks)"
| "blk_nos (ElemBlk n e) = [n]"

fun blk_trees :: "blk \<Rightarrow> wd_root list" where
  "blk_trees (SeqBlk n blks) = concat (map blk_trees blks)"
| "blk_trees (SelBlk n tree) = [tree]"
| "blk_trees (TttBlk n ttt_op k blks) = concat (map blk_trees blks)"
| "blk_trees (RptBlk n k blks) = concat (map blk_trees blks)"
| "blk_trees (TrvBlk n trv blks) = concat (map blk_trees blks)"
| "blk_trees (ElemBlk n e) = (case e of GElem _ tree \<Rightarrow> [tree] | _ \<Rightarrow> [])"

text \<open>The elements that may stand where a block is expected, and the weights of the select blocks.\<close>

fun statements_ok :: "xml \<Rightarrow> bool" where
  "statements_ok (Other s) = True"
| "statements_ok (Elem name attrs ch) \<longleftrightarrow> name = ''V'' \<or> name \<in> set supported \<and>
     (name \<in> {''sequence'', ''transfer'', ''repeat'', ''traverse''} \<longrightarrow> (\<forall>x \<in> set ch. statements_ok x))"

fun selects_ok :: "xml \<Rightarrow> bool" where
  "selects_ok (Other s) = True"
| "selects_ok (Elem name attrs ch) \<longleftrightarrow> (name = ''select'' \<longrightarrow> choice_ok ch) \<and> (\<forall>x \<in> set ch. selects_ok x)"

text \<open>What loading statements does to the loader: it counts the blocks and leaves the tables as they are.\<close>

definition loaded :: "loader \<Rightarrow> blk list \<Rightarrow> loader \<Rightarrow> bool" where
  "loaded ld blks ld' \<longleftrightarrow> ld_blks ld \<le> ld_blks ld' \<and> concat (map blk_nos blks) = [ld_blks ld..<ld_blks ld'] \<and>
     hash_wdtrees ld' = hash_wdtrees ld \<and> hash_tks ld' = hash_tks ld"

lemma loaded_same: "ld_blks ld' = ld_blks ld \<Longrightarrow> hash_wdtrees ld' = hash_wdtrees ld \<Longrightarrow> hash_tks ld' = hash_tks ld \<Longrightarrow>
    loaded ld [] ld'"
  by (simp add: loaded_def)

lemma loaded_append:
  assumes "loaded ld bs1 ld1" "loaded ld1 bs2 ld2"
  shows "loaded ld (bs1 @ bs2) ld2"
  using assms upt_add_eq_append [of "ld_blks ld" "ld_blks ld1" "ld_blks ld2 - ld_blks ld1"] by (auto simp: loaded_def)

lemma loaded_blk:
  assumes "new_blk ld = (n, ld1)" "loaded ld1 bs ld2" "blk_nos b = n # concat (map blk_nos bs)"
  shows "loaded ld [b] ld2"
  using assms by (auto simp: new_blk_def loaded_def upt_conv_Cons)

lemma parseV_loaded: "parseV x b ld = Inr ld' \<Longrightarrow> loaded ld [] ld'"
  by (auto simp: parseV_def loaded_def)

lemma parseI_loaded: "parseI T g x ld = Inr (e, ld') \<Longrightarrow> loaded ld [] ld'"
  by (auto simp: parseI_def Let_def loaded_def split: if_splits)

lemma loaded_trv: "loaded ld bs ld' \<Longrightarrow> loaded ld bs (ld'\<lparr>ld_trv_state := t\<rparr>)"
  by (simp add: loaded_def)

text \<open>
  The tree of a block it can be built from, and the property of its trees, go through the loader
  by induction on the element.
\<close>

lemma parseBlk_induct:
  assumes "\<And>x b ld bs ld'. x \<in> set xs \<Longrightarrow> parse_node T g b x ld = Inr (bs, ld') \<Longrightarrow> loaded ld bs ld'"
  shows "parseBlk T g b xs ld = Inr (bs, ld') \<Longrightarrow> loaded ld bs ld'"
  using assms
proof (induction xs arbitrary: ld bs ld')
  case Nil
  then show ?case by (simp add: loaded_same)
next
  case (Cons x xs)
  then obtain cs ld1 ds where p: "parse_node T g b x ld = Inr (cs, ld1)" "parseBlk T g b xs ld1 = Inr (ds, ld')" "bs = cs @ ds"
    by auto
  have "loaded ld cs ld1" using Cons.prems(2) [OF _ p(1)] by simp
  moreover have "loaded ld1 ds ld'" by (rule Cons.IH [OF p(2)]) (blast intro: Cons.prems(2) list.set_intros(2))
  ultimately show ?case using p(3) loaded_append by blast
qed

lemma parse_node_loaded: "parse_node T g b x ld = Inr (bs, ld') \<Longrightarrow> loaded ld bs ld'"
proof (induction x arbitrary: b ld bs ld')
  case (Other s)
  then show ?case by (simp add: loaded_same)
next
  case (Elem name attrs ch)
  obtain n ld1 where n: "new_blk ld = (n, ld1)" by fastforce
  have ch: "parseBlk T g m ch l = Inr (cs, l') \<Longrightarrow> loaded l cs l'" for m l cs l'
    using Elem.IH by (rule parseBlk_induct)
  have blks: "loaded ld [SeqBlk n cs] l'" "loaded ld [TttBlk n t k cs] l'" "loaded ld [RptBlk n k cs] l'"
    "loaded ld [TrvBlk n trv cs] (l'\<lparr>ld_trv_state := st\<rparr>)" if "parseBlk T g n ch ld1 = Inr (cs, l')" for cs l' t k trv st
    using loaded_blk [OF n ch [OF that]] by (simp_all add: loaded_trv)
  have leaf: "loaded ld [SelBlk n t] l'" "loaded ld [ElemBlk n e] l'" if "loaded ld1 [] l'" for t e l'
    using loaded_blk [OF n that] by simp_all
  show ?case
  proof (cases "name = ''V''")
    case True
    then show ?thesis using Elem.prems parseV_loaded by auto
  next
    case False
    then show ?thesis using Elem.prems n
      by (auto simp: Let_def split: if_splits intro: blks leaf [OF loaded_same] leaf [OF parseI_loaded])
  qed
qed


lemma named_group_ok: "named_group ld k = Inr n \<Longrightarrow> dict_holds wd_ok (hash_wdtrees ld) \<Longrightarrow> wd_ok n"
  by (auto simp: named_group_def dict_holds_def)

lemma parseSelBlk_ok:
  "parseSelBlk (Elem name attrs ch) ld = Inr t \<Longrightarrow> dict_holds wd_ok (hash_wdtrees ld) \<Longrightarrow> choice_ok ch \<Longrightarrow> root_ok t"
  using weighted_groups_ok by (auto simp: parseSelBlk_def children_def root_ok_def)

lemma parseBlk_trees:
  assumes "\<And>x b ld bs ld'. x \<in> set xs \<Longrightarrow> parse_node T g b x ld = Inr (bs, ld') \<Longrightarrow> dict_holds wd_ok (hash_wdtrees ld) \<Longrightarrow>
      list_all root_ok (concat (map blk_trees bs))"
  shows "parseBlk T g b xs ld = Inr (bs, ld') \<Longrightarrow> dict_holds wd_ok (hash_wdtrees ld) \<Longrightarrow> list_all root_ok (concat (map blk_trees bs))"
  using assms
proof (induction xs arbitrary: ld bs ld')
  case (Cons x xs)
  then obtain cs ld1 ds where p: "parse_node T g b x ld = Inr (cs, ld1)" "parseBlk T g b xs ld1 = Inr (ds, ld')" "bs = cs @ ds"
    by auto
  have "hash_wdtrees ld1 = hash_wdtrees ld" using parse_node_loaded [OF p(1)] by (simp add: loaded_def)
  then have d: "dict_holds wd_ok (hash_wdtrees ld1)" using Cons.prems(2) by simp
  have "list_all root_ok (concat (map blk_trees cs))" using Cons.prems(3) [OF _ p(1) Cons.prems(2)] by simp
  moreover have "list_all root_ok (concat (map blk_trees ds))"
    by (rule Cons.IH [OF p(2) d]) (blast intro: Cons.prems(3) list.set_intros(2))
  ultimately show ?case using p(3) by simp
qed simp

lemma parse_node_trees:
  "parse_node T g b x ld = Inr (bs, ld') \<Longrightarrow> dict_holds wd_ok (hash_wdtrees ld) \<Longrightarrow> selects_ok x \<Longrightarrow>
   list_all root_ok (concat (map blk_trees bs))"
proof (induction x arbitrary: b ld bs ld')
  case (Elem name attrs ch)
  obtain n ld1 where n: "new_blk ld = (n, ld1)" by fastforce
  then have d: "dict_holds wd_ok (hash_wdtrees ld1)" using Elem.prems(2) by (auto simp: new_blk_def)
  have ch: "list_all root_ok (concat (map blk_trees cs))" if "parseBlk T g n ch ld1 = Inr (cs, l')" for cs l'
    by (rule parseBlk_trees [OF _ that d]) (use Elem.IH Elem.prems(3) in auto)
  have sel: "root_ok t" if "parseSelBlk (Elem name attrs ch) ld1 = Inr t" "name = ''select''" for t
    using parseSelBlk_ok [OF that(1) d] Elem.prems(3) that(2) by simp
  have g: "list_all root_ok (blk_trees (ElemBlk n e))" if "parseG (Elem name attrs ch) ld1 = Inr e" for e
    using that d named_group_ok by (auto simp: parseG_def root_ok_def)
  show ?case
  proof (cases "name = ''V''")
    case True
    then show ?thesis using Elem.prems by auto
  next
    case False
    then show ?thesis using Elem.prems(1) n ch sel g
      by (auto simp: Let_def parseC_def parseI_def split: if_splits)
  qed
qed simp

subsection \<open>Unsupported elements\<close>

definition no_fatal :: "'a res \<Rightarrow> bool" where
  "no_fatal m \<longleftrightarrow> m \<noteq> Inl Fatal"

lemma no_fatal_simps [simp]: "no_fatal (Inr x)" "no_fatal (Inl e) \<longleftrightarrow> e \<noteq> Fatal" "no_fatal (deref p)" "no_fatal (idx xs i)"
  "no_fatal (guard_res b Undefined)"
  by (auto simp: no_fatal_def deref_def idx_def guard_res_def split: option.splits)

lemma no_fatal_bnd: "no_fatal m \<Longrightarrow> (\<And>x. no_fatal (f x)) \<Longrightarrow> no_fatal (bnd m f)"
  by (cases m) (auto simp: no_fatal_def)

lemma no_fatal_foldM: "(\<And>x s. no_fatal (f x s)) \<Longrightarrow> no_fatal (foldM f xs s)"
  by (induction xs arbitrary: s) (auto intro: no_fatal_bnd)

lemma no_fatal_cases: "no_fatal a \<Longrightarrow> no_fatal b \<Longrightarrow> no_fatal (if c then a else b)"
  "(\<And>x y. no_fatal (f x y)) \<Longrightarrow> no_fatal (case p of (x, y) \<Rightarrow> f x y)"
  "no_fatal a \<Longrightarrow> (\<And>x. no_fatal (h x)) \<Longrightarrow> no_fatal (case q of None \<Rightarrow> a | Some x \<Rightarrow> h x)"
  by (auto split: prod.splits option.splits)

lemmas no_fatal_intros = no_fatal_bnd no_fatal_foldM no_fatal_cases

lemma no_fatal_find: "no_fatal (hash_data head k)"
proof -
  have "no_fatal (hash_probe n M tbl inc msk p)" for n M tbl inc msk p
    by (induction n arbitrary: p) (auto intro!: no_fatal_bnd split: option.splits)
  then show ?thesis
    by (auto simp: hash_data_def hash_find_def hash_findb_def hash_find_by_def Let_def
      intro!: no_fatal_bnd split: option.splits sum.splits)
qed

lemma no_fatal_numbers: "no_fatal (atoi s)" "no_fatal (atof s)" "no_fatal (nasm_trim s)" "no_fatal (trimmed p)"
  "no_fatal (parse_times p)" "no_fatal (parse_inip p)"
proof -
  show a: "no_fatal (atoi s)" for s by (simp add: atoi_def Let_def)
  have "no_fatal (read_decimal s)" for s
    unfolding read_decimal_def Let_def by (intro no_fatal_cases) simp_all
  then show b: "no_fatal (atof s)" for s
    unfolding atof_def Let_def by (intro no_fatal_intros) simp_all
  show c: "no_fatal (nasm_trim s)" for s
    unfolding nasm_trim_def Let_def by (intro no_fatal_cases) simp_all
  show "no_fatal (trimmed p)" unfolding trimmed_def by (intro no_fatal_intros c) simp
  show "no_fatal (parse_times p)" unfolding parse_times_def by (intro no_fatal_intros a) simp
  show "no_fatal (parse_inip p)" unfolding parse_inip_def by (intro no_fatal_intros b) simp
qed

lemma no_fatal_elements: "no_fatal (parseV x b ld)" "no_fatal (parseSelBlk x ld)" "no_fatal (parseG x ld)"
  "no_fatal (parseC x)" "no_fatal (parseI T g x ld)"
proof -
  have a: "no_fatal (named_group ld k)" for k
    unfolding named_group_def by (intro no_fatal_intros no_fatal_find) simp_all
  have b: "no_fatal (weighted_groups a ld nodes)" for a nodes
    unfolding weighted_groups_def by (intro no_fatal_intros no_fatal_numbers a) simp_all
  have c: "no_fatal (create_trv_state T i h)" for i h
    unfolding create_trv_state_def get_tkm_from_hashtbl_def parse_asm_opcode_def Let_def
    by (intro no_fatal_bnd) (simp_all split: token.split list.split)
  show "no_fatal (parseV x b ld)" unfolding parseV_def by (intro no_fatal_intros) simp_all
  show "no_fatal (parseSelBlk x ld)" unfolding parseSelBlk_def by (intro no_fatal_intros b) simp_all
  show "no_fatal (parseG x ld)" unfolding parseG_def by (intro no_fatal_intros no_fatal_numbers a) simp_all
  show "no_fatal (parseC x)" unfolding parseC_def by (intro no_fatal_intros no_fatal_numbers) simp_all
  show "no_fatal (parseI T g x ld)" unfolding parseI_def Let_def
    by (intro no_fatal_intros no_fatal_numbers c) simp_all
qed

definition checked :: "bool \<Rightarrow> 'a res \<Rightarrow> bool" where
  "checked ok m \<longleftrightarrow> (case m of Inr _ \<Rightarrow> ok | Inl e \<Rightarrow> e = Fatal \<longrightarrow> \<not> ok)"

lemma checked_no_fatal: "no_fatal m \<Longrightarrow> checked True m"
  by (cases m) (auto simp: checked_def no_fatal_def)

lemma checked_bnd: "no_fatal m \<Longrightarrow> (\<And>x. checked ok (f x)) \<Longrightarrow> checked ok (bnd m f)"
  by (cases m) (auto simp: checked_def no_fatal_def)

lemma checked_then: "checked ok m \<Longrightarrow> (\<And>x. no_fatal (f x)) \<Longrightarrow> checked ok (bnd m f)"
  by (cases m) (auto simp: checked_def no_fatal_def split: sum.splits)

lemma checked_both: "checked a m \<Longrightarrow> (\<And>x. checked b (f x)) \<Longrightarrow> checked (a \<and> b) (bnd m f)"
  by (cases m) (auto simp: checked_def split: sum.splits)

lemma parse_node_checked: "checked (statements_ok x) (parse_node T g b x ld)"
proof (induction x arbitrary: b ld)
  case (Other s)
  then show ?case by (simp add: checked_def)
next
  case (Elem name attrs ch)
  obtain n ld1 where n: "new_blk ld = (n, ld1)" by fastforce
  have list: "checked (\<forall>x \<in> set xs. statements_ok x) (parseBlk T g m xs l)" if "set xs \<subseteq> set ch" for xs m l
    using that
  proof (induction xs arbitrary: l)
    case Nil
    then show ?case by (simp add: checked_def)
  next
    case (Cons x xs)
    have "checked (statements_ok x) (parse_node T g m x l)" using Elem.IH Cons.prems by simp
    moreover have "checked (\<forall>x \<in> set xs. statements_ok x) (bnd (parseBlk T g m xs l1) (\<lambda>(blks', ld). Inr (blks @ blks', ld)))"
      for l1 blks using Cons.IH [of l1] Cons.prems by (intro checked_then) auto
    ultimately show ?case by (auto intro!: checked_both)
  qed
  note ch = list [OF subset_refl]
  consider "name = ''V''" | "name \<in> {''sequence'', ''transfer'', ''repeat'', ''traverse''}" |
    "name \<in> {''select'', ''G'', ''C'', ''I''}" | "name \<noteq> ''V'' \<and> name \<notin> set supported"
    by (auto simp: supported_def)
  then show ?case
  proof cases
    case 1
    then show ?thesis by (auto intro!: checked_no_fatal no_fatal_bnd no_fatal_elements)
  next
    case 2
    then have ok: "statements_ok (Elem name attrs ch) = (\<forall>x \<in> set ch. statements_ok x)" by (auto simp: supported_def)
    have body: "checked (\<forall>x \<in> set ch. statements_ok x) (bnd (parseBlk T g n ch ld1) h)" if "\<And>x. no_fatal (h x)" for h
      using ch that by (rule checked_then)
    have "checked (\<forall>x \<in> set ch. statements_ok x) (parse_node T g b (Elem name attrs ch) ld)"
      using 2 unfolding parse_node.simps n Let_def prod.case
      by (elim insertE emptyE; simp only: refl if_True if_False list.inject char.inject simp_thms list.distinct)
        (intro body checked_bnd no_fatal_intros no_fatal_numbers; simp)+
    then show ?thesis unfolding ok .
  next
    case 3
    then have ok: "statements_ok (Elem name attrs ch) = True" by (auto simp: supported_def)
    have "no_fatal (parse_node T g b (Elem name attrs ch) ld)"
      using 3 unfolding parse_node.simps n Let_def prod.case
      by (elim insertE emptyE; simp only: refl if_True if_False list.inject char.inject simp_thms list.distinct)
        (intro no_fatal_intros no_fatal_elements; simp)+
    then show ?thesis unfolding ok by (rule checked_no_fatal)
  next
    case 4
    then show ?thesis using n by (auto simp: Let_def checked_def supported_def)
  qed
qed


lemma parseBlk_loaded: "parseBlk T g b xs ld = Inr (bs, ld') \<Longrightarrow> loaded ld bs ld'"
  by (rule parseBlk_induct) (rule parse_node_loaded)

lemma parseBlk_checked: "checked (\<forall>x \<in> set xs. statements_ok x) (parseBlk T g b xs ld)"
proof (induction xs arbitrary: ld)
  case (Cons x xs)
  have "checked (\<forall>x \<in> set xs. statements_ok x) (bnd (parseBlk T g b xs l1) (\<lambda>(blks', ld). Inr (blks @ blks', ld)))"
    for l1 blks using Cons.IH [of l1] by (intro checked_then) auto
  then show ?case using parse_node_checked by (auto intro!: checked_both)
qed (simp add: checked_def)

lemma add_named_zero: "\<exists>hi' h'. add_named k d (hi, zero_hash) = Inr (hi', h')"
proof -
  have n: "hash_data (zero_hash :: 'a hash_table) k = Inr None" by (simp add: hash_data_map zero_hash_ok zero_hash_map)
  have "ht_load (zero_hash :: 'a hash_table) < 2 ^ 58" by (simp add: zero_hash_def)
  from wd.put_new [OF zero_hash_ok n this, of d] obtain t where "find_add k d zero_hash = Inr t" by blast
  moreover obtain ins where "hash_find (zero_hash :: 'a hash_table) k = Inr (Inr ins)"
    using hb.find_none [OF zero_hash_ok zero_hash_map] by (auto simp: hash_find_def hash_findb_eq)
  ultimately show ?thesis by (auto simp: find_add_def add_named_def)
qed

subsection \<open>Properties\<close>

text \<open>
  C20: Loading a file of constants or of testing knowledge keeps what the generator relies on.  If
  the names in the file are new, and the weights of every choice are nonnegative and add up to 100,
  then afterwards both hash tables satisfy their invariant, every tree in them is well formed,
  every name of the file is found, every other lookup is as before, and drawing a constant for
  any operand of any instruction ends without leaving an array.
\<close>

theorem knowledge_file_loaded:
  assumes "loader_ok ld" "docs fname = Some (node # rest)" "is_elem node" "parse_tks_file docs v fname ld = Inr ld'"
    "elem_name node = ''ConstGroups'' \<Longrightarrow> new_names ''name'' (hash_wdtrees ld) (filter is_elem (children node))"
    "elem_name node = ''TestingKnowledges'' \<Longrightarrow> new_names ''inst'' (hash_tks ld) (filter is_elem (children node)) \<and>
       (\<forall>tk \<in> set (filter is_elem (children node)). tk_choices_ok tk)"
  shows "loader_ok ld' \<and>
    (elem_name node = ''ConstGroups'' \<longrightarrow>
       extends ''name'' (filter is_elem (children node)) (hash_wdtrees ld) (hash_wdtrees ld')) \<and>
    (elem_name node = ''TestingKnowledges'' \<longrightarrow>
       extends ''inst'' (filter is_elem (children node)) (hash_tks ld) (hash_tks ld')) \<and>
    (\<forall>k trees t r. hash_data (hash_tks ld') k = Inr (Some trees) \<longrightarrow> t \<in> set trees \<longrightarrow>
       (\<exists>c r'. wdtree_select_leaf_node t r = Inr (c, r')))"
proof -
  have "loader_ok ld' \<and>
    (elem_name node = ''ConstGroups'' \<longrightarrow>
       extends ''name'' (filter is_elem (children node)) (hash_wdtrees ld) (hash_wdtrees ld')) \<and>
    (elem_name node = ''TestingKnowledges'' \<longrightarrow>
       extends ''inst'' (filter is_elem (children node)) (hash_tks ld) (hash_tks ld'))"
    using assms parseCGs_ok [of v node ld ld'] parseTKs_ok [of node ld ld']
    by (auto simp: parse_tks_file_def loader_ok_def split: if_splits)
  moreover have "\<exists>c r'. wdtree_select_leaf_node t r = Inr (c, r')"
    if l: "loader_ok ld'" and k: "hash_data (hash_tks ld') k = Inr (Some trees)" and t: "t \<in> set trees" for k trees t r
  proof -
    have "list_all root_ok trees" using l k by (auto simp: loader_ok_def dict_holds_def)
    then obtain n where "root_node t = Some n" "wd_ok n" using t by (auto simp: list_all_iff root_ok_def)
    then show ?thesis using select_leaf_ok [of n r] unfolding wdtree_select_leaf_node_def by metis
  qed
  ultimately show ?thesis by blast
qed

lemma zero_loader_ok: "loader_ok zero_loader"
  by (simp add: loader_ok_def zero_loader_def dict_holds_zero)

lemma new_names_zero: "distinct (map (\<lambda>x. xmlGetProp x a) xs) \<Longrightarrow> length xs \<le> 2 ^ 58 \<Longrightarrow> new_names a zero_hash xs"
  by (simp add: new_names_def hash_data_map zero_hash_ok zero_hash_map) (simp add: zero_hash_def)

theorem knowledge_file_loaded_witness:
  "let group = Elem ''CG'' [(''name'', ''normal'')] [Other '' '', Elem ''Imm32'' [] [Other '' 0x1f '']];
       docs = (\<lambda>f. Some [Elem ''ConstGroups'' [] [group]]) in
   \<exists>ld' d. parse_tks_file docs (asm_op_node '''') ''c.xml'' zero_loader = Inr ld' \<and> loader_ok ld' \<and>
     hash_data (hash_wdtrees ld') ''normal'' = Inr (Some d)"
proof -
  let ?group = "Elem ''CG'' [(''name'', ''normal'')] [Other '' '', Elem ''Imm32'' [] [Other '' 0x1f '']]"
  let ?node = "Elem ''ConstGroups'' [] [?group]"
  let ?docs = "\<lambda>f :: string. Some [?node]"
  obtain cs v' where cs: "parse_constants (children ?group) (asm_op_node '''') = Inr (cs, v')"
    by (simp add: parse_constants_def children_def is_elem_def first_content_def elem_name_def parse_const_def)
  obtain hi' h' where "add_named ''normal'' (WdNode True (getElemsSize (children ?group)) [] [] cs) (None, zero_hash) = Inr (hi', h')"
    using add_named_zero by metis
  then have run: "parse_tks_file ?docs (asm_op_node '''') ''c.xml'' zero_loader = Inr (zero_loader\<lparr>hash_wdtrees := h'\<rparr>)"
    using cs by (simp add: parse_tks_file_def parseCGs_def zero_loader_def is_elem_def elem_name_def xmlGetProp_def
      children_def [of "Elem ''ConstGroups'' [] _"])
  have n: "new_names ''name'' (hash_wdtrees zero_loader) (filter is_elem (children ?node))"
    unfolding zero_loader_def loader.select_convs by (rule new_names_zero) (simp_all add: children_def is_elem_def)
  have "loader_ok (zero_loader\<lparr>hash_wdtrees := h'\<rparr>) \<and>
      extends ''name'' (filter is_elem (children ?node)) (hash_wdtrees zero_loader) h'"
    using knowledge_file_loaded [OF zero_loader_ok _ _ run, of ?node "[]"] n by (simp add: is_elem_def elem_name_def)
  moreover have "Some ''normal'' \<in> (\<lambda>x. xmlGetProp x ''name'') ` set (filter is_elem (children ?node))"
    by (simp add: children_def is_elem_def xmlGetProp_def)
  ultimately show ?thesis using run unfolding Let_def by (auto simp: extends_def)
qed



text \<open>
  C21: The loader of a template stops with the fatal error only if some element at the place of a
  statement is none that the language has, and it never accepts such a template.
\<close>

theorem unsupported_statement_rejected:
  "(parseTmplts T g node ld = Inl Fatal \<longrightarrow> \<not> (\<forall>x \<in> set (children node). statements_ok x)) \<and>
   (\<not> (\<forall>x \<in> set (children node). statements_ok x) \<longrightarrow> (\<exists>e. parseTmplts T g node ld = Inl e))"
proof -
  obtain n ld1 where n: "new_blk ld = (n, ld1)" by fastforce
  have "checked (\<forall>x \<in> set (children node). statements_ok x) (parseTmplts T g node ld)"
    unfolding parseTmplts_def n Let_def prod.case by (rule checked_then [OF parseBlk_checked]) auto
  then show ?thesis by (cases "parseTmplts T g node ld") (auto simp: checked_def)
qed

theorem unsupported_statement_rejected_witness:
  "let tmplt = Elem ''Template'' [] [Elem ''sequence'' [] [Elem ''V'' [(''var'', ''a''), (''type'', ''reg32'')] [], Elem ''loop'' [] []]] in
   \<forall>g. parseTmplts ia32_tables g tmplt zero_loader = Inl Fatal \<and> \<not> (\<forall>x \<in> set (children tmplt). statements_ok x)"
proof -
  let ?t = "Elem ''Template'' [] [Elem ''sequence'' [] [Elem ''V'' [(''var'', ''a''), (''type'', ''reg32'')] [], Elem ''loop'' [] []]]"
  have run: "parseTmplts ia32_tables g ?t zero_loader = Inl Fatal" for g
    by (simp add: parseTmplts_def new_blk_def children_def parseV_def xmlGetProp_def)
  show ?thesis unfolding Let_def using unsupported_statement_rejected [of ia32_tables _ ?t zero_loader] run by blast
qed

end
