(* ===== verification/Output.thy ===== *)
theory Output
  imports ParseXml Walk
begin

text \<open>
  Writing the program and running the tool: \<open>output/asmout.c\<close>, \<open>btrtg/output_file_wrapper.c\<close>,
  \<open>insnlist_output\<close>, \<open>insn_to_bin\<close>, \<open>insn_to_asm\<close> and \<open>generator_init\<close>, and \<open>btrtg/btrtg-main.c\<close>.
  The encoder \<open>assemble\<close> and the decoder \<open>disasm\<close> are parameters.  The last section composes the
  tool from its parts and shows that the file it writes is a program that runs.
\<close>

subsection \<open>The assembly file\<close>

datatype output_data =
    OUTPUT_RAWDATA string
  | OUTPUT_SECTION sect
  | OUTPUT_EXTERN string
  | OUTPUT_INSN string

definition newline :: char where
  "newline = char_of (10 :: nat)"

definition text_line :: "string \<Rightarrow> string" where
  "text_line t = t @ [newline]"

text \<open>The open file with what was written to it so far; \<open>None\<close> is the null pointer.\<close>

type_synonym asmfp = "string option"

definition asm_cleanup :: "asmfp \<Rightarrow> asmfp" where
  "asm_cleanup fp = None"

definition asm_init :: "(string \<Rightarrow> bool) \<Rightarrow> string option \<Rightarrow> asmfp" where
  "asm_init can_open fname =
     (case fname of None \<Rightarrow> None
      | Some f \<Rightarrow> if f = [] then None else if can_open f then Some [] else None)"

definition fprintf :: "string \<Rightarrow> asmfp \<Rightarrow> asmfp res" where
  "fprintf t fp = bnd (deref fp) (\<lambda>written. Inr (Some (written @ t)))"

definition asm_out_sec :: "sect \<Rightarrow> asmfp \<Rightarrow> asmfp res" where
  "asm_out_sec sec fp =
     (case sec_type sec of
        TEXT_SEC \<Rightarrow> fprintf (text_line ''SECTION .TEXT'') fp
      | DATA_SEC \<Rightarrow>
          bnd (fprintf (text_line ''SECTION .DATA write align = 128'') fp) (\<lambda>fp.
          bnd (foldM (\<lambda>i fp. bnd (idx (datasizes sec) (int i)) (\<lambda>n.
                 fprintf (text_line (''  data'' @ fmt_d (int i) @ '':  times '' @ fmt_d n @ '' db 0'')) fp))
               [0..<datanum sec] fp) (\<lambda>fp.
          bnd (fprintf (text_line ''  float_data:  times 64 db 0'') fp) (\<lambda>fp.
          bnd (fprintf (text_line ''SECTION .DATA write align = 512'') fp) (\<lambda>fp.
          bnd (fprintf (text_line (''  fxstate:  times '' @ fmt_d 512 @ '' db 0'')) fp) (\<lambda>fp.
          fprintf (text_line '''') fp)))))
      | BSS_SEC \<Rightarrow> fprintf (text_line ''SECTION .BSS write'') fp)"

definition asm_out :: "output_data \<Rightarrow> asmfp \<Rightarrow> asmfp res" where
  "asm_out data fp =
     (case data of
        OUTPUT_RAWDATA buf \<Rightarrow> fprintf (text_line buf) fp
      | OUTPUT_INSN buf \<Rightarrow> fprintf (text_line (''  '' @ buf)) fp
      | OUTPUT_EXTERN buf \<Rightarrow> fprintf (text_line (''EXTERN '' @ buf)) fp
      | OUTPUT_SECTION sec \<Rightarrow> asm_out_sec sec fp)"

subsection \<open>The parts of the file that never change\<close>

definition funcs :: string where
  "funcs = concat (map text_line
    ['''', ''_get_pc:'', ''  mov eax,[esp]'', ''  ret''])"

definition main_label :: string where
  "main_label = concat (map text_line
    [''  GLOBAL main'', ''main:'', '''', ''  call parse_argv''])"

definition init_regs :: string where
  "init_regs = concat (map text_line
    [''  mov eax,0x0'', ''  mov ebx,0x0'', ''  mov ecx,0x0'', ''  mov edx,0x0'', ''  mov esi,0x0'',
     ''  mov edi,0x0'', ''  push eax'', ''  popf '', ''  fninit '', ''  fldz'', ''  fldz'',
     ''  fldz'', ''  fldz'', ''  fldz'', ''  fldz'', ''  fldz'', ''  fldz'', ''  fninit''])"

definition check_macro_lines :: "string list" where
  "check_macro_lines =
    [''%macro check 1'', ''  pusha'', ''  call _get_pc'', ''  push eax'', ''  pushf'',
     ''  push cs'', ''  push ss'', ''  push ds'', ''  push es'', ''  push fs'', ''  push gs'',
     ''  sub esp,0x6c'', ''  fsave [esp]'', ''  movupd [fxstate],xmm0'',
     ''  movupd [fxstate + 0x10],xmm1'', ''  movupd [fxstate + 0x20],xmm2'',
     ''  movupd [fxstate + 0x30],xmm3'', ''  movupd [fxstate + 0x40],xmm4'',
     ''  movupd [fxstate + 0x50],xmm5'', ''  movupd [fxstate + 0x60],xmm6'',
     ''  movupd [fxstate + 0x70],xmm7'', ''  stmxcsr [fxstate + 0x80]'',
     ''  lea eax,fxstate'', ''  push eax'', ''  call check_point_%1'', ''  pop eax'',
     ''  frstor [esp]'', ''  add esp,0x6c'', ''  pop eax'', ''  pop eax'', ''  pop eax'',
     ''  pop eax'', ''  pop eax'', ''  pop eax'', ''  popf'', ''  pop eax'', ''  popa'',
     ''%endmacro'']"

definition check_macro :: string where
  "check_macro = concat (map text_line check_macro_lines)"

definition safe_exit :: string where
  "safe_exit = concat (map text_line
    ['''', ''  call check_point_end'', ''  mov eax,1'', ''  mov ebx,0'']) @ ''  int 80h''"

definition check_function_names :: "string list" where
  "check_function_names =
    [''check_point_ah'', ''check_point_bh'', ''check_point_ch'', ''check_point_dh'',
     ''check_point_al'', ''check_point_bl'', ''check_point_cl'', ''check_point_dl'',
     ''check_point_ax'', ''check_point_bx'', ''check_point_cx'', ''check_point_dx'',
     ''check_point_si'', ''check_point_di'', ''check_point_sp'', ''check_point_bp'',
     ''check_point_eax'', ''check_point_ebx'', ''check_point_ecx'', ''check_point_edx'',
     ''check_point_esi'', ''check_point_edi'', ''check_point_esp'', ''check_point_ebp'',
     ''check_point_cs'', ''check_point_ds'', ''check_point_ss'', ''check_point_es'',
     ''check_point_fs'', ''check_point_gs'', ''check_point_eflags'',
     ''check_point_x86_state'', ''check_point_st0'', ''check_point_st1'', ''check_point_st2'',
     ''check_point_st3'', ''check_point_st4'', ''check_point_st5'', ''check_point_st6'',
     ''check_point_st7'', ''check_point_mm0'', ''check_point_mm1'', ''check_point_mm2'',
     ''check_point_mm3'', ''check_point_mm4'', ''check_point_mm5'', ''check_point_mm6'',
     ''check_point_mm7'', ''check_point_fcw'', ''check_point_fsw'', ''check_point_ftw'',
     ''check_point_ffop'', ''check_point_ffdp'', ''check_point_ffip'',
     ''check_point_x87_env'', ''check_point_xmm0'', ''check_point_xmm1'',
     ''check_point_xmm2'', ''check_point_xmm3'', ''check_point_xmm4'', ''check_point_xmm5'',
     ''check_point_xmm6'', ''check_point_xmm7'', ''check_point_mxcsr'', ''check_point_end'',
     ''parse_argv'']"

subsection \<open>From instructions to text\<close>

text \<open>
  The encoder returns a length and the bytes it leaves in \<open>global_codebuf\<close> with their number
  \<open>global_codebuf_len\<close>, or stops the program; the decoder turns bytes into a text, empty if it fails.
\<close>

record coder =
  assemble :: "int \<Rightarrow> 64 word \<Rightarrow> int \<Rightarrow> insn \<Rightarrow> (64 word \<times> 8 word list \<times> nat) res"
  disasm :: "8 word list \<Rightarrow> nat \<Rightarrow> int \<Rightarrow> string"

record codegen =
  cg_location :: location
  global_codebuf :: "8 word list"
  global_codebuf_len :: nat

definition insn_to_bin :: "coder \<Rightarrow> int \<Rightarrow> insn \<Rightarrow> codegen \<Rightarrow> codegen res" where
  "insn_to_bin C bits instruction cg =
     (if times instruction = 0 then Inr cg
      else if times instruction < 0 then Inl Fatal
      else
        bnd (assemble C (lc_segment (cg_location cg)) (lc_offset (cg_location cg)) bits instruction) (\<lambda>(l, codebuf, n).
        Inr \<lparr>cg_location = increment_offset l (cg_location cg), global_codebuf = codebuf, global_codebuf_len = n\<rparr>))"

definition insn_to_asm :: "coder \<Rightarrow> int \<Rightarrow> insn \<Rightarrow> codegen \<Rightarrow> (string \<times> codegen) res" where
  "insn_to_asm C bits instruction cg =
     bnd (insn_to_bin C bits instruction cg) (\<lambda>cg.
     Inr (disasm C (global_codebuf cg) (global_codebuf_len cg) bits, cg))"

text \<open>An entry of the instruction list is a text or an instruction.\<close>

definition output_entry :: "coder \<Rightarrow> int \<Rightarrow> insn \<Rightarrow> codegen \<times> asmfp \<Rightarrow> (codegen \<times> asmfp) res" where
  "output_entry C bits i st =
     (case st of (cg, fp) \<Rightarrow>
        case ctrl i of
          Some t \<Rightarrow> bnd (asm_out (OUTPUT_RAWDATA t) fp) (\<lambda>fp. Inr (cg, fp))
        | None \<Rightarrow>
            bnd (insn_to_asm C bits i cg) (\<lambda>(buf, cg).
            bnd (asm_out (OUTPUT_INSN buf) fp) (\<lambda>fp. Inr (cg, fp))))"

definition insnlist_output :: "coder \<Rightarrow> int \<Rightarrow> insn insnlist \<Rightarrow> codegen \<times> asmfp \<Rightarrow> (codegen \<times> asmfp) res" where
  "insnlist_output C bits l st = foldM (output_entry C bits) (insnlist_insns l) st"

subsection \<open>Opening and closing the file\<close>

definition open_output_file :: "(string \<Rightarrow> bool) \<Rightarrow> string option \<Rightarrow> x86pg \<Rightarrow> (asmfp \<times> x86pg) res" where
  "open_output_file can_open fname s =
     bnd (foldM (\<lambda>f. asm_out (OUTPUT_EXTERN f)) check_function_names (asm_init can_open fname)) (\<lambda>fp.
     bnd (foldM asm_out
            [OUTPUT_RAWDATA '''', OUTPUT_RAWDATA check_macro,
             OUTPUT_SECTION (data_sec s), OUTPUT_SECTION (text_sec s),
             OUTPUT_RAWDATA funcs, OUTPUT_RAWDATA main_label, OUTPUT_RAWDATA init_regs] fp) (\<lambda>fp.
     Inr (fp, reset_x86pgstate s)))"

text \<open>The text of the file, and the state it leaves.\<close>

definition close_output_file :: "coder \<Rightarrow> int \<Rightarrow> codegen \<Rightarrow> asmfp \<Rightarrow> x86pg \<Rightarrow> (string \<times> codegen \<times> x86pg) res" where
  "close_output_file C bits cg fp s =
     bnd (gen_control_transfer_finish s) (\<lambda>s.
     bnd (insnlist_output C bits (instlist s) (cg, fp)) (\<lambda>(cg, fp).
     bnd (insnlist_clear (instlist s)) (\<lambda>l.
     bnd (asm_out (OUTPUT_RAWDATA safe_exit) fp) (\<lambda>fp.
     bnd (deref fp) (\<lambda>written.
     Inr (written, cg, s\<lparr>instlist := l\<rparr>))))))"

subsection \<open>The command line\<close>

record options =
  terminate_directly :: bool
  template_file_name :: "string option"
  output_file_name :: "string option"
  tk_tmplt_path :: "string option"
  group_tmplt_path :: "string option"

definition default_options :: options where
  "default_options = \<lparr>terminate_directly = False, template_file_name = None, output_file_name = Some ''btrtg.s'',
     tk_tmplt_path = Some ''../xmlmodel/tks'', group_tmplt_path = Some ''../xmlmodel/templates/group''\<rparr>"

text \<open>The argument after an option; behind the last one stands the null pointer.\<close>

definition next_arg :: "string list \<Rightarrow> string option" where
  "next_arg args = (case args of [] \<Rightarrow> None | a # _ \<Rightarrow> Some a)"

fun parse_args :: "string list \<Rightarrow> options \<Rightarrow> options" where
  "parse_args [] opts = opts"
| "parse_args (arg # rest) opts =
     (if arg = [] \<or> hd arg \<noteq> CHR ''-'' then parse_args rest opts
      else case tl arg of
          [] \<Rightarrow> parse_args rest (opts\<lparr>terminate_directly := True\<rparr>)
        | c # _ \<Rightarrow>
            if c = CHR ''k'' then parse_args (tl rest) (opts\<lparr>tk_tmplt_path := next_arg rest\<rparr>)
            else if c = CHR ''g'' then parse_args (tl rest) (opts\<lparr>group_tmplt_path := next_arg rest\<rparr>)
            else if c = CHR ''o'' then parse_args (tl rest) (opts\<lparr>output_file_name := next_arg rest\<rparr>)
            else if c = CHR ''t'' then parse_args (tl rest) (opts\<lparr>template_file_name := next_arg rest\<rparr>)
            else parse_args rest (opts\<lparr>terminate_directly := True\<rparr>))"

definition parse_cmdline :: "string list \<Rightarrow> options" where
  "parse_cmdline args =
     (if args = [] then default_options\<lparr>terminate_directly := True\<rparr> else parse_args args default_options)"

subsection \<open>The tool\<close>

text \<open>
  What the tool runs on: the documents, which files can be opened for writing, the numbers
  \<open>rand\<close> returns, the tables and conversions of the generator, the two coders, and the
  uninitialised constant the loader starts from.
\<close>

record world =
  docs :: "string \<Rightarrow> xml list option"
  can_open :: "string \<Rightarrow> bool"
  rand_input :: rng
  genv :: "string eval_env"
  codec :: coder
  stack_node :: const_node

definition blank_gen :: "world \<Rightarrow> gen" where
  "blank_gen W = \<lparr>pg = init_x86pgstate zero_x86pgstate, rn = rand_input W, tok_done = '''', tok_rest = '''',
     blk_vars = (\<lambda>b. []), tk_models = (\<lambda>n. None)\<rparr>"

definition start_location :: location where
  "start_location = \<lparr>lc_segment = NO_SEG, lc_offset = 0, lc_in_absolute = False, lc_abs_offset = 0\<rparr>"

text \<open>\<open>cmd_sb\<close> is 32.\<close>

definition tool_env :: "world \<Rightarrow> string eval_env" where
  "tool_env W = (genv W)\<lparr>ee_tables := (ee_tables (genv W))\<lparr>globalbits := 32\<rparr>\<rparr>"

definition generator_init :: "world \<Rightarrow> string \<Rightarrow> string \<Rightarrow> loader res" where
  "generator_init W tk_path group_path =
     bnd (init_tks (docs W) (stack_node W) tk_path zero_loader)
       (init_tmplts (ee_tables (tool_env W)) (blank_gen W) (docs W) group_path)"

text \<open>The walk after loading: the variables of the blocks and the testing knowledge are what was loaded.\<close>

definition walk_start :: "world \<Rightarrow> loader \<Rightarrow> x86pg \<Rightarrow> walk" where
  "walk_start W ld s = \<lparr>trv_step = 0, trv_index = 0,
     w_gen = (blank_gen W)\<lparr>pg := s, blk_vars := ld_vars ld, tk_models := tk_lookup ld\<rparr>, w_trv = (\<lambda>k. [])\<rparr>"

definition start_codegen :: codegen where
  "start_codegen = \<lparr>cg_location = start_location, global_codebuf = [], global_codebuf_len = 0\<rparr>"

text \<open>The part of \<open>main\<close> after loading.  The depth bounds the recursion of the instruction generator.\<close>

definition generate :: "nat \<Rightarrow> world \<Rightarrow> string option \<Rightarrow> loader \<Rightarrow> string res" where
  "generate depth W fname ld =
     bnd (open_output_file (can_open W) fname (init_x86pgstate zero_x86pgstate)) (\<lambda>(fp, s).
     bnd (deref (ld_tmpltm ld)) (\<lambda>tmpltm.
     bnd (walk_tmplt (tool_env W) depth tmpltm (walk_start W ld s)) (\<lambda>w.
     bnd (close_output_file (codec W) 32 start_codegen fp (pg (w_gen w)))
       (\<lambda>(written, _). Inr written))))"

text \<open>Everything that is loaded before anything is generated.\<close>

definition load_files :: "world \<Rightarrow> options \<Rightarrow> string \<Rightarrow> loader res" where
  "load_files W opts tmplt =
     bnd (deref (tk_tmplt_path opts)) (\<lambda>tk_path.
     bnd (deref (group_tmplt_path opts)) (\<lambda>group_path.
     bnd (generator_init W tk_path group_path)
       (parse_tmplts_file (ee_tables (tool_env W)) (blank_gen W) (docs W) tmplt)))"

text \<open>What the tool writes, if it writes a file.\<close>

definition btrtg_main :: "nat \<Rightarrow> world \<Rightarrow> string list \<Rightarrow> string option res" where
  "btrtg_main depth W args =
     (let opts = parse_cmdline args in
      if terminate_directly opts then Inr None
      else case template_file_name opts of None \<Rightarrow> Inr None
        | Some tmplt \<Rightarrow>
            bnd (load_files W opts tmplt) (\<lambda>ld.
            bnd (generate depth W (output_file_name opts) ld) (\<lambda>written. Inr (Some written))))"

subsection \<open>The text of the file\<close>

text \<open>What the calls that open the file print, and the lines of an entry of the program.\<close>

definition data_section :: string where
  "data_section = concat (map text_line
    [''SECTION .DATA write align = 128'', ''  data0:  times 8192 db 0'', ''  data1:  times 8192 db 0'',
     ''  data2:  times 8192 db 0'', ''  data3:  times 8192 db 0'', ''  data4:  times 8192 db 0'',
     ''  float_data:  times 64 db 0'', ''SECTION .DATA write align = 512'', ''  fxstate:  times 512 db 0'', ''''])"

definition prologue :: string where
  "prologue = concat (map (\<lambda>f. text_line (''EXTERN '' @ f)) check_function_names) @ text_line '''' @
     text_line check_macro @ data_section @ text_line ''SECTION .TEXT'' @
     concat (map text_line [funcs, main_label, init_regs])"

definition line_of :: "coder \<Rightarrow> insn \<Rightarrow> string \<Rightarrow> bool" where
  "line_of C i line \<longleftrightarrow> (case ctrl i of
       Some t \<Rightarrow> line = text_line t
     | None \<Rightarrow> \<exists>segment offset l codebuf n. assemble C segment offset 32 i = Inr (l, codebuf, n) \<and>
         line = text_line (''  '' @ disasm C codebuf n 32))"

lemma fprintf_Some [simp]: "fprintf t (Some x) = Inr (Some (x @ t))"
  by (simp add: fprintf_def)

lemma fprintf_Inr: "fprintf t fp = Inr fp' \<longleftrightarrow> (\<exists>x. fp = Some x \<and> fp' = Some (x @ t))"
  by (auto simp: fprintf_def)

lemma foldM_fprintf: "foldM (\<lambda>a. fprintf (f a)) as (Some x) = Inr (Some (x @ concat (map f as)))"
  by (induction as arbitrary: x) simp_all

lemma init_data_sec_text:
  "asm_out_sec (data_sec (init_x86pgstate s)) (Some x) = Inr (Some (x @ data_section))"
proof -
  have digits: "digit_char 0 = CHR ''0''" "digit_char (Suc 0) = CHR ''1''" "digit_char 1 = CHR ''1''" "digit_char 2 = CHR ''2''"
    "digit_char 3 = CHR ''3''" "digit_char 4 = CHR ''4''" "digit_char 5 = CHR ''5''" "digit_char 8 = CHR ''8''" "digit_char 9 = CHR ''9''"
    by code_simp+
  have numbers: "fmt_d 8192 = ''8192''" "fmt_d 512 = ''512''" "fmt_d (int 0) = ''0''" "fmt_d (int 1) = ''1''"
    "fmt_d (int 2) = ''2''" "fmt_d (int 3) = ''3''" "fmt_d (int 4) = ''4''"
    by (simp_all add: fmt_d_def numeral_string.simps [of 10 8192] numeral_string.simps [of 10 819]
        numeral_string.simps [of 10 81] numeral_string.simps [of 10 8] numeral_string.simps [of 10 512]
        numeral_string.simps [of 10 51] numeral_string.simps [of 10 5] numeral_string.simps [of 10 0]
        numeral_string.simps [of 10 "Suc 0"] numeral_string.simps [of 10 2] numeral_string.simps [of 10 3]
        numeral_string.simps [of 10 4] digits)
  have sec: "sec_type (data_sec (init_x86pgstate s)) = DATA_SEC" "datanum (data_sec (init_x86pgstate s)) = 5"
    by (simp_all add: init_x86pgstate_def init_data_sec_def SECTION_DATA_NUM_def)
  have size: "idx (datasizes (data_sec (init_x86pgstate s))) (int i) = Inr 8192" if "i < 5" for i
    using that by (simp add: init_x86pgstate_def init_data_sec_def SECTION_DATA_NUM_def nth_append idx_def)
  have upt: "[0..<5] = [0, 1, 2, 3, 4 :: nat]" by code_simp
  show ?thesis
    unfolding asm_out_sec_def sec upt sec_kind.case foldM.simps
    by (simp add: size [of 0, simplified] size [of 1, simplified] size [of 2, simplified] size [of 3, simplified]
        size [of 4, simplified] numbers [simplified] data_section_def)
qed

lemma open_output_file_text:
  assumes "fname \<noteq> []" "openable fname"
  shows "open_output_file openable (Some fname) (init_x86pgstate s) =
    Inr (Some prologue, reset_x86pgstate (init_x86pgstate s))"
proof -
  have tsec: "asm_out_sec (text_sec (init_x86pgstate s)) (Some x) = Inr (Some (x @ text_line ''SECTION .TEXT''))" for x
    by (simp add: asm_out_sec_def init_x86pgstate_def init_text_sec_def)
  have externs: "foldM (\<lambda>f. asm_out (OUTPUT_EXTERN f)) check_function_names (Some []) =
    Inr (Some (concat (map (\<lambda>f. text_line (''EXTERN '' @ f)) check_function_names)))"
    unfolding asm_out_def output_data.case
    using foldM_fprintf [of "\<lambda>f. text_line (''EXTERN '' @ f)" check_function_names "[]"] by simp
  have init: "asm_init openable (Some fname) = Some []" using assms by (simp add: asm_init_def)
  show ?thesis
    unfolding open_output_file_def init externs
    by (simp add: asm_out_def init_data_sec_text tsec prologue_def)
qed

text \<open>A file that cannot be opened is written to all the same.\<close>

lemma open_output_file_null:
  "asm_init openable fname = None \<Longrightarrow> open_output_file openable fname s = Inl Undefined"
  by (simp add: open_output_file_def check_function_names_def asm_out_def fprintf_def)

lemma insn_to_asm_line:
  assumes "encodable i" "ctrl i = None"
  shows "insn_to_asm C 32 i cg = Inr (buf, cg') \<Longrightarrow> line_of C i (text_line (''  '' @ buf))"
    "(\<And>seg offs bits i. \<exists>x. assemble C seg offs bits i = Inr x) \<Longrightarrow> \<exists>x. insn_to_asm C 32 i cg = Inr x"
proof -
  have t: "times i = 1" using assms by (simp add: encodable_def)
  show "insn_to_asm C 32 i cg = Inr (buf, cg') \<Longrightarrow> line_of C i (text_line (''  '' @ buf))"
  proof -
    assume run: "insn_to_asm C 32 i cg = Inr (buf, cg')"
    then obtain l codebuf n where "assemble C (lc_segment (cg_location cg)) (lc_offset (cg_location cg)) 32 i = Inr (l, codebuf, n)"
      "buf = disasm C codebuf n 32"
      using t by (auto simp: insn_to_asm_def insn_to_bin_def)
    then show ?thesis unfolding line_of_def assms(2) option.case by blast
  qed
  assume total: "\<And>seg offs bits i. \<exists>x. assemble C seg offs bits i = Inr x"
  obtain x where "assemble C (lc_segment (cg_location cg)) (lc_offset (cg_location cg)) 32 i = Inr x"
    using total by blast
  then show "\<exists>x. insn_to_asm C 32 i cg = Inr x"
    using t by (cases x) (simp add: insn_to_asm_def insn_to_bin_def)
qed

lemma output_entry_text:
  "ctrl i = Some t \<Longrightarrow> output_entry C bits i (cg, Some x) = Inr (cg, Some (x @ text_line t))"
  by (simp add: output_entry_def asm_out_def)

lemma output_entry_insn:
  "ctrl i = None \<Longrightarrow> insn_to_asm C bits i cg = Inr (buf, cg1) \<Longrightarrow>
    output_entry C bits i (cg, Some x) = Inr (cg1, Some (x @ text_line (''  '' @ buf)))"
  by (simp add: output_entry_def asm_out_def)

lemma output_entries:
  assumes "\<forall>i \<in> set is. encodable i" "foldM (output_entry C 32) is (cg, Some x) = Inr (cg', fp)"
  shows "\<exists>ls. fp = Some (x @ concat ls) \<and> list_all2 (line_of C) is ls"
  using assms
proof (induction "is" arbitrary: cg x)
  case (Cons i "is")
  obtain cg1 l where l: "output_entry C 32 i (cg, Some x) = Inr (cg1, Some (x @ l))" "line_of C i l"
    "foldM (output_entry C 32) is (cg1, Some (x @ l)) = Inr (cg', fp)"
  proof (cases "ctrl i")
    case (Some t)
    then show ?thesis using Cons.prems that [of cg "text_line t"] output_entry_text [OF Some]
      by (simp add: line_of_def)
  next
    case None
    then obtain buf cg1 where b: "insn_to_asm C 32 i cg = Inr (buf, cg1)"
      using Cons.prems(2) by (auto simp: output_entry_def)
    then show ?thesis
      using None Cons.prems insn_to_asm_line(1) [OF _ None b] that [of cg1 "text_line (''  '' @ buf)"]
        output_entry_insn [OF None b] by simp
  qed
  obtain ls where "fp = Some ((x @ l) @ concat ls)" "list_all2 (line_of C) is ls"
    using Cons.IH [OF _ l(3)] Cons.prems(1) by auto
  then show ?case using l(2) by (intro exI [of _ "l # ls"]) simp
qed simp

lemma output_entries_return:
  assumes "\<forall>i \<in> set is. encodable i" "\<And>seg offs bits i. \<exists>x. assemble C seg offs bits i = Inr x"
  shows "\<exists>cg' fp. foldM (output_entry C 32) is (cg, Some x) = Inr (cg', fp)"
  using assms(1)
proof (induction "is" arbitrary: cg x)
  case (Cons i "is")
  have "\<exists>cg1 y. output_entry C 32 i (cg, Some x) = Inr (cg1, Some y)"
  proof (cases "ctrl i")
    case None
    then obtain y cg1 where "insn_to_asm C 32 i cg = Inr (y, cg1)"
      using insn_to_asm_line(2) [OF _ None assms(2), of cg] Cons.prems by auto
    from output_entry_insn [OF None this] show ?thesis by blast
  qed (auto dest: output_entry_text)
  then obtain cg1 y where "output_entry C 32 i (cg, Some x) = Inr (cg1, Some y)" by blast
  then show ?case using Cons.IH [of cg1 y] Cons.prems by simp
qed simp

lemma entries_content: "all_entries Q l \<Longrightarrow> seq_content l xs \<Longrightarrow> i \<in> set (map snd xs) \<Longrightarrow> Q i"
proof -
  assume all: "all_entries Q l" and c: "seq_content l xs" and "i \<in> set (map snd xs)"
  then obtain a where a: "(a, i) \<in> set xs" by auto
  then have "a \<in> dom (heap l)" using c by (force simp: seq_content_def rep_def)
  then obtain e where e: "heap l a = Some e" by blast
  then have "e_insn e = i" using a c by (auto simp: seq_content_def entry_insn_def)
  then show ?thesis using all e unfolding all_entries_def by blast
qed


subsection \<open>Loaded variables hold nothing\<close>

definition fresh_vars :: "loader \<Rightarrow> bool" where
  "fresh_vars ld \<longleftrightarrow> (\<forall>b. \<forall>v \<in> set (ld_vars ld b). bv_init_mem_addr v = None)"

lemma fresh_vars_fields [simp]:
  "fresh_vars (ld\<lparr>ld_trv_state := t\<rparr>) = fresh_vars ld" "fresh_vars (ld\<lparr>ld_tmpltm := m\<rparr>) = fresh_vars ld"
  "fresh_vars (ld\<lparr>hash_wdtrees := h\<rparr>) = fresh_vars ld" "fresh_vars (ld\<lparr>hash_tks := k\<rparr>) = fresh_vars ld"
  "fresh_vars (ld\<lparr>nonfatal := n\<rparr>) = fresh_vars ld" "fresh_vars (ld\<lparr>ld_blks := k2\<rparr>) = fresh_vars ld"
  "fresh_vars (ld\<lparr>nonfatal := n, ld_blks := k2\<rparr>) = fresh_vars ld" "fresh_vars (ld\<lparr>ld_trv_state := t, ld_trvs := i\<rparr>) = fresh_vars ld"
  by (simp_all add: fresh_vars_def)

lemma fresh_vars_zero: "fresh_vars zero_loader"
  by (simp add: fresh_vars_def zero_loader_def)

lemma fresh_vars_blk: "new_blk ld = (n, ld') \<Longrightarrow> fresh_vars ld \<Longrightarrow> fresh_vars ld'"
  by (auto simp: fresh_vars_def new_blk_def split: if_splits)

lemma fresh_vars_element:
  "parseV x b ld = Inr ld' \<Longrightarrow> fresh_vars ld \<Longrightarrow> fresh_vars ld'"
  "parseI T g x ld = Inr (e, ld') \<Longrightarrow> fresh_vars ld \<Longrightarrow> fresh_vars ld'"
  by (auto simp: parseV_def parseI_def fresh_vars_def init_blk_var_def Let_def split: if_splits)

lemma fresh_vars_blks:
  assumes "\<And>x b ld bs ld'. x \<in> set xs \<Longrightarrow> parse_node T g b x ld = Inr (bs, ld') \<Longrightarrow> fresh_vars ld \<Longrightarrow> fresh_vars ld'"
  shows "parseBlk T g b xs ld = Inr (bs, ld') \<Longrightarrow> fresh_vars ld \<Longrightarrow> fresh_vars ld'"
  using assms
proof (induction xs arbitrary: ld bs ld')
  case (Cons x xs)
  then obtain cs ld1 ds where p: "parse_node T g b x ld = Inr (cs, ld1)" "parseBlk T g b xs ld1 = Inr (ds, ld')" by auto
  have "fresh_vars ld1" using Cons.prems(3) [OF _ p(1)] Cons.prems(2) by simp
  then show ?case by (rule Cons.IH [OF p(2)]) (blast intro: Cons.prems(3) list.set_intros(2))
qed simp

lemma fresh_vars_node: "parse_node T g b x ld = Inr (bs, ld') \<Longrightarrow> fresh_vars ld \<Longrightarrow> fresh_vars ld'"
proof (induction x arbitrary: b ld bs ld')
  case (Elem name attrs ch)
  obtain n ld1 where n: "new_blk ld = (n, ld1)" by fastforce
  have f: "fresh_vars ld1" by (rule fresh_vars_blk [OF n Elem.prems(2)])
  have ch: "fresh_vars l'" if "parseBlk T g n ch ld1 = Inr (cs, l')" for cs l'
    using Elem.IH that f by (rule fresh_vars_blks)
  show ?case
  proof (cases "name = ''V''")
    case True
    then show ?thesis using Elem.prems fresh_vars_element(1) by auto
  next
    case False
    then show ?thesis using Elem.prems(1) n f
      by (auto simp: Let_def split: if_splits dest: ch fresh_vars_element(2))
  qed
qed simp

lemma fresh_vars_holds:
  assumes f: "fresh_vars ld"
  shows "holds fresh_vars (parseCGs v x ld)" "holds fresh_vars (parseTKs x ld)"
    "holds fresh_vars (parseGroups x ld)" "holds fresh_vars (parseTmplts T g x ld)"
proof -
  show "holds fresh_vars (parseCGs v x ld)"
    unfolding parseCGs_def using f by (intro holds_bnd_pure) (auto simp: holds_def split: prod.split)
  show "holds fresh_vars (parseTKs x ld)"
    unfolding parseTKs_def using f by (intro holds_bnd_pure) (auto simp: holds_def split: prod.split)
  show "holds fresh_vars (parseGroups x ld)"
    unfolding parseGroups_def using f by (intro holds_bnd_pure) (auto simp: holds_def)
  obtain n ld1 where n: "new_blk ld = (n, ld1)" by fastforce
  show "holds fresh_vars (parseTmplts T g x ld)"
    unfolding parseTmplts_def n Let_def prod.case using fresh_vars_blks [OF fresh_vars_node] fresh_vars_blk [OF n f]
    by (intro holds_bnd_pure) (auto simp: holds_def)
qed

lemma fresh_vars_files:
  assumes "fresh_vars ld"
  shows "holds fresh_vars (parse_tks_file D v fname ld)" "holds fresh_vars (parse_tmplts_file T g D fname ld)"
proof -
  note h = fresh_vars_holds [OF assms] and stop = holds_def [of fresh_vars "Inl e" for e]
  show "holds fresh_vars (parse_tks_file D v fname ld)"
    unfolding parse_tks_file_def using h(1,2) assms
    by (simp add: stop holds_def [of fresh_vars "Inr x" for x] cong: if_cong split: option.split list.split)
  show "holds fresh_vars (parse_tmplts_file T g D fname ld)"
    unfolding parse_tmplts_file_def using h(3,4) assms
    by (simp add: stop holds_def [of fresh_vars "Inr x" for x] cong: if_cong split: option.split list.split)
qed

lemma fresh_vars_loaded: "load_files W opts tmplt = Inr ld \<Longrightarrow> fresh_vars ld"
proof -
  assume load: "load_files W opts tmplt = Inr ld"
  have tks: "holds fresh_vars (init_tks D v path zero_loader)" for D v path
    unfolding init_tks_def
    by (rule foldM_holds [where I = fresh_vars]) (auto intro!: holds_bnd_pure fresh_vars_files fresh_vars_zero)
  have tmplts: "holds fresh_vars (init_tmplts T g D path ld)" if "fresh_vars ld" for T g D path ld
    unfolding init_tmplts_def
    by (rule foldM_holds [where I = fresh_vars]) (auto intro!: holds_bnd_pure fresh_vars_files that)
  have "holds fresh_vars (load_files W opts tmplt)"
    unfolding load_files_def generator_init_def
    by (intro holds_bnd_pure holds_bnd [where R = fresh_vars] fresh_vars_files tks tmplts)
  then show ?thesis using load by (simp add: holds_def)
qed


subsection \<open>The file and the program\<close>

text \<open>The text is the program: the lines of its entries in order, between the fixed parts.\<close>

definition text_of_program :: "coder \<Rightarrow> string \<Rightarrow> string \<Rightarrow> (nat \<times> insn) list \<Rightarrow> bool" where
  "text_of_program C start written xs \<longleftrightarrow>
     (\<exists>ls. written = start @ concat ls @ text_line safe_exit \<and> list_all2 (line_of C) (map snd xs) ls)"

lemma finish_entries: "gen_control_transfer_finish s = Inr s' \<Longrightarrow> entries_ok s \<Longrightarrow> entries_ok s'"
  by (auto simp: gen_control_transfer_finish_def dest!: ctrl_entries)

lemma close_output_file_text:
  assumes "gen_ok s None" "entries_ok s"
  shows "\<exists>xs labs vs. labels_ok xs labs \<and> executes xs vs \<and> xs \<noteq> [] \<and> last vs = fst (last xs) \<and>
    filter (\<lambda>a. a \<in> set (work_nos xs)) vs = sort (work_nos xs) \<and>
    (\<forall>written r. close_output_file C 32 cg (Some x) s = Inr (written, r) \<longrightarrow> text_of_program C x written xs) \<and>
    ((\<forall>seg offs bits i. \<exists>r. assemble C seg offs bits i = Inr r) \<longrightarrow>
      (\<exists>written r. close_output_file C 32 cg (Some x) s = Inr (written, r)))"
proof -
  obtain s' xs labs vs where f: "gen_control_transfer_finish s = Inr s'" "seq_content (instlist s') xs"
    "insnlist_insns (instlist s') = map snd xs"
    and e: "labels_ok xs labs" "executes xs vs" "xs \<noteq> []" "last vs = fst (last xs)"
    "filter (\<lambda>a. a \<in> set (work_nos xs)) vs = sort (work_nos xs)"
    using finish_ok [OF assms(1)] by blast
  have enc: "\<forall>i \<in> set (map snd xs). encodable i"
    using finish_entries [OF f(1) assms(2)] entries_content [OF _ f(2)] by (auto simp: entries_ok_def)
  obtain l where l: "insnlist_clear (instlist s') = Inr l"
    using refine_clear f(2) unfolding seq_content_def by blast
  have txt_ok: "text_of_program C x written xs" if c: "close_output_file C 32 cg (Some x) s = Inr (written, r)" for written r
  proof -
    obtain cg' fp where "foldM (output_entry C 32) (map snd xs) (cg, Some x) = Inr (cg', fp)"
      "fprintf (text_line safe_exit) fp = Inr (Some written)"
      using c f(1,3) l by (auto simp: close_output_file_def insnlist_output_def asm_out_def)
    then show ?thesis using output_entries [OF enc, of C cg x cg' fp] by (auto simp: text_of_program_def)
  qed
  have "\<exists>written r. close_output_file C 32 cg (Some x) s = Inr (written, r)"
    if total: "\<forall>seg offs bits i. \<exists>r. assemble C seg offs bits i = Inr r"
  proof -
    obtain cg' fp where o: "foldM (output_entry C 32) (map snd xs) (cg, Some x) = Inr (cg', fp)"
      using output_entries_return [OF enc, of C cg x] total by blast
    then obtain y where "fp = Some y" using output_entries [OF enc o] by blast
    then show ?thesis using f(1,3) l o by (simp add: close_output_file_def insnlist_output_def asm_out_def)
  qed
  then show ?thesis using e txt_ok by blast
qed

lemma reset_init: "reset_x86pgstate (init_x86pgstate zero_x86pgstate) = init_x86pgstate zero_x86pgstate"
  by (simp add: reset_x86pgstate_def init_x86pgstate_def zero_x86pgstate_def init_text_sec_def init_data_sec_def zero_sec_def)

lemma walk_start_fresh: "fresh_vars ld \<Longrightarrow> fresh_gen (w_gen (walk_start W ld (init_x86pgstate zero_x86pgstate)))"
  by (simp add: fresh_gen_def walk_start_def fresh_vars_def)

lemma generate_text:
  assumes "words_ok (ee_tables (tool_env W))" "template_ok (ee_tables (tool_env W)) t"
    and "ld_tmpltm ld = Some t" "fresh_vars ld"
    and "walk_tmplt (tool_env W) depth t (walk_start W ld (init_x86pgstate zero_x86pgstate)) = Inr w"
    and "fname = Some f" "f \<noteq> []" "can_open W f"
  shows "\<exists>xs labs vs. labels_ok xs labs \<and> executes xs vs \<and> xs \<noteq> [] \<and> last vs = fst (last xs) \<and>
    filter (\<lambda>a. a \<in> set (work_nos xs)) vs = sort (work_nos xs) \<and>
    (\<forall>written. generate depth W fname ld = Inr written \<longrightarrow> text_of_program (codec W) prologue written xs) \<and>
    ((\<forall>seg offs bits i. \<exists>r. assemble (codec W) seg offs bits i = Inr r) \<longrightarrow> (\<exists>written. generate depth W fname ld = Inr written))"
proof -
  have r: "runs [] None (w_gen (walk_start W ld (init_x86pgstate zero_x86pgstate))) (w_gen w)"
    by (rule walk_tmplt_runs [OF assms(1,2) walk_start_fresh [OF assms(4)] assms(5)])
  have e: "entries_ok (pg (w_gen w))" using r by (simp add: runs_def texts_ok_def)
  have g: "generate depth W fname ld =
    bnd (close_output_file (codec W) 32 start_codegen (Some prologue) (pg (w_gen w))) (\<lambda>(written, _). Inr written)"
    using assms(3,5) unfolding generate_def assms(6) open_output_file_text [where openable = "can_open W", OF assms(7,8)] reset_init by simp
  have split: "bnd m (\<lambda>(written, _). Inr written) = Inr x \<longleftrightarrow> (\<exists>r. m = Inr (x, r))" for m :: "(string \<times> 'b) res" and x
    by auto
  show ?thesis
    using close_output_file_text [OF runs_ok [OF r] e, of "codec W" start_codegen prologue] unfolding g split by blast
qed

subsection \<open>A run of the tool\<close>

text \<open>A template with a loop and two check points, no testing knowledge, and no instruction to encode.\<close>

definition demo_template :: xml where
  "demo_template = Elem ''Template'' []
     [Elem ''transfer'' [(''type'', ''loop''), (''times'', ''3'')] [Elem ''C'' [(''type'', ''eax'')] []],
      Elem ''C'' [(''type'', ''ebx'')] []]"

definition demo_world :: "bool \<Rightarrow> world" where
  "demo_world openable = \<lparr>docs = (\<lambda>f. Some [if f = ''t.xml'' then demo_template else Elem ''InsnGroups'' [] []]),
     can_open = (\<lambda>f. openable), rand_input = sconst 0, genv = text_env,
     codec = \<lparr>assemble = (\<lambda>_ _ _ _. Inr (0, [], 0)), disasm = (\<lambda>_ _ _. '''')\<rparr>, stack_node = asm_op_node ''''\<rparr>"

definition demo_loader :: loader where
  "demo_loader = zero_loader\<lparr>nonfatal := 10, ld_blks := 4, ld_tmpltm := Some (loop_tmplt 0 1 2 3)\<rparr>"

lemma demo_options: "parse_cmdline [''-t'', ''t.xml''] = default_options\<lparr>template_file_name := Some ''t.xml''\<rparr>"
  by (simp add: parse_cmdline_def next_arg_def)

lemma demo_env: "tool_env (demo_world openable) = text_env"
  by (simp add: tool_env_def demo_world_def text_env_def ia32_tables_def)

lemma demo_words: "words_ok (ee_tables (tool_env (demo_world openable)))"
  unfolding demo_env using words_ok_ia32 by (simp add: text_env_def)

lemma demo_template_ok: "template_ok (ee_tables (tool_env (demo_world openable))) (loop_tmplt 0 1 2 3)"
  unfolding demo_env using loop_tmplt_ok by (simp add: text_env_def)

lemma demo_load: "load_files (demo_world openable) (default_options\<lparr>template_file_name := x\<rparr>) ''t.xml'' = Inr demo_loader"
proof -
  have tks: "init_tks (docs (demo_world openable)) v ''../xmlmodel/tks'' zero_loader = Inr (zero_loader\<lparr>nonfatal := 10\<rparr>)" for v
    by (simp add: init_tks_def tks_xmlfiles_def file_name_def Let_def demo_world_def parse_tks_file_def
        is_elem_def elem_name_def zero_loader_def)
  have tmplts: "init_tmplts T g (docs (demo_world openable)) ''../xmlmodel/templates/group'' ld = Inr ld" for T g ld
    by (simp add: init_tmplts_def tmplts_xmlfiles_def file_name_def Let_def demo_world_def parse_tmplts_file_def
        is_elem_def elem_name_def parseGroups_def children_def)
  have strings: "nasm_trim ''loop'' = Inr ''loop''" "nasm_trim ''eax'' = Inr ''eax''" "nasm_trim ''ebx'' = Inr ''ebx''"
    "atoi ''3'' = Inr 3"
    by code_simp+
  have "parse_tmplts_file T g (docs (demo_world openable)) ''t.xml'' (zero_loader\<lparr>nonfatal := 10\<rparr>) = Inr demo_loader" for T g
    by (simp add: parse_tmplts_file_def demo_world_def demo_template_def is_elem_def elem_name_def parseTmplts_def
        new_blk_def children_def parseC_def xmlGetProp_def trimmed_def strings parse_times_def zero_loader_def
        demo_loader_def loop_tmplt_def fun_upd_idem)
  then show ?thesis
    by (simp add: load_files_def default_options_def generator_init_def tks tmplts)
qed

lemma demo_walks:
  "\<exists>w. walk_tmplt (tool_env (demo_world openable)) 2 (loop_tmplt 0 1 2 3)
     (walk_start (demo_world openable) demo_loader (init_x86pgstate zero_x86pgstate)) = Inr w"
  unfolding demo_env
  by (rule loop_tmplt_walks [OF walk_start_fresh]) (simp add: demo_loader_def fresh_vars_zero)

lemma demo_total: "\<exists>r. assemble (codec (demo_world openable)) sg offs bits i = Inr r"
  by (simp add: demo_world_def)

lemma demo_written: "\<exists>written. btrtg_main 2 (demo_world True) [''-t'', ''t.xml''] = Inr (Some written)"
proof -
  obtain w where w: "walk_tmplt (tool_env (demo_world True)) 2 (loop_tmplt 0 1 2 3)
     (walk_start (demo_world True) demo_loader (init_x86pgstate zero_x86pgstate)) = Inr w"
    using demo_walks by blast
  have "ld_tmpltm demo_loader = Some (loop_tmplt 0 1 2 3)" "fresh_vars demo_loader"
    by (simp_all add: demo_loader_def fresh_vars_zero)
  from generate_text [OF demo_words demo_template_ok this w refl, of "''btrtg.s''"]
  obtain written where "generate 2 (demo_world True) (Some ''btrtg.s'') demo_loader = Inr written"
    using demo_total by (auto simp: demo_world_def)
  then show ?thesis
    unfolding btrtg_main_def demo_options Let_def by (simp add: demo_load) (simp add: default_options_def)
qed

subsection \<open>Properties\<close>





text \<open>
  C23: When the output file cannot be opened, or the option for it has no argument, the run does not
  end with an error message: after loading the files, writing goes through the null pointer.
\<close>

theorem unopened_file_undefined:
  assumes "\<not> terminate_directly (parse_cmdline args)" "template_file_name (parse_cmdline args) = Some tmplt"
    "load_files W (parse_cmdline args) tmplt = Inr ld"
    "case output_file_name (parse_cmdline args) of None \<Rightarrow> True | Some f \<Rightarrow> f = [] \<or> \<not> can_open W f"
  shows "btrtg_main depth W args = Inl Undefined"
proof -
  have "asm_init (can_open W) (output_file_name (parse_cmdline args)) = None"
    using assms(4) by (auto simp: asm_init_def split: option.splits)
  then show ?thesis using assms(1-3) open_output_file_null by (simp add: btrtg_main_def generate_def Let_def)
qed

theorem unopened_file_undefined_witness:
  "btrtg_main 2 (demo_world False) [''-t'', ''t.xml''] = Inl Undefined"
proof (rule unopened_file_undefined)
  show "\<not> terminate_directly (parse_cmdline [''-t'', ''t.xml''])"
    "template_file_name (parse_cmdline [''-t'', ''t.xml'']) = Some ''t.xml''"
    "load_files (demo_world False) (parse_cmdline [''-t'', ''t.xml'']) ''t.xml'' = Inr demo_loader"
    by (simp_all add: demo_options demo_load) (simp_all add: default_options_def)
qed (simp add: demo_world_def split: option.split)

end
