(* ===== verification/Verify.thy ===== *)
theory Verify
  imports Output
begin

text \<open>
  The libraries a generated program is linked with: the layout of the state at a check point
  (\<open>user-lib/verification.h\<close>), the recorder that prints it as a C initialiser
  (\<open>user-lib/outputlib.c\<close>), and the checker that compares a run with a recorded one
  (\<open>user-lib/checklib.c\<close>, \<open>user-lib/checkfunctions.h\<close>).
\<close>

subsection \<open>The state at a check point\<close>

text \<open>
  A general register and its parts share their storage, so the parts are read off the register.
  The padding behind a segment register is what the processor leaves there.
\<close>

record x86_regs =
  r_gs :: "16 word"
  r_gs_padding :: "16 word"
  r_fs :: "16 word"
  r_fs_padding :: "16 word"
  r_es :: "16 word"
  r_es_padding :: "16 word"
  r_ds :: "16 word"
  r_ds_padding :: "16 word"
  r_ss :: "16 word"
  r_ss_padding :: "16 word"
  r_cs :: "16 word"
  r_cs_padding :: "16 word"
  r_eflags :: "32 word"
  r_pc :: "32 word"
  r_edi :: "32 word"
  r_esi :: "32 word"
  r_ebp :: "32 word"
  r_esp :: "32 word"
  r_ebx :: "32 word"
  r_edx :: "32 word"
  r_ecx :: "32 word"
  r_eax :: "32 word"

definition reg16_of :: "32 word \<Rightarrow> 16 word" where
  "reg16_of r = ucast r"

definition reg8lo_of :: "32 word \<Rightarrow> 8 word" where
  "reg8lo_of r = ucast r"

definition reg8hi_of :: "32 word \<Rightarrow> 8 word" where
  "reg8hi_of r = ucast (drop_bit 8 r)"

text \<open>
  The area \<open>fsave\<close> writes, without its padding; two members are bit fields of a double word.  Every
  index into the arrays is a constant below their length.
\<close>

record save_area =
  sa_fcw :: "16 word"
  sa_fsw :: "16 word"
  sa_ftw :: "16 word"
  sa_ffip_0 :: "16 word"
  sa_ffop_ffip_16 :: "32 word"
  sa_ffdp_0 :: "16 word"
  sa_ffdp_16 :: "32 word"
  sa_st80 :: "nat \<Rightarrow> 8 word"

record sse_area =
  ss_xmm_regs :: "nat \<Rightarrow> 64 word \<times> 64 word"
  ss_mxcsr :: "32 word"

record cpu =
  c_sse :: sse_area
  c_x87 :: save_area
  c_x86 :: x86_regs

definition bit_field :: "nat \<Rightarrow> nat \<Rightarrow> 32 word \<Rightarrow> 32 word" where
  "bit_field lo n w = take_bit n (drop_bit lo w)"

text \<open>A number stored with its lowest byte first.\<close>

definition le_value :: "8 word list \<Rightarrow> nat" where
  "le_value bs = foldr (\<lambda>b v. unat b + 256 * v) bs 0"

definition fsa_get_ffdp :: "save_area \<Rightarrow> 32 word" where
  "fsa_get_ffdp s = ucast (sa_ffdp_0 s) OR push_bit 16 (bit_field 12 16 (sa_ffdp_16 s))"

definition fsa_get_ffip :: "save_area \<Rightarrow> 32 word" where
  "fsa_get_ffip s = ucast (sa_ffip_0 s) OR push_bit 16 (bit_field 12 16 (sa_ffop_ffip_16 s))"

definition fsa_get_ffop :: "save_area \<Rightarrow> 16 word" where
  "fsa_get_ffop s = ucast (bit_field 0 12 (sa_ffop_ffip_16 s))"

definition fsa_get_st :: "save_area \<Rightarrow> nat \<Rightarrow> 64 word \<times> 16 word" where
  "fsa_get_st s i = (of_nat (le_value (map (\<lambda>k. sa_st80 s (i * 10 + k)) [0..<8])),
     of_nat (le_value (map (\<lambda>k. sa_st80 s (i * 10 + k)) [8, 9])))"

definition fsa_get_xmm :: "sse_area \<Rightarrow> nat \<Rightarrow> 64 word \<times> 64 word" where
  "fsa_get_xmm s i = ss_xmm_regs s i"

subsection \<open>Recorded states\<close>

record x87_regs =
  o_fcw :: "16 word"
  o_fsw :: "16 word"
  o_ftw :: "16 word"
  o_ffdp :: "32 word"
  o_ffip :: "32 word"
  o_ffop :: "16 word"
  o_fpregs :: "(64 word \<times> 16 word) list"

record sse_regs =
  o_mxcsr :: "32 word"
  o_mxcsr_mask :: "32 word"
  o_xmmregs :: "(64 word \<times> 64 word) list"

record outcome =
  o_X86 :: x86_regs
  o_X87 :: x87_regs
  o_SSE :: sse_regs

subsection \<open>The recorder\<close>

text \<open>\<open>0x%0kx\<close>\<close>

definition hex_text :: "nat \<Rightarrow> nat \<Rightarrow> string" where
  "hex_text k n = (let s = numeral_string 16 n in ''0x'' @ replicate (k - length s) (CHR ''0'') @ s)"

abbreviation hex4 :: "16 word \<Rightarrow> string" where "hex4 w \<equiv> hex_text 4 (unat w)"
abbreviation hex8 :: "32 word \<Rightarrow> string" where "hex8 w \<equiv> hex_text 8 (unat w)"
abbreviation hex16 :: "64 word \<Rightarrow> string" where "hex16 w \<equiv> hex_text 16 (unat w)"

fun commas :: "string list \<Rightarrow> string" where
  "commas [] = []"
| "commas [x] = x"
| "commas (x # xs) = x @ '','' @ commas xs"

definition x86_text :: "x86_regs \<Rightarrow> string" where
  "x86_text r = ''{'' @ commas
     [hex4 (r_gs r), ''0'', hex4 (r_fs r), ''0'', hex4 (r_es r), ''0'', hex4 (r_ds r), ''0'',
      hex4 (r_ss r), ''0'', hex4 (r_cs r), ''0'', hex8 (r_eflags r), hex8 (r_pc r),
      hex8 (r_edi r), hex8 (r_esi r), hex8 (r_ebp r), hex8 (r_esp r),
      hex8 (r_ebx r), hex8 (r_edx r), hex8 (r_ecx r), hex8 (r_eax r)] @ ''},'' @ [newline]"

definition x87_text :: "save_area \<Rightarrow> string" where
  "x87_text s = ''{'' @ commas
     [hex4 (sa_fcw s), hex4 (sa_fsw s), hex4 (sa_ftw s),
      hex8 (fsa_get_ffdp s), hex8 (fsa_get_ffip s), hex4 (fsa_get_ffop s),
      ''{'' @ commas (map (\<lambda>i. ''{'' @ hex16 (fst (fsa_get_st s i)) @ '','' @ hex4 (snd (fsa_get_st s i)) @ ''}'') [0..<8]) @ ''}'']
     @ ''},'' @ [newline]"

definition sse_text :: "sse_area \<Rightarrow> string" where
  "sse_text s = ''{'' @ commas
     [hex8 (ss_mxcsr s), hex8 0,
      ''{'' @ commas (map (\<lambda>i. ''{'' @ hex16 (fst (fsa_get_xmm s i)) @ '','' @ hex16 (snd (fsa_get_xmm s i)) @ ''}'') [0..<8]) @ ''}'']
     @ ''}''"

text \<open>Every check function of the recorder prints the whole state.\<close>

definition record_point :: "cpu \<Rightarrow> string" where
  "record_point c = ''{'' @ x86_text (c_x86 c) @ x87_text (c_x87 c) @ sse_text (c_sse c) @ ''},'' @ [newline]"


subsection \<open>Reading a recorded run\<close>

text \<open>
  The recorded text is an initialiser of the array \<open>output\<close>: the tokens, the nested braces, and the
  members of the structures in their order.
\<close>

datatype ctok = LB | RB | Num nat

definition is_delim :: "char \<Rightarrow> bool" where
  "is_delim c \<longleftrightarrow> c \<in> set ''{},'' \<or> c = newline"

definition c_number :: "string \<Rightarrow> nat" where
  "c_number t = (if take 2 t = ''0x'' then read_numeral 16 (drop 2 t) else read_numeral 10 t)"

function ctokens :: "string \<Rightarrow> ctok list" where
  "ctokens [] = []"
| "ctokens (c # s) =
     (if c = CHR ''{'' then LB # ctokens s
      else if c = CHR ''}'' then RB # ctokens s
      else if is_delim c then ctokens s
      else Num (c_number (c # takeWhile (\<lambda>x. \<not> is_delim x) s)) # ctokens (dropWhile (\<lambda>x. \<not> is_delim x) s))"
  by pat_completeness auto
termination
  by (relation "measure length") (auto simp: le_imp_less_Suc length_dropWhile_le)

datatype ini = N nat | Braces "ini list"

definition ini_step :: "ctok \<Rightarrow> ini list list \<Rightarrow> ini list list" where
  "ini_step t st =
     (case t of LB \<Rightarrow> [] # st
      | Num n \<Rightarrow> (case st of [] \<Rightarrow> [] | x # st \<Rightarrow> (x @ [N n]) # st)
      | RB \<Rightarrow> (case st of x # y # st \<Rightarrow> (y @ [Braces x]) # st | _ \<Rightarrow> []))"

definition read_ini :: "ctok list \<Rightarrow> ini list option" where
  "read_ini ts = (case fold ini_step ts [[]] of [x] \<Rightarrow> Some x | _ \<Rightarrow> None)"

fun pairs_of :: "ini list \<Rightarrow> ('a::len word \<times> 'b::len word) list option" where
  "pairs_of [] = Some []"
| "pairs_of (Braces [N a, N b] # xs) = map_option (\<lambda>ys. (of_nat a, of_nat b) # ys) (pairs_of xs)"
| "pairs_of _ = None"

definition x86_of_ini :: "ini list \<Rightarrow> x86_regs option" where
  "x86_of_ini xs =
     (case xs of [N g, N gp, N f, N fp, N e, N ep, N d, N dp, N s, N sp, N c, N cp, N fl, N p,
                  N di, N si, N bp, N spt, N b, N dx, N cx, N a] \<Rightarrow>
        Some \<lparr>r_gs = of_nat g, r_gs_padding = of_nat gp, r_fs = of_nat f, r_fs_padding = of_nat fp,
          r_es = of_nat e, r_es_padding = of_nat ep, r_ds = of_nat d, r_ds_padding = of_nat dp,
          r_ss = of_nat s, r_ss_padding = of_nat sp, r_cs = of_nat c, r_cs_padding = of_nat cp,
          r_eflags = of_nat fl, r_pc = of_nat p, r_edi = of_nat di, r_esi = of_nat si, r_ebp = of_nat bp,
          r_esp = of_nat spt, r_ebx = of_nat b, r_edx = of_nat dx, r_ecx = of_nat cx, r_eax = of_nat a\<rparr>
      | _ \<Rightarrow> None)"

definition x87_of_ini :: "ini list \<Rightarrow> x87_regs option" where
  "x87_of_ini xs =
     (case xs of [N cw, N sw, N tw, N dp, N ip, N opc, Braces st] \<Rightarrow>
        map_option (\<lambda>regs. \<lparr>o_fcw = of_nat cw, o_fsw = of_nat sw, o_ftw = of_nat tw, o_ffdp = of_nat dp,
          o_ffip = of_nat ip, o_ffop = of_nat opc, o_fpregs = regs\<rparr>) (pairs_of st)
      | _ \<Rightarrow> None)"

definition sse_of_ini :: "ini list \<Rightarrow> sse_regs option" where
  "sse_of_ini xs =
     (case xs of [N m, N msk, Braces x] \<Rightarrow>
        map_option (\<lambda>regs. \<lparr>o_mxcsr = of_nat m, o_mxcsr_mask = of_nat msk, o_xmmregs = regs\<rparr>) (pairs_of x)
      | _ \<Rightarrow> None)"

definition outcome_of_ini :: "ini \<Rightarrow> outcome option" where
  "outcome_of_ini i =
     (case i of Braces [Braces x, Braces y, Braces z] \<Rightarrow>
        (case (x86_of_ini x, x87_of_ini y, sse_of_ini z) of
           (Some a, Some b, Some c) \<Rightarrow> Some \<lparr>o_X86 = a, o_X87 = b, o_SSE = c\<rparr>
         | _ \<Rightarrow> None)
      | _ \<Rightarrow> None)"

definition read_outcomes :: "string \<Rightarrow> outcome list option" where
  "read_outcomes s = (case read_ini (ctokens s) of None \<Rightarrow> None | Some is \<Rightarrow> those (map outcome_of_ini is))"

text \<open>What a state looks like when it is recorded: the padding is printed as zero.\<close>

definition observed :: "cpu \<Rightarrow> outcome" where
  "observed c = \<lparr>o_X86 = (c_x86 c)\<lparr>r_gs_padding := 0, r_fs_padding := 0, r_es_padding := 0, r_ds_padding := 0,
       r_ss_padding := 0, r_cs_padding := 0\<rparr>,
     o_X87 = \<lparr>o_fcw = sa_fcw (c_x87 c), o_fsw = sa_fsw (c_x87 c), o_ftw = sa_ftw (c_x87 c),
       o_ffdp = fsa_get_ffdp (c_x87 c), o_ffip = fsa_get_ffip (c_x87 c), o_ffop = fsa_get_ffop (c_x87 c),
       o_fpregs = map (fsa_get_st (c_x87 c)) [0..<8]\<rparr>,
     o_SSE = \<lparr>o_mxcsr = ss_mxcsr (c_sse c), o_mxcsr_mask = 0, o_xmmregs = map (fsa_get_xmm (c_sse c)) [0..<8]\<rparr>\<rparr>"

subsection \<open>The recorded text can be read\<close>

fun ini_tokens :: "ini \<Rightarrow> ctok list" where
  "ini_tokens (N n) = [Num n]"
| "ini_tokens (Braces xs) = LB # concat (map ini_tokens xs) @ [RB]"

lemma read_tokens: "fold ini_step (ini_tokens i) (x # st) = (x @ [i]) # st"
proof (induction i arbitrary: x st)
  case (N n)
  then show ?case by (simp add: ini_step_def)
next
  case (Braces xs)
  have "fold ini_step (concat (map ini_tokens xs)) (y # x # st) = (y @ xs) # x # st" for y
    using Braces.IH by (induction xs arbitrary: y) simp_all
  moreover have "ini_step LB (x # st) = [] # x # st" "ini_step RB (xs # x # st) = (x @ [Braces xs]) # st"
    by (simp_all add: ini_step_def)
  ultimately show ?case by simp
qed

lemma read_token_list: "fold ini_step (concat (map ini_tokens is)) (x # st) = (x @ is) # st"
  by (induction "is" arbitrary: x) (simp_all add: read_tokens)

lemma read_ini_tokens: "read_ini (concat (map ini_tokens is)) = Some is"
  by (simp add: read_ini_def read_token_list [of "is" "[]" "[]", simplified])

text \<open>A text that is read as some tokens, whatever follows behind a delimiter.\<close>

definition reads :: "string \<Rightarrow> ctok list \<Rightarrow> bool" where
  "reads t ts \<longleftrightarrow> (\<forall>c s. is_delim c \<longrightarrow> ctokens (t @ c # s) = ts @ ctokens (c # s))"

lemma delims [simp]: "is_delim (CHR ''{'')" "is_delim (CHR ''}'')" "is_delim (CHR '','')" "is_delim newline"
  by (simp_all add: is_delim_def)

lemma newline_no_brace [simp]: "newline \<noteq> CHR ''{''" "newline \<noteq> CHR ''}''"
  by code_simp+

lemma ctokens_delim [simp]:
  "ctokens (CHR ''{'' # s) = LB # ctokens s" "ctokens (CHR ''}'' # s) = RB # ctokens s"
  "ctokens (CHR '','' # s) = ctokens s" "ctokens (newline # s) = ctokens s"
proof -
  show "ctokens (newline # s) = ctokens s" by simp
qed simp_all

lemma reads_number:
  assumes "t \<noteq> []" "\<forall>c \<in> set t. \<not> is_delim c"
  shows "reads t [Num (c_number t)]"
proof -
  obtain c r where t: "t = c # r" using assms(1) by (cases t) auto
  have n: "c \<noteq> CHR ''{''" "c \<noteq> CHR ''}''" "\<not> is_delim c" using assms(2) t by auto
  have "takeWhile (\<lambda>x. \<not> is_delim x) (r @ d # s) = r" "dropWhile (\<lambda>x. \<not> is_delim x) (r @ d # s) = d # s"
    if "is_delim d" for d s
    using assms(2) t that by (simp_all add: takeWhile_append2 dropWhile_append2)
  then show ?thesis using n by (simp add: reads_def t)
qed

lemma digits_no_delim: "n < 36 \<Longrightarrow> \<not> is_delim (digit_char n)"
proof -
  have "list_all (\<lambda>n. \<not> is_delim (digit_char n)) [0..<36]" by code_simp
  then show "n < 36 \<Longrightarrow> \<not> is_delim (digit_char n)" by (auto simp: list_all_iff)
qed

lemma numeral_no_delim: "2 \<le> b \<Longrightarrow> b \<le> 36 \<Longrightarrow> c \<in> set (numeral_string b n) \<Longrightarrow> \<not> is_delim c"
proof (induction b n rule: numeral_string.induct)
  case (1 b n)
  have d: "n mod b < 36" using 1(2,3) by (meson le_trans less_le_trans mod_less_divisor zero_less_numeral)
  show ?case
  proof (cases "n < b")
    case True
    then show ?thesis using 1(2-4) digits_no_delim by (simp add: numeral_string.simps [of b n])
  next
    case False
    then have "numeral_string b n = numeral_string b (n div b) @ [digit_char (n mod b)]"
      using 1(2) by (simp add: numeral_string.simps [of b n])
    then show ?thesis using 1 False d digits_no_delim by auto
  qed
qed

lemma read_numeral_zeros: "read_numeral 16 (replicate k (CHR ''0'') @ s) = read_numeral 16 s"
proof -
  have "digit_val (CHR ''0'') = 0" by code_simp
  then have "foldl (\<lambda>a c. a * 16 + digit_val c) 0 (replicate k (CHR ''0'')) = 0" by (induction k) simp_all
  then show ?thesis by (simp add: read_numeral_def)
qed

lemma reads_hex: "reads (hex_text k n) [Num n]"
proof -
  have "\<not> is_delim (CHR ''0'')" "\<not> is_delim (CHR ''x'')" by code_simp+
  then have "\<forall>c \<in> set (hex_text k n). \<not> is_delim c"
    using numeral_no_delim [of 16 _ n] by (auto simp: hex_text_def Let_def)
  moreover have "c_number (hex_text k n) = n"
    by (simp add: c_number_def hex_text_def Let_def read_numeral_zeros read_numeral_string)
  ultimately show ?thesis using reads_number [of "hex_text k n"] by (simp add: hex_text_def Let_def)
qed

lemma reads_zero: "reads ''0'' [Num 0]"
proof -
  have "\<forall>c \<in> set ''0''. \<not> is_delim c" "c_number ''0'' = 0" by code_simp+
  then show ?thesis using reads_number [of "''0''"] by simp
qed

lemma tokens_append: "reads t ts \<Longrightarrow> is_delim c \<Longrightarrow> ctokens (t @ c # s) = ts @ ctokens (c # s)"
  by (simp add: reads_def)

lemma reads_commas: "list_all2 reads texts toks \<Longrightarrow> texts \<noteq> [] \<Longrightarrow> reads (commas texts) (concat toks)"
proof (induction texts arbitrary: toks rule: commas.induct)
  case (3 x y xs)
  then obtain t ts where t: "toks = t # ts" "reads x t" "list_all2 reads (y # xs) ts" by (auto simp: list_all2_Cons1)
  then have "reads (commas (y # xs)) (concat ts)" using 3 by simp
  then show ?case using t by (simp add: reads_def)
qed (auto simp: list_all2_Cons1)

lemma reads_braces: "reads t ts \<Longrightarrow> reads (''{'' @ t @ ''}'') (LB # ts @ [RB])"
  by (simp add: reads_def)

lemma reads_pair: "reads a [Num m] \<Longrightarrow> reads b [Num n] \<Longrightarrow> reads (''{'' @ a @ '','' @ b @ ''}'') (ini_tokens (Braces [N m, N n]))"
  using reads_braces [OF reads_commas [of "[a, b]" "[[Num m], [Num n]]"]] by simp


definition x86_ini :: "x86_regs \<Rightarrow> ini" where
  "x86_ini r = Braces [N (unat (r_gs r)), N 0, N (unat (r_fs r)), N 0, N (unat (r_es r)), N 0, N (unat (r_ds r)), N 0,
     N (unat (r_ss r)), N 0, N (unat (r_cs r)), N 0, N (unat (r_eflags r)), N (unat (r_pc r)),
     N (unat (r_edi r)), N (unat (r_esi r)), N (unat (r_ebp r)), N (unat (r_esp r)),
     N (unat (r_ebx r)), N (unat (r_edx r)), N (unat (r_ecx r)), N (unat (r_eax r))]"

definition pair_ini :: "'a::len word \<times> 'b::len word \<Rightarrow> ini" where
  "pair_ini p = Braces [N (unat (fst p)), N (unat (snd p))]"

definition x87_ini :: "save_area \<Rightarrow> ini" where
  "x87_ini s = Braces [N (unat (sa_fcw s)), N (unat (sa_fsw s)), N (unat (sa_ftw s)), N (unat (fsa_get_ffdp s)),
     N (unat (fsa_get_ffip s)), N (unat (fsa_get_ffop s)), Braces (map (\<lambda>i. pair_ini (fsa_get_st s i)) [0..<8])]"

definition sse_ini :: "sse_area \<Rightarrow> ini" where
  "sse_ini s = Braces [N (unat (ss_mxcsr s)), N 0, Braces (map (\<lambda>i. pair_ini (fsa_get_xmm s i)) [0..<8])]"

definition state_ini :: "cpu \<Rightarrow> ini" where
  "state_ini c = Braces [x86_ini (c_x86 c), x87_ini (c_x87 c), sse_ini (c_sse c)]"

lemma reads_struct:
  assumes "list_all2 reads texts (map ini_tokens is)" "texts \<noteq> []"
  shows "reads (''{'' @ commas texts @ ''}'') (ini_tokens (Braces is))"
  using reads_braces [OF reads_commas [OF assms]] by simp

lemma reads_pairs:
  "(\<And>i. reads (f i) [Num (unat (fst (p i)))]) \<Longrightarrow> (\<And>i. reads (g i) [Num (unat (snd (p i)))]) \<Longrightarrow> is \<noteq> [] \<Longrightarrow>
   reads (''{'' @ commas (map (\<lambda>i. ''{'' @ f i @ '','' @ g i @ ''}'') is) @ ''}'') (ini_tokens (Braces (map (\<lambda>i. pair_ini (p i)) is)))"
  by (rule reads_struct) (auto simp: list_all2_map1 list_all2_map2 list_all2_same pair_ini_def
      simp del: append_Cons ini_tokens.simps intro: reads_pair)

lemma reads_numbers: "reads (hex_text k n) (ini_tokens (N n))" "reads ''0'' (ini_tokens (N 0))" "reads (hex8 0) (ini_tokens (N 0))"
  by (simp_all add: reads_hex reads_zero)

lemma x86_tokens: "ctokens (x86_text r @ rest) = ini_tokens (x86_ini r) @ ctokens rest"
proof -
  have "reads (''{'' @ commas
     [hex4 (r_gs r), ''0'', hex4 (r_fs r), ''0'', hex4 (r_es r), ''0'', hex4 (r_ds r), ''0'',
      hex4 (r_ss r), ''0'', hex4 (r_cs r), ''0'', hex8 (r_eflags r), hex8 (r_pc r),
      hex8 (r_edi r), hex8 (r_esi r), hex8 (r_ebp r), hex8 (r_esp r),
      hex8 (r_ebx r), hex8 (r_edx r), hex8 (r_ecx r), hex8 (r_eax r)] @ ''}'') (ini_tokens (x86_ini r))"
    unfolding x86_ini_def by (rule reads_struct) (simp_all add: reads_numbers del: ini_tokens.simps)
  from tokens_append [OF this, of "CHR '',''" "newline # rest"] show ?thesis
    unfolding x86_text_def by (simp only: append_assoc append_Cons append_Nil delims ctokens_delim)
qed

lemma x87_tokens: "ctokens (x87_text s @ rest) = ini_tokens (x87_ini s) @ ctokens rest"
proof -
  have st: "reads (''{'' @ commas (map (\<lambda>i. ''{'' @ hex16 (fst (fsa_get_st s i)) @ '','' @ hex4 (snd (fsa_get_st s i)) @ ''}'') [0..<8]) @ ''}'')
    (ini_tokens (Braces (map (\<lambda>i. pair_ini (fsa_get_st s i)) [0..<8])))"
    by (rule reads_pairs) (simp_all add: reads_hex)
  have "reads (''{'' @ commas
     [hex4 (sa_fcw s), hex4 (sa_fsw s), hex4 (sa_ftw s),
      hex8 (fsa_get_ffdp s), hex8 (fsa_get_ffip s), hex4 (fsa_get_ffop s),
      ''{'' @ commas (map (\<lambda>i. ''{'' @ hex16 (fst (fsa_get_st s i)) @ '','' @ hex4 (snd (fsa_get_st s i)) @ ''}'') [0..<8]) @ ''}'']
     @ ''}'') (ini_tokens (x87_ini s))"
    unfolding x87_ini_def by (rule reads_struct) (simp_all only: list.map list_all2_Cons list_all2_Nil reads_numbers st simp_thms list.distinct)
  from tokens_append [OF this, of "CHR '',''" "newline # rest"] show ?thesis
    unfolding x87_text_def by (simp only: append_assoc append_Cons append_Nil delims ctokens_delim)
qed

lemma sse_tokens: "is_delim c \<Longrightarrow> ctokens (sse_text s @ c # rest) = ini_tokens (sse_ini s) @ ctokens (c # rest)"
proof (rule tokens_append)
  have st: "reads (''{'' @ commas (map (\<lambda>i. ''{'' @ hex16 (fst (fsa_get_xmm s i)) @ '','' @ hex16 (snd (fsa_get_xmm s i)) @ ''}'') [0..<8]) @ ''}'')
    (ini_tokens (Braces (map (\<lambda>i. pair_ini (fsa_get_xmm s i)) [0..<8])))"
    by (rule reads_pairs) (simp_all add: reads_hex)
  show "reads (sse_text s) (ini_tokens (sse_ini s))"
    unfolding sse_text_def sse_ini_def
    by (rule reads_struct) (simp_all only: list.map list_all2_Cons list_all2_Nil reads_numbers st simp_thms list.distinct)
qed

lemma record_tokens: "ctokens (record_point c @ rest) = ini_tokens (state_ini c) @ ctokens rest"
  unfolding record_point_def state_ini_def
  by (simp add: x86_tokens x87_tokens sse_tokens)

lemma recorded_tokens: "ctokens (concat (map record_point cs)) = concat (map ini_tokens (map state_ini cs))"
  by (induction cs) (simp_all only: list.map concat.simps record_tokens ctokens.simps)

lemma pairs_of_ini: "pairs_of (map (\<lambda>i. pair_ini (f i)) is) = Some (map f is)"
  by (induction "is") (simp_all add: pair_ini_def)

lemma outcome_of_state: "outcome_of_ini (state_ini c) = Some (observed c)"
proof -
  have "x86_of_ini [N (unat (r_gs r)), N 0, N (unat (r_fs r)), N 0, N (unat (r_es r)), N 0, N (unat (r_ds r)), N 0,
     N (unat (r_ss r)), N 0, N (unat (r_cs r)), N 0, N (unat (r_eflags r)), N (unat (r_pc r)),
     N (unat (r_edi r)), N (unat (r_esi r)), N (unat (r_ebp r)), N (unat (r_esp r)),
     N (unat (r_ebx r)), N (unat (r_edx r)), N (unat (r_ecx r)), N (unat (r_eax r))] = Some (o_X86 (observed (c\<lparr>c_x86 := r\<rparr>)))" for r
    by (simp add: x86_of_ini_def observed_def)
  then show ?thesis
    by (simp add: outcome_of_ini_def state_ini_def x86_ini_def x87_ini_def sse_ini_def x87_of_ini_def sse_of_ini_def
        pairs_of_ini observed_def del: map_map upt.simps)
qed

lemma read_recorded: "read_outcomes (concat (map record_point cs)) = Some (map observed cs)"
proof -
  have "those (map outcome_of_ini (map state_ini cs)) = Some (map observed cs)"
    by (induction cs) (simp_all add: outcome_of_state)
  then show ?thesis unfolding read_outcomes_def recorded_tokens read_ini_tokens by simp
qed


subsection \<open>The checker\<close>

text \<open>
  What the checker prints: a register that differs, the verdict at a check point, the summary.  The
  numbers shown with a difference are left out, the name of the register and the number of the check
  point are kept.
\<close>

datatype message =
    Differs string
  | Failed nat string "32 word"
  | Passed nat string
  | Summary_fail nat nat
  | Summary_pass nat

record checker =
  ck_diffs :: nat
  ck_point :: nat
  ck_verbose :: bool
  ck_log :: "message list"

definition start_checker :: checker where
  "start_checker = \<lparr>ck_diffs = 0, ck_point = 0, ck_verbose = False, ck_log = []\<rparr>"

definition verify_parse_argv :: "string list \<Rightarrow> checker \<Rightarrow> checker" where
  "verify_parse_argv argv k =
     (case argv of [_, CHR ''-'' # CHR ''v'' # _] \<Rightarrow> k\<lparr>ck_verbose := True\<rparr> | _ \<Rightarrow> k)"

text \<open>The end of every check function, given the names of the registers that differ.\<close>

definition finish_check :: "string \<Rightarrow> 32 word \<Rightarrow> string list \<Rightarrow> checker \<Rightarrow> checker" where
  "finish_check name pc ds k =
     k\<lparr>ck_diffs := ck_diffs k + (if ds \<noteq> [] then 1 else 0), ck_point := ck_point k + 1,
       ck_log := ck_log k @ map Differs ds @
         (if ds \<noteq> [] then [Failed (ck_point k + 1) name pc]
          else if ck_verbose k then [Passed (ck_point k + 1) name] else [])\<rparr>"

text \<open>The comparisons, by kind of register: the names of what differs from the recorded state.\<close>

definition differs :: "string \<Rightarrow> bool \<Rightarrow> string list" where
  "differs name b = (if b then [name] else [])"

definition check_x86_reg :: "(x86_regs \<Rightarrow> 'w word) \<Rightarrow> string \<Rightarrow> outcome \<Rightarrow> cpu \<Rightarrow> string list res" where
  "check_x86_reg get name std c = Inr (differs name (get (o_X86 std) \<noteq> get (c_x86 c)))"

definition check_point_fpureg :: "nat \<Rightarrow> string \<Rightarrow> outcome \<Rightarrow> cpu \<Rightarrow> string list res" where
  "check_point_fpureg i name std c =
     bnd (idx (o_fpregs (o_X87 std)) (int i)) (\<lambda>r.
     let v = fsa_get_st (c_x87 c) i in Inr (differs name (fst r \<noteq> fst v \<or> snd r \<noteq> snd v)))"

definition check_point_mmxreg :: "nat \<Rightarrow> string \<Rightarrow> outcome \<Rightarrow> cpu \<Rightarrow> string list res" where
  "check_point_mmxreg i name std c =
     bnd (idx (o_fpregs (o_X87 std)) (int i)) (\<lambda>r.
     let v = fsa_get_st (c_x87 c) i in Inr (differs name (fst r \<noteq> fst v)))"

definition check_point_x87status ::
  "(x87_regs \<Rightarrow> 'w word) \<Rightarrow> (save_area \<Rightarrow> 'w word) \<Rightarrow> string \<Rightarrow> outcome \<Rightarrow> cpu \<Rightarrow> string list res" where
  "check_point_x87status get_std get name std c = Inr (differs name (get_std (o_X87 std) \<noteq> get (c_x87 c)))"

definition check_point_xmmreg :: "nat \<Rightarrow> string \<Rightarrow> outcome \<Rightarrow> cpu \<Rightarrow> string list res" where
  "check_point_xmmreg i name std c =
     bnd (idx (o_xmmregs (o_SSE std)) (int i)) (\<lambda>r.
     let v = fsa_get_xmm (c_sse c) i in Inr (differs name (fst r \<noteq> fst v \<or> snd r \<noteq> snd v)))"

definition check_point_mxcsr :: "string \<Rightarrow> outcome \<Rightarrow> cpu \<Rightarrow> string list res" where
  "check_point_mxcsr name std c = Inr (differs name (ss_mxcsr (c_sse c) \<noteq> o_mxcsr (o_SSE std)))"

text \<open>The comparison of \<open>gs\<close> is commented out, and \<open>ebp\<close> and \<open>esp\<close> are not compared.\<close>

definition check_point_x86_state :: "string \<Rightarrow> outcome \<Rightarrow> cpu \<Rightarrow> string list res" where
  "check_point_x86_state name std c =
     (let s = o_X86 std; r = c_x86 c in
      Inr (concat [differs ''fs'' (r_fs r \<noteq> r_fs s), differs ''es'' (r_es r \<noteq> r_es s), differs ''ds'' (r_ds r \<noteq> r_ds s),
        differs ''ss'' (r_ss r \<noteq> r_ss s), differs ''cs'' (r_cs r \<noteq> r_cs s), differs ''eflags'' (r_eflags r \<noteq> r_eflags s),
        differs ''edi'' (r_edi r \<noteq> r_edi s), differs ''esi'' (r_esi r \<noteq> r_esi s), differs ''ebx'' (r_ebx r \<noteq> r_ebx s),
        differs ''edx'' (r_edx r \<noteq> r_edx s), differs ''ecx'' (r_ecx r \<noteq> r_ecx s), differs ''eax'' (r_eax r \<noteq> r_eax s)]))"

definition check_point_x87_env :: "string \<Rightarrow> outcome \<Rightarrow> cpu \<Rightarrow> string list res" where
  "check_point_x87_env name std c =
     (let s = o_X87 std; f = c_x87 c in
      Inr (concat [differs ''fcw'' (sa_fcw f \<noteq> o_fcw s), differs ''fsw'' (sa_fsw f \<noteq> o_fsw s), differs ''ftw'' (sa_ftw f \<noteq> o_ftw s),
        differs ''ffdp'' (fsa_get_ffdp f \<noteq> o_ffdp s), differs ''ffip'' (fsa_get_ffip f \<noteq> o_ffip s),
        differs ''ffop'' (fsa_get_ffop f \<noteq> o_ffop s)]))"

definition check_points :: "(string \<times> (string \<Rightarrow> outcome \<Rightarrow> cpu \<Rightarrow> string list res)) list" where
  "check_points =
     [(''ah'', check_x86_reg (reg8hi_of \<circ> r_eax)), (''bh'', check_x86_reg (reg8hi_of \<circ> r_ebx)),
      (''ch'', check_x86_reg (reg8hi_of \<circ> r_ecx)), (''dh'', check_x86_reg (reg8hi_of \<circ> r_edx)),
      (''al'', check_x86_reg (reg8lo_of \<circ> r_eax)), (''bl'', check_x86_reg (reg8lo_of \<circ> r_ebx)),
      (''cl'', check_x86_reg (reg8lo_of \<circ> r_ecx)), (''dl'', check_x86_reg (reg8lo_of \<circ> r_edx)),
      (''ax'', check_x86_reg (reg16_of \<circ> r_eax)), (''bx'', check_x86_reg (reg16_of \<circ> r_ebx)),
      (''cx'', check_x86_reg (reg16_of \<circ> r_ecx)), (''dx'', check_x86_reg (reg16_of \<circ> r_edx)),
      (''si'', check_x86_reg (reg16_of \<circ> r_esi)), (''di'', check_x86_reg (reg16_of \<circ> r_edi)),
      (''sp'', check_x86_reg (reg16_of \<circ> r_esp)), (''bp'', check_x86_reg (reg16_of \<circ> r_ebp)),
      (''eax'', check_x86_reg r_eax), (''ebx'', check_x86_reg r_ebx), (''ecx'', check_x86_reg r_ecx),
      (''edx'', check_x86_reg r_edx), (''esi'', check_x86_reg r_esi), (''edi'', check_x86_reg r_edi),
      (''esp'', check_x86_reg r_esp), (''ebp'', check_x86_reg r_ebp),
      (''cs'', check_x86_reg r_cs), (''ds'', check_x86_reg r_ds), (''ss'', check_x86_reg r_ss),
      (''es'', check_x86_reg r_es), (''fs'', check_x86_reg r_fs), (''gs'', check_x86_reg r_gs),
      (''eflags'', check_x86_reg r_eflags), (''x86_state'', check_point_x86_state),
      (''st0'', check_point_fpureg 0), (''st1'', check_point_fpureg 1), (''st2'', check_point_fpureg 2),
      (''st3'', check_point_fpureg 3), (''st4'', check_point_fpureg 4), (''st5'', check_point_fpureg 5),
      (''st6'', check_point_fpureg 6), (''st7'', check_point_fpureg 7),
      (''mm0'', check_point_mmxreg 0), (''mm1'', check_point_mmxreg 1), (''mm2'', check_point_mmxreg 2),
      (''mm3'', check_point_mmxreg 3), (''mm4'', check_point_mmxreg 4), (''mm5'', check_point_mmxreg 5),
      (''mm6'', check_point_mmxreg 6), (''mm7'', check_point_mmxreg 7),
      (''fcw'', check_point_x87status o_fcw sa_fcw), (''fsw'', check_point_x87status o_fsw sa_fsw),
      (''ftw'', check_point_x87status o_ftw sa_ftw), (''ffop'', check_point_x87status o_ffop fsa_get_ffop),
      (''ffdp'', check_point_x87status o_ffdp fsa_get_ffdp), (''ffip'', check_point_x87status o_ffip fsa_get_ffip),
      (''x87_env'', check_point_x87_env),
      (''xmm0'', check_point_xmmreg 0), (''xmm1'', check_point_xmmreg 1), (''xmm2'', check_point_xmmreg 2),
      (''xmm3'', check_point_xmmreg 3), (''xmm4'', check_point_xmmreg 4), (''xmm5'', check_point_xmmreg 5),
      (''xmm6'', check_point_xmmreg 6), (''xmm7'', check_point_xmmreg 7), (''mxcsr'', check_point_mxcsr)]"

text \<open>A call of the check function with a name; without such a function the program does not link.\<close>

definition check_point :: "outcome list \<Rightarrow> string \<times> cpu \<Rightarrow> checker \<Rightarrow> checker res" where
  "check_point outs call k =
     (case call of (name, c) \<Rightarrow>
        bnd (deref (map_of check_points name)) (\<lambda>compare.
        bnd (idx outs (int (ck_point k))) (\<lambda>std.
        bnd (compare name std c) (\<lambda>ds.
        Inr (finish_check name (r_pc (c_x86 c)) ds k)))))"

definition verify_end :: "checker \<Rightarrow> checker" where
  "verify_end k = k\<lparr>ck_log := ck_log k @
     [if ck_diffs k \<noteq> 0 then Summary_fail (ck_diffs k) (ck_point k) else Summary_pass (ck_point k)]\<rparr>"

text \<open>The array ends with a zero entry.\<close>

definition zero_outcome :: outcome where
  "zero_outcome = \<lparr>o_X86 = \<lparr>r_gs = 0, r_gs_padding = 0, r_fs = 0, r_fs_padding = 0, r_es = 0, r_es_padding = 0,
       r_ds = 0, r_ds_padding = 0, r_ss = 0, r_ss_padding = 0, r_cs = 0, r_cs_padding = 0, r_eflags = 0, r_pc = 0,
       r_edi = 0, r_esi = 0, r_ebp = 0, r_esp = 0, r_ebx = 0, r_edx = 0, r_ecx = 0, r_eax = 0\<rparr>,
     o_X87 = \<lparr>o_fcw = 0, o_fsw = 0, o_ftw = 0, o_ffdp = 0, o_ffip = 0, o_ffop = 0, o_fpregs = replicate 8 (0, 0)\<rparr>,
     o_SSE = \<lparr>o_mxcsr = 0, o_mxcsr_mask = 0, o_xmmregs = replicate 8 (0, 0)\<rparr>\<rparr>"

text \<open>A run of a program that was linked with the checker and the recorded text.\<close>

definition checked_run :: "string list \<Rightarrow> string \<Rightarrow> (string \<times> cpu) list \<Rightarrow> checker res" where
  "checked_run argv stdoutput calls =
     bnd (deref (read_outcomes stdoutput)) (\<lambda>outs.
     bnd (foldM (check_point (outs @ [zero_outcome])) calls (verify_parse_argv argv start_checker)) (\<lambda>k.
     Inr (verify_end k)))"

text \<open>A run of a program that was linked with the recorder.\<close>

definition recorded_run :: "(string \<times> cpu) list \<Rightarrow> string" where
  "recorded_run calls = concat (map (\<lambda>(name, c). record_point c) calls)"

subsection \<open>What the verdict says\<close>

text \<open>The registers in which a state differs from a recorded one, as far as a check function compares them.\<close>

definition differences :: "string \<Rightarrow> cpu \<Rightarrow> cpu \<Rightarrow> string list" where
  "differences name std c =
     (case map_of check_points name of None \<Rightarrow> [] | Some compare \<Rightarrow>
        (case compare name (observed std) c of Inr ds \<Rightarrow> ds | Inl _ \<Rightarrow> []))"

lemma observed_regs [simp]:
  "i < 8 \<Longrightarrow> idx (o_fpregs (o_X87 (observed c))) (int i) = Inr (fsa_get_st (c_x87 c) i)"
  "i < 8 \<Longrightarrow> idx (o_xmmregs (o_SSE (observed c))) (int i) = Inr (fsa_get_xmm (c_sse c) i)"
  by (simp_all add: observed_def idx_def)

lemmas check_defs = check_x86_reg_def check_point_fpureg_def check_point_mmxreg_def check_point_x87status_def
  check_point_xmmreg_def check_point_mxcsr_def check_point_x86_state_def check_point_x87_env_def Let_def

lemma compares: "list_all (\<lambda>(n, f). \<forall>std c. (\<exists>ds. f n (observed std) c = Inr ds) \<and> f n (observed c) c = Inr []) check_points"
proof -
  note i = observed_regs [where i = 0, simplified] observed_regs [where i = 1, simplified]
    observed_regs [where i = 2, simplified] observed_regs [where i = 3, simplified] observed_regs [where i = 4, simplified]
    observed_regs [where i = 5, simplified] observed_regs [where i = 6, simplified] observed_regs [where i = 7, simplified]
  have o: "o_X86 (observed c) = (c_x86 c)\<lparr>r_gs_padding := 0, r_fs_padding := 0, r_es_padding := 0, r_ds_padding := 0,
       r_ss_padding := 0, r_cs_padding := 0\<rparr>" "o_fcw (o_X87 (observed c)) = sa_fcw (c_x87 c)"
    "o_fsw (o_X87 (observed c)) = sa_fsw (c_x87 c)" "o_ftw (o_X87 (observed c)) = sa_ftw (c_x87 c)"
    "o_ffdp (o_X87 (observed c)) = fsa_get_ffdp (c_x87 c)" "o_ffip (o_X87 (observed c)) = fsa_get_ffip (c_x87 c)"
    "o_ffop (o_X87 (observed c)) = fsa_get_ffop (c_x87 c)" "o_mxcsr (o_SSE (observed c)) = ss_mxcsr (c_sse c)" for c
    by (simp_all add: observed_def)
  show ?thesis
    unfolding check_points_def list.pred_inject prod.case
    by (intro conjI) (simp_all add: check_defs i o differs_def)
qed

lemma compare_of: "map_of check_points n = Some f \<Longrightarrow> (\<exists>ds. f n (observed std) c = Inr ds) \<and> f n (observed c) c = Inr []"
  using compares map_of_SomeD [of check_points n f] by (fastforce simp: list_all_iff)

lemma differences_self: "differences n c c = []"
proof (cases "map_of check_points n")
  case (Some f)
  then show ?thesis using compare_of [OF Some, of c c] by (simp add: differences_def)
qed (simp add: differences_def)

lemma check_point_recorded:
  assumes "n \<in> fst ` set check_points" "ck_point k < length rec"
  shows "check_point (map observed rec @ zs) (n, c) k = Inr (finish_check n (r_pc (c_x86 c)) (differences n (rec ! ck_point k) c) k)"
proof -
  obtain f where f: "map_of check_points n = Some f" using assms(1) by (meson map_of_eq_None_iff not_Some_eq)
  obtain ds where "f n (observed (rec ! ck_point k)) c = Inr ds" using compare_of [OF f] by blast
  then show ?thesis
    using f assms(2) by (simp add: check_point_def differences_def idx_def nth_append)
qed

lemma checks_recorded:
  assumes "\<forall>(n, c) \<in> set calls. n \<in> fst ` set check_points" "ck_point k + length calls \<le> length rec"
  shows "\<exists>k'. foldM (check_point (map observed rec @ zs)) calls k = Inr k' \<and> ck_point k' = ck_point k + length calls \<and>
    ck_diffs k' = ck_diffs k +
      length (filter (\<lambda>((n, c), std). differences n std c \<noteq> []) (zip calls (drop (ck_point k) rec)))"
  using assms
proof (induction calls arbitrary: k)
  case (Cons call calls)
  obtain n c where call: "call = (n, c)" by fastforce
  let ?k = "finish_check n (r_pc (c_x86 c)) (differences n (rec ! ck_point k) c) k"
  have d: "drop (ck_point k) rec = rec ! ck_point k # drop (Suc (ck_point k)) rec"
    using Cons.prems(2) by (simp add: Cons_nth_drop_Suc)
  have k: "ck_point ?k = Suc (ck_point k)"
    "ck_diffs ?k = ck_diffs k + (if differences n (rec ! ck_point k) c \<noteq> [] then 1 else 0)"
    by (simp_all add: finish_check_def)
  have "ck_point ?k + length calls \<le> length rec" "\<forall>(n, c) \<in> set calls. n \<in> fst ` set check_points"
    using Cons.prems k by auto
  from Cons.IH [OF this(2,1)] obtain k' where k': "foldM (check_point (map observed rec @ zs)) calls ?k = Inr k'"
    "ck_point k' = ck_point ?k + length calls"
    "ck_diffs k' = ck_diffs ?k + length (filter (\<lambda>((n, c), std). differences n std c \<noteq> []) (zip calls (drop (ck_point ?k) rec)))"
    by blast
  have "check_point (map observed rec @ zs) call k = Inr ?k"
    unfolding call by (rule check_point_recorded) (use Cons.prems call in auto)
  then show ?case using k' k d by (auto simp: call)
qed simp

lemma recorded_run_states: "recorded_run calls = concat (map record_point (map snd calls))"
  by (induction calls) (auto simp: recorded_run_def)

lemma start_point: "ck_point (verify_parse_argv argv start_checker) = 0" "ck_diffs (verify_parse_argv argv start_checker) = 0"
  by (auto simp: verify_parse_argv_def start_checker_def split: list.splits char.splits bool.splits)

subsection \<open>Properties\<close>

text \<open>
  C7: The text the recorder prints is read back by the checker.  Whatever the states at the check points,
  the recorded text is, as the initialiser of the checker's array, the list of these states: every
  register, the environment and stack of the FPU and the SSE registers have their values, in the right
  members, and the padding is zero.
\<close>

theorem recorded_run_read_back:
  "read_outcomes (recorded_run calls) = Some (map (observed \<circ> snd) calls)"
  unfolding recorded_run_states read_recorded by simp



text \<open>
  C9: A program whose run does not depend on the library it is linked with passes.  If the run with the
  checker makes the same check points in the same states as the recorded one, the checker reports
  that all check points pass, and prints no difference.
\<close>

theorem same_run_passes:
  assumes "\<forall>(n, c) \<in> set calls. n \<in> fst ` set check_points"
  shows "\<exists>k. checked_run argv (recorded_run calls) calls = Inr k \<and> last (ck_log k) = Summary_pass (length calls) \<and>
    (\<forall>m \<in> set (ck_log k). \<not> (\<exists>n. m = Differs n) \<and> \<not> (\<exists>i n pc. m = Failed i n pc))"
proof -
  let ?good = "\<lambda>m. \<not> (\<exists>n. m = Differs n) \<and> \<not> (\<exists>i n pc. m = Failed i n pc)"
  let ?outs = "map observed (map snd calls) @ [zero_outcome]"
  have steps: "\<exists>k'. foldM (check_point ?outs) ys k = Inr k' \<and> ck_point k' = length calls \<and> ck_diffs k' = 0 \<and> (\<forall>m \<in> set (ck_log k'). ?good m)"
    if "calls = xs @ ys" "ck_point k = length xs" "ck_diffs k = 0" "\<forall>m \<in> set (ck_log k). ?good m" for xs ys k
    using that
  proof (induction ys arbitrary: xs k)
    case (Cons call ys)
    obtain n c where call: "call = (n, c)" by fastforce
    have "check_point ?outs (n, c) k = Inr (finish_check n (r_pc (c_x86 c)) (differences n (map snd calls ! ck_point k) c) k)"
      by (rule check_point_recorded) (use Cons.prems assms call in auto)
    moreover have "map snd calls ! ck_point k = c" using Cons.prems call by (simp add: nth_append)
    ultimately have c: "check_point ?outs call k = Inr (finish_check n (r_pc (c_x86 c)) [] k)"
      by (simp add: call differences_self)
    have "\<exists>k'. foldM (check_point ?outs) ys (finish_check n (r_pc (c_x86 c)) [] k) = Inr k' \<and> ck_point k' = length calls \<and>
        ck_diffs k' = 0 \<and> (\<forall>m \<in> set (ck_log k'). ?good m)"
      by (rule Cons.IH [of "xs @ [call]"]) (use Cons.prems in \<open>auto simp: finish_check_def\<close>)
    then show ?case using c by simp
  qed simp
  have "\<forall>m \<in> set (ck_log (verify_parse_argv argv start_checker)). ?good m"
    by (auto simp: verify_parse_argv_def start_checker_def split: list.splits char.splits bool.splits)
  from steps [of "[]", OF _ _ _ this] obtain k where "foldM (check_point ?outs) calls (verify_parse_argv argv start_checker) = Inr k"
    "ck_point k = length calls" "ck_diffs k = 0" "\<forall>m \<in> set (ck_log k). ?good m"
    by (auto simp: start_point)
  then show ?thesis unfolding checked_run_def recorded_run_states read_recorded by (simp add: verify_end_def)
qed

theorem same_run_passes_witness:
  "\<exists>c k. checked_run [''test'', ''-v''] (recorded_run [(''st0'', c), (''x86_state'', c)]) [(''st0'', c), (''x86_state'', c)] = Inr k \<and>
     last (ck_log k) = Summary_pass 2"
proof -
  let ?c = "\<lparr>c_sse = \<lparr>ss_xmm_regs = (\<lambda>i. (0, 0)), ss_mxcsr = 0\<rparr>,
    c_x87 = \<lparr>sa_fcw = 0, sa_fsw = 0, sa_ftw = 0, sa_ffip_0 = 0, sa_ffop_ffip_16 = 0, sa_ffdp_0 = 0, sa_ffdp_16 = 0, sa_st80 = (\<lambda>i. 1)\<rparr>,
    c_x86 = o_X86 zero_outcome\<lparr>r_eax := 7\<rparr>\<rparr>"
  have "\<forall>(n, c) \<in> set [(''st0'', ?c), (''x86_state'', ?c)]. n \<in> fst ` set check_points" by (simp add: check_points_def)
  from same_run_passes [OF this, of "[''test'', ''-v'']"] show ?thesis
    by (intro exI [of _ ?c]) (auto simp: numeral_2_eq_2)
qed

text \<open>The check of the whole state does not see the stack pointer, the frame pointer and \<open>gs\<close>.\<close>

lemma x86_state_ignores:
  "differences ''x86_state'' std (std\<lparr>c_x86 := (c_x86 std)\<lparr>r_esp := a, r_ebp := b, r_gs := g\<rparr>\<rparr>) = []"
  by (simp add: differences_def check_points_def check_point_x86_state_def Let_def observed_def differs_def)

end
