(* ===== verification/CheckMacro.thy ===== *)
theory CheckMacro
  imports Verify
begin

text \<open>
  The macro \<open>check\<close> of \<open>btrtg/output_file_wrapper.c\<close>, which stands in every generated program: what its
  lines do on the processor, and that they pass the state of the program to the check function and
  leave the program as it was.
\<close>

subsection \<open>The processor\<close>

text \<open>
  The registers, the flags, the words on the stack from \<open>esp\<close> upwards, the FPU, the SSE registers, the
  area \<open>fxstate\<close> of the program, and the check functions called so far with what they were passed.
\<close>

record 'f mach =
  m_gpr :: "string \<Rightarrow> 32 word"
  m_seg :: "string \<Rightarrow> 16 word"
  m_flags :: "32 word"
  m_stack :: "32 word list"
  m_x87 :: 'f
  m_xmm :: "nat \<Rightarrow> 64 word \<times> 64 word"
  m_mxcsr :: "32 word"
  m_fxstate :: sse_area
  m_calls :: "(string \<times> cpu) list"

text \<open>What a call of a C function may change, besides the words below \<open>esp\<close>.\<close>

record 'f clobber =
  k_eax :: "32 word"
  k_ecx :: "32 word"
  k_edx :: "32 word"
  k_flags :: "32 word"
  k_x87 :: 'f
  k_xmm :: "nat \<Rightarrow> 64 word \<times> 64 word"
  k_mxcsr :: "32 word"

text \<open>
  The processor and the library: the address behind the call of \<open>_get_pc\<close>, what a push of a segment
  register leaves in the upper half of the word, the flags after an addition or subtraction, the image
  of the FPU that \<open>fsave\<close> writes, the FPU after it, and \<open>frstor\<close>; the address of \<open>fxstate\<close>; the function called.
\<close>

record 'f platform =
  ret_addr :: "32 word"
  seg_upper :: "string \<Rightarrow> 16 word"
  alu_flags :: "32 word \<Rightarrow> 32 word"
  fsave_image :: "'f \<Rightarrow> 32 word list"
  fsave_reset :: 'f
  frstor_image :: "32 word list \<Rightarrow> 'f"
  fxstate_addr :: "32 word"
  callee :: "string \<Rightarrow> cpu \<Rightarrow> 'f mach \<Rightarrow> 'f clobber"

definition platform_ok :: "'f platform \<Rightarrow> bool" where
  "platform_ok p \<longleftrightarrow> (\<forall>f. length (fsave_image p f) = 27 \<and> frstor_image p (fsave_image p f) = f)"

definition push_word :: "32 word \<Rightarrow> 'f mach \<Rightarrow> 'f mach" where
  "push_word v m = m\<lparr>m_stack := v # m_stack m, m_gpr := (m_gpr m)(''esp'' := m_gpr m ''esp'' - 4)\<rparr>"

definition pop_word :: "'f mach \<Rightarrow> (32 word \<times> 'f mach) option" where
  "pop_word m = (case m_stack m of [] \<Rightarrow> None
     | v # st \<Rightarrow> Some (v, m\<lparr>m_stack := st, m_gpr := (m_gpr m)(''esp'' := m_gpr m ''esp'' + 4)\<rparr>))"

definition push_reg :: "string \<Rightarrow> 'f mach \<Rightarrow> 'f mach" where
  "push_reg r m = push_word (m_gpr m r) m"

definition pop_reg :: "string \<Rightarrow> 'f mach \<Rightarrow> 'f mach option" where
  "pop_reg r m = map_option (\<lambda>(v, m). m\<lparr>m_gpr := (m_gpr m)(r := v)\<rparr>) (pop_word m)"

definition push_seg :: "'f platform \<Rightarrow> string \<Rightarrow> 'f mach \<Rightarrow> 'f mach" where
  "push_seg p r m = push_word (word_cat (seg_upper p r) (m_seg m r)) m"

text \<open>\<open>pusha\<close> pushes the value \<open>esp\<close> had before, \<open>popa\<close> skips it.\<close>

definition pusha :: "'f mach \<Rightarrow> 'f mach" where
  "pusha m = foldl (\<lambda>m' r. push_word (m_gpr m r) m') m [''eax'', ''ecx'', ''edx'', ''ebx'', ''esp'', ''ebp'', ''esi'', ''edi'']"

definition popa :: "'f mach \<Rightarrow> 'f mach option" where
  "popa m = (case m_stack m of
     di # si # bp # sp # bx # dx # cx # ax # st \<Rightarrow>
       Some (m\<lparr>m_stack := st, m_gpr := (m_gpr m)(''edi'' := di, ''esi'' := si, ''ebp'' := bp, ''ebx'' := bx,
         ''edx'' := dx, ''ecx'' := cx, ''eax'' := ax, ''esp'' := m_gpr m ''esp'' + 32)\<rparr>)
   | _ \<Rightarrow> None)"

text \<open>The arguments of a check function, as C lays them out on the stack: a pointer and two structures.\<close>

definition bytes_of :: "32 word list \<Rightarrow> nat \<Rightarrow> 8 word" where
  "bytes_of ws i = ucast (drop_bit (8 * (i mod 4)) (ws ! (i div 4)))"

definition area_of :: "32 word list \<Rightarrow> save_area" where
  "area_of ws = \<lparr>sa_fcw = ucast (ws ! 0), sa_fsw = ucast (ws ! 1), sa_ftw = ucast (ws ! 2), sa_ffip_0 = ucast (ws ! 3),
     sa_ffop_ffip_16 = ws ! 4, sa_ffdp_0 = ucast (ws ! 5), sa_ffdp_16 = ws ! 6, sa_st80 = bytes_of (drop 7 ws)\<rparr>"

definition lo_half :: "32 word \<Rightarrow> 16 word" where
  "lo_half w = ucast w"

definition hi_half :: "32 word \<Rightarrow> 16 word" where
  "hi_half w = ucast (drop_bit 16 w)"

definition regs_of :: "32 word list \<Rightarrow> x86_regs" where
  "regs_of ws = \<lparr>r_gs = lo_half (ws ! 0), r_gs_padding = hi_half (ws ! 0), r_fs = lo_half (ws ! 1), r_fs_padding = hi_half (ws ! 1),
     r_es = lo_half (ws ! 2), r_es_padding = hi_half (ws ! 2), r_ds = lo_half (ws ! 3), r_ds_padding = hi_half (ws ! 3),
     r_ss = lo_half (ws ! 4), r_ss_padding = hi_half (ws ! 4), r_cs = lo_half (ws ! 5), r_cs_padding = hi_half (ws ! 5),
     r_eflags = ws ! 6, r_pc = ws ! 7, r_edi = ws ! 8, r_esi = ws ! 9, r_ebp = ws ! 10, r_esp = ws ! 11,
     r_ebx = ws ! 12, r_edx = ws ! 13, r_ecx = ws ! 14, r_eax = ws ! 15\<rparr>"

definition call_check :: "'f platform \<Rightarrow> string \<Rightarrow> 'f mach \<Rightarrow> 'f mach option" where
  "call_check p name m =
     (case m_stack m of [] \<Rightarrow> None
      | ptr # args \<Rightarrow>
          if ptr = fxstate_addr p \<and> 43 \<le> length args then
            let c = \<lparr>c_sse = m_fxstate m, c_x87 = area_of (take 27 args), c_x86 = regs_of (take 16 (drop 27 args))\<rparr>;
                k = callee p name c m
            in Some (m\<lparr>m_gpr := (m_gpr m)(''eax'' := k_eax k, ''ecx'' := k_ecx k, ''edx'' := k_edx k), m_flags := k_flags k,
                 m_x87 := k_x87 k, m_xmm := k_xmm k, m_mxcsr := k_mxcsr k, m_calls := m_calls m @ [(name, c)]\<rparr>)
          else None)"

definition store_xmm :: "nat \<Rightarrow> 'f mach \<Rightarrow> 'f mach" where
  "store_xmm i m = m\<lparr>m_fxstate := (m_fxstate m)\<lparr>ss_xmm_regs := (ss_xmm_regs (m_fxstate m))(i := m_xmm m i)\<rparr>\<rparr>"

text \<open>The area of 0x6c bytes is 27 words, whatever they hold.\<close>

definition sub_esp :: "'f platform \<Rightarrow> 'f mach \<Rightarrow> 'f mach" where
  "sub_esp p m = m\<lparr>m_stack := replicate 27 0 @ m_stack m, m_gpr := (m_gpr m)(''esp'' := m_gpr m ''esp'' - 0x6c),
     m_flags := alu_flags p (m_flags m)\<rparr>"

definition add_esp :: "'f platform \<Rightarrow> 'f mach \<Rightarrow> 'f mach option" where
  "add_esp p m = (if length (m_stack m) < 27 then None
     else Some (m\<lparr>m_stack := drop 27 (m_stack m), m_gpr := (m_gpr m)(''esp'' := m_gpr m ''esp'' + 0x6c),
       m_flags := alu_flags p (m_flags m)\<rparr>))"

definition fsave_esp :: "'f platform \<Rightarrow> 'f mach \<Rightarrow> 'f mach option" where
  "fsave_esp p m = (if length (m_stack m) < 27 then None
     else Some (m\<lparr>m_stack := fsave_image p (m_x87 m) @ drop 27 (m_stack m), m_x87 := fsave_reset p\<rparr>))"

definition frstor_esp :: "'f platform \<Rightarrow> 'f mach \<Rightarrow> 'f mach option" where
  "frstor_esp p m = (if length (m_stack m) < 27 then None else Some (m\<lparr>m_x87 := frstor_image p (take 27 (m_stack m))\<rparr>))"

text \<open>What a line of the macro does, with the argument of the macro for the function to call.\<close>

definition line_effects :: "'f platform \<Rightarrow> string \<Rightarrow> (string \<times> ('f mach \<Rightarrow> 'f mach option)) list" where
  "line_effects p name =
     [(''  pusha'', Some \<circ> pusha), (''  call _get_pc'', \<lambda>m. Some (m\<lparr>m_gpr := (m_gpr m)(''eax'' := ret_addr p)\<rparr>)),
      (''  push eax'', Some \<circ> push_reg ''eax''), (''  pushf'', \<lambda>m. Some (push_word (m_flags m) m)),
      (''  push cs'', Some \<circ> push_seg p ''cs''), (''  push ss'', Some \<circ> push_seg p ''ss''),
      (''  push ds'', Some \<circ> push_seg p ''ds''), (''  push es'', Some \<circ> push_seg p ''es''),
      (''  push fs'', Some \<circ> push_seg p ''fs''), (''  push gs'', Some \<circ> push_seg p ''gs''),
      (''  sub esp,0x6c'', Some \<circ> sub_esp p), (''  fsave [esp]'', fsave_esp p),
      (''  movupd [fxstate],xmm0'', Some \<circ> store_xmm 0), (''  movupd [fxstate + 0x10],xmm1'', Some \<circ> store_xmm 1),
      (''  movupd [fxstate + 0x20],xmm2'', Some \<circ> store_xmm 2), (''  movupd [fxstate + 0x30],xmm3'', Some \<circ> store_xmm 3),
      (''  movupd [fxstate + 0x40],xmm4'', Some \<circ> store_xmm 4), (''  movupd [fxstate + 0x50],xmm5'', Some \<circ> store_xmm 5),
      (''  movupd [fxstate + 0x60],xmm6'', Some \<circ> store_xmm 6), (''  movupd [fxstate + 0x70],xmm7'', Some \<circ> store_xmm 7),
      (''  stmxcsr [fxstate + 0x80]'', \<lambda>m. Some (m\<lparr>m_fxstate := (m_fxstate m)\<lparr>ss_mxcsr := m_mxcsr m\<rparr>\<rparr>)),
      (''  lea eax,fxstate'', \<lambda>m. Some (m\<lparr>m_gpr := (m_gpr m)(''eax'' := fxstate_addr p)\<rparr>)),
      (''  call check_point_%1'', call_check p name), (''  pop eax'', pop_reg ''eax''), (''  frstor [esp]'', frstor_esp p),
      (''  add esp,0x6c'', add_esp p), (''  popf'', \<lambda>m. map_option (\<lambda>(v, m). m\<lparr>m_flags := v\<rparr>) (pop_word m)),
      (''  popa'', popa)]"

fun run_lines :: "'f platform \<Rightarrow> string \<Rightarrow> string list \<Rightarrow> 'f mach \<Rightarrow> 'f mach option" where
  "run_lines p name [] m = Some m"
| "run_lines p name (l # ls) m =
     (case map_of (line_effects p name) l of None \<Rightarrow> None
      | Some f \<Rightarrow> (case f m of None \<Rightarrow> None | Some m \<Rightarrow> run_lines p name ls m))"

text \<open>A use of the macro: the lines between its first and its last.\<close>

definition run_check :: "'f platform \<Rightarrow> string \<Rightarrow> 'f mach \<Rightarrow> 'f mach option" where
  "run_check p name m = run_lines p name (butlast (tl check_macro_lines)) m"

subsection \<open>The macro runs\<close>

definition check_head :: "string list" where
  "check_head = take 22 (butlast (tl check_macro_lines))"

definition check_tail :: "string list" where
  "check_tail = drop 22 (butlast (tl check_macro_lines))"

lemma check_head_lines: "check_head =
    [''  pusha'', ''  call _get_pc'', ''  push eax'', ''  pushf'',
     ''  push cs'', ''  push ss'', ''  push ds'', ''  push es'', ''  push fs'', ''  push gs'',
     ''  sub esp,0x6c'', ''  fsave [esp]'', ''  movupd [fxstate],xmm0'',
     ''  movupd [fxstate + 0x10],xmm1'', ''  movupd [fxstate + 0x20],xmm2'',
     ''  movupd [fxstate + 0x30],xmm3'', ''  movupd [fxstate + 0x40],xmm4'',
     ''  movupd [fxstate + 0x50],xmm5'', ''  movupd [fxstate + 0x60],xmm6'',
     ''  movupd [fxstate + 0x70],xmm7'', ''  stmxcsr [fxstate + 0x80]'', ''  lea eax,fxstate'']"
  by (simp add: check_head_def check_macro_lines_def)

lemma check_tail_lines: "check_tail =
    [''  push eax'', ''  call check_point_%1'', ''  pop eax'',
     ''  frstor [esp]'', ''  add esp,0x6c'', ''  pop eax'', ''  pop eax'', ''  pop eax'',
     ''  pop eax'', ''  pop eax'', ''  pop eax'', ''  popf'', ''  pop eax'', ''  popa'']"
  by (simp add: check_tail_def check_macro_lines_def)

lemma run_lines_append:
  "run_lines p name (xs @ ys) m = (case run_lines p name xs m of None \<Rightarrow> None | Some m \<Rightarrow> run_lines p name ys m)"
  by (induction xs arbitrary: m) (auto split: option.split)

lemma run_check_parts:
  "run_check p name m = (case run_lines p name check_head m of None \<Rightarrow> None | Some m \<Rightarrow> run_lines p name check_tail m)"
  unfolding run_check_def run_lines_append [symmetric] check_head_def check_tail_def append_take_drop_id ..

lemma effects [simp]:
  "map_of (line_effects p name) ''  pusha'' = Some (Some \<circ> pusha)"
  "map_of (line_effects p name) ''  call _get_pc'' = Some (\<lambda>m. Some (m\<lparr>m_gpr := (m_gpr m)(''eax'' := ret_addr p)\<rparr>))"
  "map_of (line_effects p name) ''  push eax'' = Some (Some \<circ> push_reg ''eax'')"
  "map_of (line_effects p name) ''  pushf'' = Some (\<lambda>m. Some (push_word (m_flags m) m))"
  "map_of (line_effects p name) ''  push cs'' = Some (Some \<circ> push_seg p ''cs'')"
  "map_of (line_effects p name) ''  push ss'' = Some (Some \<circ> push_seg p ''ss'')"
  "map_of (line_effects p name) ''  push ds'' = Some (Some \<circ> push_seg p ''ds'')"
  "map_of (line_effects p name) ''  push es'' = Some (Some \<circ> push_seg p ''es'')"
  "map_of (line_effects p name) ''  push fs'' = Some (Some \<circ> push_seg p ''fs'')"
  "map_of (line_effects p name) ''  push gs'' = Some (Some \<circ> push_seg p ''gs'')"
  "map_of (line_effects p name) ''  sub esp,0x6c'' = Some (Some \<circ> sub_esp p)"
  "map_of (line_effects p name) ''  fsave [esp]'' = Some (fsave_esp p)"
  "map_of (line_effects p name) ''  movupd [fxstate],xmm0'' = Some (Some \<circ> store_xmm 0)"
  "map_of (line_effects p name) ''  movupd [fxstate + 0x10],xmm1'' = Some (Some \<circ> store_xmm 1)"
  "map_of (line_effects p name) ''  movupd [fxstate + 0x20],xmm2'' = Some (Some \<circ> store_xmm 2)"
  "map_of (line_effects p name) ''  movupd [fxstate + 0x30],xmm3'' = Some (Some \<circ> store_xmm 3)"
  "map_of (line_effects p name) ''  movupd [fxstate + 0x40],xmm4'' = Some (Some \<circ> store_xmm 4)"
  "map_of (line_effects p name) ''  movupd [fxstate + 0x50],xmm5'' = Some (Some \<circ> store_xmm 5)"
  "map_of (line_effects p name) ''  movupd [fxstate + 0x60],xmm6'' = Some (Some \<circ> store_xmm 6)"
  "map_of (line_effects p name) ''  movupd [fxstate + 0x70],xmm7'' = Some (Some \<circ> store_xmm 7)"
  "map_of (line_effects p name) ''  stmxcsr [fxstate + 0x80]'' = Some (\<lambda>m. Some (m\<lparr>m_fxstate := (m_fxstate m)\<lparr>ss_mxcsr := m_mxcsr m\<rparr>\<rparr>))"
  "map_of (line_effects p name) ''  lea eax,fxstate'' = Some (\<lambda>m. Some (m\<lparr>m_gpr := (m_gpr m)(''eax'' := fxstate_addr p)\<rparr>))"
  "map_of (line_effects p name) ''  call check_point_%1'' = Some (call_check p name)"
  "map_of (line_effects p name) ''  pop eax'' = Some (pop_reg ''eax'')"
  "map_of (line_effects p name) ''  frstor [esp]'' = Some (frstor_esp p)"
  "map_of (line_effects p name) ''  add esp,0x6c'' = Some (add_esp p)"
  "map_of (line_effects p name) ''  popf'' = Some (\<lambda>m. map_option (\<lambda>(v, m). m\<lparr>m_flags := v\<rparr>) (pop_word m))"
  "map_of (line_effects p name) ''  popa'' = Some popa"
  by (simp_all add: line_effects_def)

text \<open>The words the first lines push for the registers, with \<open>gs\<close> on top.\<close>

definition pushed_regs :: "'f platform \<Rightarrow> 'f mach \<Rightarrow> 32 word list" where
  "pushed_regs p m = map (\<lambda>r. word_cat (seg_upper p r) (m_seg m r)) [''gs'', ''fs'', ''es'', ''ds'', ''ss'', ''cs''] @
     [m_flags m, ret_addr p] @ map (m_gpr m) [''edi'', ''esi'', ''ebp'', ''esp'', ''ebx'', ''edx'', ''ecx'', ''eax'']"

definition saved_sse :: "'f mach \<Rightarrow> sse_area" where
  "saved_sse m = (m_fxstate m)\<lparr>ss_xmm_regs := (\<lambda>i. if i < 8 then m_xmm m i else ss_xmm_regs (m_fxstate m) i), ss_mxcsr := m_mxcsr m\<rparr>"

lemma saved_xmm: "(f(0 := g 0, 1 := g 1, 2 := g 2, 3 := g 3, 4 := g 4, 5 := g 5, 6 := g 6, 7 := g 7)) =
    (\<lambda>i. if i < (8 :: nat) then g i else f i)"
proof
  fix i
  show "(f(0 := g 0, 1 := g 1, 2 := g 2, 3 := g 3, 4 := g 4, 5 := g 5, 6 := g 6, 7 := g 7)) i = (if i < 8 then g i else f i)"
  proof (cases "i < 8")
    case True
    then have "i \<in> {0, 1, 2, 3, 4, 5, 6, 7}" by auto
    then show ?thesis by auto
  qed auto
qed

lemma run_head:
  "\<exists>m1. run_lines p name check_head m = Some m1 \<and>
    m_stack m1 = fsave_image p (m_x87 m) @ pushed_regs p m @ m_stack m \<and> m_gpr m1 ''esp'' = m_gpr m ''esp'' - 172 \<and>
    m_gpr m1 ''eax'' = fxstate_addr p \<and> m_seg m1 = m_seg m \<and> m_calls m1 = m_calls m \<and>
    m_fxstate m1 = saved_sse m \<and> (\<forall>r. r \<notin> {''eax'', ''esp''} \<longrightarrow> m_gpr m1 r = m_gpr m r)"
  unfolding check_head_lines
  by (simp add: pusha_def push_word_def push_reg_def push_seg_def sub_esp_def fsave_esp_def store_xmm_def pushed_regs_def
      saved_sse_def saved_xmm [simplified])


lemma run_tail:
  assumes "m_stack m1 = area @ regs @ st" "length area = 27" "length regs = 16" "m_gpr m1 ''eax'' = fxstate_addr p"
  shows "\<exists>m'. run_lines p name check_tail m1 = Some m' \<and>
    m_calls m' = m_calls m1 @ [(name, \<lparr>c_sse = m_fxstate m1, c_x87 = area_of area, c_x86 = regs_of regs\<rparr>)] \<and>
    m_stack m' = st \<and> m_seg m' = m_seg m1 \<and> m_x87 m' = frstor_image p area \<and> m_flags m' = regs ! 6 \<and>
    m_gpr m' = (m_gpr m1)(''edi'' := regs ! 8, ''esi'' := regs ! 9, ''ebp'' := regs ! 10, ''ebx'' := regs ! 12,
      ''edx'' := regs ! 13, ''ecx'' := regs ! 14, ''eax'' := regs ! 15, ''esp'' := m_gpr m1 ''esp'' + 172)"
proof -
  obtain g f e d s c fl pc di si bp sp bx dx cx ax where regs: "regs = [g, f, e, d, s, c, fl, pc, di, si, bp, sp, bx, dx, cx, ax]"
    using assms(3) by (auto simp: numeral_eq_Suc length_Suc_conv)
  show ?thesis
    unfolding check_tail_lines
    by (simp add: push_reg_def push_word_def call_check_def pop_reg_def pop_word_def frstor_esp_def add_esp_def popa_def
        assms(1,2,4) regs Let_def fun_upd_twist add.commute)
qed

subsection \<open>Properties\<close>

text \<open>
  C5: The macro shows the check function the state of the program and hides the call from the
  program.  From any state, a use of the macro calls the check function it names once, with a state whose
  members are the registers, flags and segment registers at that point, the return address as the
  program counter, the image of the FPU and the SSE registers and their control register; afterwards
  every general register with the stack pointer, the flags, the segment registers, the FPU and the
  stack are what they were, whatever the called function did to what it may change.
\<close>

theorem check_macro_transparent:
  assumes "platform_ok p"
  shows "\<exists>m' c. run_check p name m = Some m' \<and> m_calls m' = m_calls m @ [(name, c)] \<and>
    (r_eax (c_x86 c), r_ebx (c_x86 c), r_ecx (c_x86 c), r_edx (c_x86 c)) =
      (m_gpr m ''eax'', m_gpr m ''ebx'', m_gpr m ''ecx'', m_gpr m ''edx'') \<and>
    (r_esi (c_x86 c), r_edi (c_x86 c), r_ebp (c_x86 c), r_esp (c_x86 c)) =
      (m_gpr m ''esi'', m_gpr m ''edi'', m_gpr m ''ebp'', m_gpr m ''esp'') \<and>
    (r_cs (c_x86 c), r_ds (c_x86 c), r_es (c_x86 c), r_fs (c_x86 c), r_gs (c_x86 c), r_ss (c_x86 c)) =
      (m_seg m ''cs'', m_seg m ''ds'', m_seg m ''es'', m_seg m ''fs'', m_seg m ''gs'', m_seg m ''ss'') \<and>
    r_eflags (c_x86 c) = m_flags m \<and> r_pc (c_x86 c) = ret_addr p \<and> c_x87 c = area_of (fsave_image p (m_x87 m)) \<and>
    (\<forall>i < 8. fsa_get_xmm (c_sse c) i = m_xmm m i) \<and> ss_mxcsr (c_sse c) = m_mxcsr m \<and>
    m_gpr m' = m_gpr m \<and> m_flags m' = m_flags m \<and> m_seg m' = m_seg m \<and> m_x87 m' = m_x87 m \<and> m_stack m' = m_stack m"
proof -
  obtain m1 where m1: "run_lines p name check_head m = Some m1"
    "m_stack m1 = fsave_image p (m_x87 m) @ pushed_regs p m @ m_stack m" "m_gpr m1 ''esp'' = m_gpr m ''esp'' - 172"
    "m_gpr m1 ''eax'' = fxstate_addr p" "m_seg m1 = m_seg m" "m_calls m1 = m_calls m" "m_fxstate m1 = saved_sse m"
    "\<forall>r. r \<notin> {''eax'', ''esp''} \<longrightarrow> m_gpr m1 r = m_gpr m r"
    using run_head [of p name m] by blast
  have f: "length (fsave_image p (m_x87 m)) = 27" "frstor_image p (fsave_image p (m_x87 m)) = m_x87 m"
    using assms by (auto simp: platform_ok_def)
  have l: "length (pushed_regs p m) = 16" by (simp add: pushed_regs_def)
  obtain m' where m': "run_lines p name check_tail m1 = Some m'"
    "m_calls m' = m_calls m1 @ [(name, \<lparr>c_sse = m_fxstate m1, c_x87 = area_of (fsave_image p (m_x87 m)), c_x86 = regs_of (pushed_regs p m)\<rparr>)]"
    "m_stack m' = m_stack m" "m_seg m' = m_seg m1" "m_x87 m' = m_x87 m" "m_flags m' = pushed_regs p m ! 6"
    "m_gpr m' = (m_gpr m1)(''edi'' := pushed_regs p m ! 8, ''esi'' := pushed_regs p m ! 9, ''ebp'' := pushed_regs p m ! 10,
      ''ebx'' := pushed_regs p m ! 12, ''edx'' := pushed_regs p m ! 13, ''ecx'' := pushed_regs p m ! 14,
      ''eax'' := pushed_regs p m ! 15, ''esp'' := m_gpr m1 ''esp'' + 172)"
    using run_tail [OF m1(2) f(1) l m1(4), of name] f(2) by auto
  have n: "pushed_regs p m ! 6 = m_flags m" "pushed_regs p m ! 8 = m_gpr m ''edi''" "pushed_regs p m ! 9 = m_gpr m ''esi''"
    "pushed_regs p m ! 10 = m_gpr m ''ebp''" "pushed_regs p m ! 12 = m_gpr m ''ebx''" "pushed_regs p m ! 13 = m_gpr m ''edx''"
    "pushed_regs p m ! 14 = m_gpr m ''ecx''" "pushed_regs p m ! 15 = m_gpr m ''eax''"
    by (simp_all add: pushed_regs_def)
  have gpr: "m_gpr m' = m_gpr m" using m1(3,8) by (auto simp: m'(7) n fun_eq_iff)
  have seg: "lo_half (word_cat a b) = b" for a b :: "16 word"
    by (rule bit_word_eqI) (simp add: lo_half_def bit_word_cat_iff bit_ucast_iff)
  have regs: "regs_of (pushed_regs p m) = \<lparr>r_gs = m_seg m ''gs'', r_gs_padding = hi_half (pushed_regs p m ! 0),
      r_fs = m_seg m ''fs'', r_fs_padding = hi_half (pushed_regs p m ! 1), r_es = m_seg m ''es'', r_es_padding = hi_half (pushed_regs p m ! 2),
      r_ds = m_seg m ''ds'', r_ds_padding = hi_half (pushed_regs p m ! 3), r_ss = m_seg m ''ss'', r_ss_padding = hi_half (pushed_regs p m ! 4),
      r_cs = m_seg m ''cs'', r_cs_padding = hi_half (pushed_regs p m ! 5), r_eflags = m_flags m, r_pc = ret_addr p,
      r_edi = m_gpr m ''edi'', r_esi = m_gpr m ''esi'', r_ebp = m_gpr m ''ebp'', r_esp = m_gpr m ''esp'', r_ebx = m_gpr m ''ebx'',
      r_edx = m_gpr m ''edx'', r_ecx = m_gpr m ''ecx'', r_eax = m_gpr m ''eax''\<rparr>"
    by (simp add: regs_of_def n) (simp add: pushed_regs_def seg)
  show ?thesis
    using m1(1,5-7) m'(1-6) gpr
    by (simp add: run_check_parts regs n saved_sse_def fsa_get_xmm_def)
qed


text \<open>A processor whose FPU has one state, and a function that changes all it may change.\<close>

definition demo_platform :: "unit platform" where
  "demo_platform = \<lparr>ret_addr = 0x1000, seg_upper = (\<lambda>r. 0), alu_flags = (\<lambda>f. 0), fsave_image = (\<lambda>f. replicate 27 0),
     fsave_reset = (), frstor_image = (\<lambda>ws. ()), fxstate_addr = 0x2000,
     callee = (\<lambda>n c m. \<lparr>k_eax = 1, k_ecx = 2, k_edx = 3, k_flags = 4, k_x87 = (), k_xmm = (\<lambda>i. (0, 0)), k_mxcsr = 0\<rparr>)\<rparr>"

definition demo_mach :: "unit mach" where
  "demo_mach = \<lparr>m_gpr = (\<lambda>r. if r = ''eax'' then 7 else if r = ''esp'' then 0x8000 else 0), m_seg = (\<lambda>r. 0x23), m_flags = 0x202,
     m_stack = [5], m_x87 = (), m_xmm = (\<lambda>i. (of_nat i, 0)), m_mxcsr = 0x1F80,
     m_fxstate = \<lparr>ss_xmm_regs = (\<lambda>i. (0, 0)), ss_mxcsr = 0\<rparr>, m_calls = []\<rparr>"

theorem check_macro_transparent_witness:
  "\<exists>m' c. run_check demo_platform ''eax'' demo_mach = Some m' \<and> m_calls m' = [(''eax'', c)] \<and> r_eax (c_x86 c) = 7 \<and>
     m_gpr m' ''eax'' = 7 \<and> m_gpr m' ''esp'' = 0x8000 \<and> m_flags m' = 0x202"
proof -
  have "platform_ok demo_platform" by (simp add: platform_ok_def demo_platform_def)
  from check_macro_transparent [OF this, of "''eax''" demo_mach] show ?thesis by (auto simp: demo_mach_def)
qed


text \<open>The SSE registers and their control register are passed, but not put back.\<close>

lemma check_macro_loses_xmm:
  "\<exists>m'. run_check demo_platform name demo_mach = Some m' \<and> m_xmm m' 1 \<noteq> m_xmm demo_mach 1 \<and> m_mxcsr m' \<noteq> m_mxcsr demo_mach"
  unfolding run_check_parts check_head_lines check_tail_lines
  by (simp add: pusha_def push_word_def push_reg_def push_seg_def sub_esp_def fsave_esp_def store_xmm_def
      call_check_def pop_reg_def pop_word_def frstor_esp_def add_esp_def popa_def Let_def
      demo_platform_def demo_mach_def)

end
