(* ===== verification/StrFunc.thy ===== *)
theory StrFunc
  imports GenState
begin

unbundle bit_operations_syntax

text \<open>
  The conversions of string literals, \<open>engine/strfunc.c\<close> with the stores of \<open>include/bytesex.h\<close>: from
  UTF-8 to UTF-16 and UTF-32 in both byte orders.
\<close>

subsection \<open>The conversions\<close>

definition WRITESHORT :: "32 word \<Rightarrow> 8 word list" where
  "WRITESHORT v = [ucast v, ucast (drop_bit 8 v)]"

definition WRITELONG :: "32 word \<Rightarrow> 8 word list" where
  "WRITELONG v = WRITESHORT v @ WRITESHORT (drop_bit 16 v)"

definition emit_16be :: "32 word \<Rightarrow> 8 word list" where
  "emit_16be x = [ucast (drop_bit 8 x), ucast x]"

definition emit_32be :: "32 word \<Rightarrow> 8 word list" where
  "emit_32be x = [ucast (drop_bit 24 x), ucast (drop_bit 16 x), ucast (drop_bit 8 x), ucast x]"

text \<open>
  The four functions share their loop; they differ in what they do with the code of a character of
  several bytes: \<open>finish\<close> gives the bytes to write, or nothing when the code is refused.
\<close>

fun utf8_loop ::
  "(32 word \<Rightarrow> 8 word list) \<Rightarrow> (32 word \<Rightarrow> 32 word \<Rightarrow> 8 word list option) \<Rightarrow> nat \<Rightarrow> 32 word \<Rightarrow> 32 word \<Rightarrow>
   8 word list \<Rightarrow> 8 word list option" where
  "utf8_loop emit finish expect v vmin [] = (if expect \<noteq> 0 then None else Some [])"
| "utf8_loop emit finish expect v vmin (c # str) =
     (if expect \<noteq> 0 then
        if c AND 0xC0 \<noteq> 0x80 then None
        else
          let v = push_bit 6 v OR ucast (c AND 0x3F) in
          if expect = 1 then
            (case finish v vmin of None \<Rightarrow> None
             | Some bs \<Rightarrow> map_option (append bs) (utf8_loop emit finish 0 v vmin str))
          else utf8_loop emit finish (expect - 1) v vmin str
      else if c < 0x80 then map_option (append (emit (ucast c))) (utf8_loop emit finish 0 v vmin str)
      else if c < 0xC0 \<or> c \<ge> 0xFE then None
      else if c < 0xE0 then utf8_loop emit finish 1 (ucast (c AND 0x1F)) 0x80 str
      else if c < 0xF0 then utf8_loop emit finish 2 (ucast (c AND 0x0F)) 0x800 str
      else if c < 0xF8 then utf8_loop emit finish 3 (ucast (c AND 0x07)) 0x10000 str
      else if c < 0xFC then utf8_loop emit finish 4 (ucast (c AND 0x03)) 0x200000 str
      else utf8_loop emit finish 5 (ucast (c AND 0x01)) 0x4000000 str)"

definition refused16 :: "32 word \<Rightarrow> 32 word \<Rightarrow> bool" where
  "refused16 v vmin \<longleftrightarrow> v < vmin \<or> v > 0x10FFFF \<or> (v \<ge> 0xD800 \<and> v \<le> 0xDFFF)"

definition refused32 :: "32 word \<Rightarrow> 32 word \<Rightarrow> bool" where
  "refused32 v vmin \<longleftrightarrow> v < vmin \<or> (v \<ge> 0xD800 \<and> v \<le> 0xDFFF)"

definition finish_16le :: "32 word \<Rightarrow> 32 word \<Rightarrow> 8 word list option" where
  "finish_16le v vmin =
     (if refused16 v vmin then None
      else if v > 0xFFFF then
        let v = v - 0x10000 in Some (WRITESHORT (0xD800 OR drop_bit 10 v) @ WRITESHORT (0xDC00 OR (v AND 0x3FF)))
      else Some (WRITESHORT v))"

text \<open>The two halves of a pair are written in the other order.\<close>

definition finish_16be :: "32 word \<Rightarrow> 32 word \<Rightarrow> 8 word list option" where
  "finish_16be v vmin =
     (if refused16 v vmin then None
      else if v > 0xFFFF then
        let v = v - 0x10000 in Some (emit_16be (0xDC00 OR (v AND 0x3FF)) @ emit_16be (0xD800 OR drop_bit 10 v))
      else Some (emit_16be v))"

definition finish_32le :: "32 word \<Rightarrow> 32 word \<Rightarrow> 8 word list option" where
  "finish_32le v vmin = (if refused32 v vmin then None else Some (WRITELONG v))"

definition finish_32be :: "32 word \<Rightarrow> 32 word \<Rightarrow> 8 word list option" where
  "finish_32be v vmin = (if refused32 v vmin then None else Some (emit_32be v))"

definition utf8_to_16le :: "8 word list \<Rightarrow> 8 word list option" where
  "utf8_to_16le str = utf8_loop WRITESHORT finish_16le 0 0 0 str"

definition utf8_to_16be :: "8 word list \<Rightarrow> 8 word list option" where
  "utf8_to_16be str = utf8_loop emit_16be finish_16be 0 0 0 str"

definition utf8_to_32le :: "8 word list \<Rightarrow> 8 word list option" where
  "utf8_to_32le str = utf8_loop WRITELONG finish_32le 0 0 0 str"

definition utf8_to_32be :: "8 word list \<Rightarrow> 8 word list option" where
  "utf8_to_32be str = utf8_loop emit_32be finish_32be 0 0 0 str"

text \<open>The result of the transform with a number, with its length, or nothing; the buffer has one zero byte more.\<close>

definition string_transform :: "8 word list \<Rightarrow> strfunc \<Rightarrow> 8 word list option" where
  "string_transform str f =
     (case f of STRFUNC_UTF16 \<Rightarrow> utf8_to_16le str | STRFUNC_UTF16LE \<Rightarrow> utf8_to_16le str | STRFUNC_UTF16BE \<Rightarrow> utf8_to_16be str
      | STRFUNC_UTF32 \<Rightarrow> utf8_to_32le str | STRFUNC_UTF32LE \<Rightarrow> utf8_to_32le str | STRFUNC_UTF32BE \<Rightarrow> utf8_to_32be str)"

subsection \<open>Unicode\<close>

text \<open>The scalar values and their encodings.\<close>

definition scalar :: "nat \<Rightarrow> bool" where
  "scalar n \<longleftrightarrow> n < 0x110000 \<and> \<not> (0xD800 \<le> n \<and> n \<le> 0xDFFF)"

definition utf8_nat :: "nat \<Rightarrow> nat list" where
  "utf8_nat n =
     (if n < 0x80 then [n]
      else if n < 0x800 then [0xC0 + n div 64, 0x80 + n mod 64]
      else if n < 0x10000 then [0xE0 + n div 4096, 0x80 + n div 64 mod 64, 0x80 + n mod 64]
      else [0xF0 + n div 262144, 0x80 + n div 4096 mod 64, 0x80 + n div 64 mod 64, 0x80 + n mod 64])"

definition utf8 :: "nat \<Rightarrow> 8 word list" where
  "utf8 n = map of_nat (utf8_nat n)"

definition utf16 :: "nat \<Rightarrow> nat list" where
  "utf16 n = (if n < 0x10000 then [n] else [0xD800 + (n - 0x10000) div 1024, 0xDC00 + (n - 0x10000) mod 1024])"

definition le_bytes :: "nat \<Rightarrow> nat \<Rightarrow> 8 word list" where
  "le_bytes k n = map (\<lambda>i. of_nat (n div 256 ^ i mod 256)) [0..<k]"

subsection \<open>Numbers behind the words\<close>

lemma head_value:
  "unat (c AND 0x3F) = unat c mod 64" "unat (c AND 0x1F) = unat c mod 32" "unat (c AND 0x0F) = unat c mod 16"
  "unat (c AND 0x07) = unat c mod 8" "unat (c AND 0x03) = unat c mod 4" "unat (c AND 0x01) = unat c mod 2" for c :: "8 word"
proof -
  have m: "unat (c AND mask k) = unat c mod 2 ^ k" for k
    unfolding take_bit_eq_mask [symmetric] unsigned_take_bit_eq by (simp add: take_bit_eq_mod)
  show "unat (c AND 0x3F) = unat c mod 64" "unat (c AND 0x1F) = unat c mod 32" "unat (c AND 0x0F) = unat c mod 16"
    "unat (c AND 0x07) = unat c mod 8" "unat (c AND 0x03) = unat c mod 4" "unat (c AND 0x01) = unat c mod 2"
    using m [of 6] m [of 5] m [of 4] m [of 3] m [of 2] m [of 1] by (simp_all add: mask_eq_exp_minus_1)
qed

lemma trail_byte: "c AND 0xC0 = 0x80 \<longleftrightarrow> unat c div 64 = 2" for c :: "8 word"
proof -
  have m: "(0xC0 :: 8 word) = push_bit 6 (mask 2)" by (simp add: mask_eq_exp_minus_1)
  have "c AND 0xC0 = push_bit 6 (drop_bit 6 c)"
    unfolding m by (rule bit_word_eqI) (auto simp: bit_simps)
  then have "unat (c AND 0xC0) = (unat c div 64 * 64) mod 256"
    by (simp add: push_bit_eq_mult unat_word_ariths(2) drop_bit_eq_div unat_div)
  moreover have "unat c < 2 ^ LENGTH(8)" by (rule unsigned_less)
  then have "unat c div 64 < 4" by (simp add: less_mult_imp_div_less)
  ultimately show ?thesis by (auto simp: word_unat_eq_iff)
qed

lemma lead_byte:
  "c < 0x80 \<longleftrightarrow> unat c < 0x80" "c < 0xC0 \<longleftrightarrow> unat c < 0xC0" "c \<ge> 0xFE \<longleftrightarrow> unat c \<ge> 0xFE" "c < 0xE0 \<longleftrightarrow> unat c < 0xE0"
  "c < 0xF0 \<longleftrightarrow> unat c < 0xF0" "c < 0xF8 \<longleftrightarrow> unat c < 0xF8" "c < 0xFC \<longleftrightarrow> unat c < 0xFC" for c :: "8 word"
  by (simp_all add: word_less_nat_alt word_le_nat_alt)

lemma shift_in:
  fixes v :: "32 word" and c :: "8 word"
  assumes "unat v < 2 ^ 26"
  shows "push_bit 6 v OR ucast (c AND 0x3F) = of_nat (unat v * 64 + unat c mod 64)"
proof -
  have m: "(0x3F :: 8 word) = mask 6" by (simp add: mask_eq_exp_minus_1)
  have d: "push_bit 6 v OR ucast (c AND 0x3F) = push_bit 6 v + ucast (c AND 0x3F)"
    unfolding m by (rule disjunctive_add [symmetric]) (auto simp: bit_simps)
  have l: "push_bit 6 v = of_nat (unat v * 64)" by (simp add: push_bit_eq_mult)
  have r: "ucast (c AND 0x3F) = (of_nat (unat c mod 64) :: 32 word)"
    by (simp add: head_value(1) [symmetric] unsigned_of_nat)
  show ?thesis unfolding d unfolding l r of_nat_add ..
qed


subsection \<open>The loop on numbers\<close>

text \<open>
  The same loop on numbers: a character in progress is the number of bytes it still needs, its value
  so far and the smallest value it may have.
\<close>

fun decode :: "nat \<Rightarrow> nat \<Rightarrow> nat \<Rightarrow> nat list \<Rightarrow> (nat \<times> nat) list option" where
  "decode ex v vmin [] = (if ex \<noteq> 0 then None else Some [])"
| "decode ex v vmin (c # cs) =
     (if ex \<noteq> 0 then
        if c div 64 \<noteq> 2 then None
        else let v = v * 64 + c mod 64 in
          if ex = 1 then map_option (Cons (v, vmin)) (decode 0 v vmin cs) else decode (ex - 1) v vmin cs
      else if c < 0x80 then map_option (Cons (c, 0)) (decode 0 v vmin cs)
      else if c < 0xC0 \<or> c \<ge> 0xFE then None
      else if c < 0xE0 then decode 1 (c mod 32) 0x80 cs
      else if c < 0xF0 then decode 2 (c mod 16) 0x800 cs
      else if c < 0xF8 then decode 3 (c mod 8) 0x10000 cs
      else if c < 0xFC then decode 4 (c mod 4) 0x200000 cs
      else decode 5 (c mod 2) 0x4000000 cs)"

text \<open>What a code becomes; a code of one byte has the bound 0 and is never refused.\<close>

definition emit_code :: "(32 word \<Rightarrow> 8 word list) \<Rightarrow> (32 word \<Rightarrow> 32 word \<Rightarrow> 8 word list option) \<Rightarrow> nat \<times> nat \<Rightarrow> 8 word list option" where
  "emit_code emit finish p =
     (if snd p = 0 then Some (emit (of_nat (fst p))) else finish (of_nat (fst p)) (of_nat (snd p)))"

fun emit_all :: "('a \<Rightarrow> 'b list option) \<Rightarrow> 'a list \<Rightarrow> 'b list option" where
  "emit_all f [] = Some []"
| "emit_all f (x # xs) = (case f x of None \<Rightarrow> None | Some bs \<Rightarrow> map_option (append bs) (emit_all f xs))"

lemma emit_all_None [simp]: "(case f of None \<Rightarrow> None | Some bs \<Rightarrow> None) = None"
  by (cases f) simp_all

text \<open>The bound on the value keeps the word from wrapping around.\<close>

lemma loop_decode:
  assumes "(unat v + 1) * 64 ^ ex \<le> 2 ^ 31" "ex = 0 \<or> vmin \<noteq> 0"
  shows "utf8_loop emit finish ex v vmin str =
    (case decode ex (unat v) (unat vmin) (map unat str) of None \<Rightarrow> None | Some ps \<Rightarrow> emit_all (emit_code emit finish) ps)"
  using assms
proof (induction str arbitrary: ex v vmin)
  case Nil
  then show ?case by simp
next
  case (Cons c str)
  have cons: "map_option (append bs) (case d of None \<Rightarrow> None | Some ps \<Rightarrow> emit_all (emit_code emit finish) ps) =
      (case map_option (Cons x) d of None \<Rightarrow> None | Some ps \<Rightarrow> emit_all (emit_code emit finish) ps)"
    if "emit_code emit finish x = Some bs" for bs x d
    using that by (cases d) simp_all
  show ?case
  proof (cases ex)
    case 0
    have start: "utf8_loop emit finish k (ucast h) w str =
        (case decode k (unat h) (unat w) (map unat str) of None \<Rightarrow> None | Some ps \<Rightarrow> emit_all (emit_code emit finish) ps)"
      if "(unat h + 1) * 64 ^ k \<le> 2 ^ 31" "w \<noteq> 0" for k and h :: "8 word" and w
    proof -
      have "unat h < 2 ^ LENGTH(8)" by (rule unsigned_less)
      then have "unat (ucast h :: 32 word) = unat h" by (simp add: unsigned_ucast_eq take_bit_nat_eq_self_iff)
      then show ?thesis using Cons.IH [of "ucast h" k w] that by simp
    qed
    have b: "unat c mod 32 < 32" "unat c mod 16 < 16" "unat c mod 8 < 8" "unat c mod 4 < 4" "unat c mod 2 < 2" by simp_all
    have small: "emit_code emit finish (unat c, 0) = Some (emit (ucast c))" by (simp add: emit_code_def)
    show ?thesis
      using Cons.IH [of v 0 vmin] Cons.prems 0 b cons [OF small] start [where h = "c AND 0x1F" and k = 1 and w = "0x80"] start [where h = "c AND 0x0F" and k = 2 and w = "0x800"]
        start [where h = "c AND 0x07" and k = 3 and w = "0x10000"] start [where h = "c AND 0x03" and k = 4 and w = "0x200000"] start [where h = "c AND 0x01" and k = 5 and w = "0x4000000"]
      by (simp add: lead_byte head_value)
  next
    case (Suc k)
    show ?thesis
    proof (cases "unat c div 64 = 2")
      case False
      then show ?thesis using Suc by (simp add: trail_byte)
    next
      case True
      let ?v = "push_bit 6 v OR ucast (c AND 0x3F)"
      let ?n = "unat v * 64 + unat c mod 64"
      have n: "?n + 1 \<le> (unat v + 1) * 64" by simp
      have "(?n + 1) * 64 ^ k \<le> (unat v + 1) * 64 * 64 ^ k" using n by (rule mult_le_mono1)
      also have "\<dots> = (unat v + 1) * 64 ^ ex" unfolding Suc power_Suc by (simp only: mult.assoc)
      finally have bnd: "(?n + 1) * 64 ^ k \<le> 2 ^ 31" using Cons.prems(1) by (rule le_trans)
      have "?n + 1 \<le> (?n + 1) * 64 ^ k" using mult_le_mono2 [of 1 "64 ^ k" "?n + 1"] by simp
      with bnd have n31: "?n + 1 \<le> 2 ^ 31" by (rule le_trans [rotated])
      then have "unat v < 2 ^ 26" by simp
      from shift_in [OF this] have "?v = of_nat ?n" .
      moreover have "unat (of_nat ?n :: 32 word) = ?n"
        unfolding unsigned_of_nat of_nat_id using n31 by (intro take_bit_nat_eq_self) simp
      ultimately have "?v = of_nat ?n" "unat (of_nat ?n :: 32 word) = ?n" by blast+
      then have v: "unat ?v = ?n" by simp
      have vm: "vmin \<noteq> 0" using Cons.prems(2) Suc by simp
      show ?thesis
      proof (cases "k = 0")
        case True
        have e: "emit_code emit finish (unat ?v, unat vmin) = finish ?v vmin" using vm by (simp add: emit_code_def unat_eq_0)
        have "utf8_loop emit finish 0 ?v vmin str = (case decode 0 (unat ?v) (unat vmin) (map unat str) of None \<Rightarrow> None | Some ps \<Rightarrow> emit_all (emit_code emit finish) ps)"
          by (rule Cons.IH) (use bnd v True in simp_all)
        then show ?thesis
          using Suc True \<open>unat c div 64 = 2\<close> e
          by (simp add: trail_byte Let_def v del: of_nat_add split: option.split)
      next
        case False
        have "utf8_loop emit finish k ?v vmin str = (case decode k (unat ?v) (unat vmin) (map unat str) of None \<Rightarrow> None | Some ps \<Rightarrow> emit_all (emit_code emit finish) ps)"
          by (rule Cons.IH) (use bnd v vm in simp_all)
        then show ?thesis
          using Suc False \<open>unat c div 64 = 2\<close> by (simp add: trail_byte Let_def v)
      qed
    qed
  qed
qed


subsection \<open>Decoding the encodings\<close>

definition min_of :: "nat \<Rightarrow> nat" where
  "min_of n = (if n < 0x80 then 0 else if n < 0x800 then 0x80 else if n < 0x10000 then 0x800 else 0x10000)"

lemma decode_start: "decode 0 v w cs = decode 0 0 0 cs"
proof (induction cs)
  case (Cons c cs)
  then show ?case by (simp only: decode.simps refl if_True if_False not_True_eq_False not_False_eq_True simp_thms)
qed simp

lemma lead_mod:
  "x < 32 \<Longrightarrow> (0xC0 + x) mod 32 = x" "x < 16 \<Longrightarrow> (0xE0 + x) mod 16 = x" "x < 8 \<Longrightarrow> (0xF0 + x) mod 8 = x" for x :: nat
  using mod_mult_self3 [of 6 32 x] mod_mult_self3 [of 14 16 x] mod_mult_self3 [of 30 8 x] by simp_all

lemma trail_mod: "(0x80 + x mod 64) div 64 = 2" "(0x80 + x mod 64) mod 64 = x mod 64" for x :: nat
  using div_mult_self3 [of 64 2 "x mod 64"] mod_mult_self3 [of 2 64 "x mod 64"] by simp_all

lemma decode_utf8:
  assumes "n < 0x110000"
  shows "decode 0 v w (utf8_nat n @ cs) = map_option (Cons (n, min_of n)) (decode 0 0 0 cs)"
proof -
  have q2: "n < 0x800 \<Longrightarrow> n div 64 < 32" by simp
  have q3: "n < 0x10000 \<Longrightarrow> n div 4096 < 16" by simp
  have q4: "n div 262144 < 5" using assms by simp
  let ?a = "n div 64" let ?b = "?a div 64" let ?c = "?b div 64"
  have d: "n div 4096 = ?b" "n div 262144 = ?c" by (simp_all add: div_mult2_eq [symmetric])
  have e: "?c * 64 + ?b mod 64 = ?b" "?b * 64 + ?a mod 64 = ?a" "?a * 64 + n mod 64 = n" by (rule div_mult_mod_eq)+
  have r3: "(n div 4096 * 64 + n div 64 mod 64) * 64 + n mod 64 = n" unfolding d e ..
  have r4: "((n div 262144 * 64 + n div 4096 mod 64) * 64 + n div 64 mod 64) * 64 + n mod 64 = n" unfolding d e ..
  consider "n < 0x80" | "0x80 \<le> n" "n < 0x800" | "0x800 \<le> n" "n < 0x10000" | "0x10000 \<le> n" by linarith
  then show ?thesis
  proof cases
    case 1
    then show ?thesis by (simp add: utf8_nat_def min_of_def decode_start [of v w])
  next
    case 2
    then show ?thesis using lead_mod(1) [OF q2 [OF 2(2)]] q2 [OF 2(2)]
      by (simp add: utf8_nat_def min_of_def Let_def trail_mod decode_start [of n])
  next
    case 3
    then show ?thesis using lead_mod(2) [OF q3 [OF 3(2)]] q3 [OF 3(2)] r3
      by (simp add: utf8_nat_def min_of_def Let_def trail_mod decode_start [of n] del: add_mult_distrib)
  next
    case 4
    then show ?thesis using lead_mod(3) [of "n div 262144"] q4 r4
      by (simp add: utf8_nat_def min_of_def Let_def trail_mod decode_start [of n] del: add_mult_distrib)
  qed
qed

lemma decode_encodings:
  "\<forall>n \<in> set ns. n < 0x110000 \<Longrightarrow> decode 0 0 0 (concat (map utf8_nat ns)) = Some (map (\<lambda>n. (n, min_of n)) ns)"
  by (induction ns) (simp_all add: decode_utf8)

text \<open>A character in progress takes the bytes it needs.\<close>

definition join :: "nat \<Rightarrow> nat list \<Rightarrow> nat" where
  "join v ts = foldl (\<lambda>a t. a * 64 + t mod 64) v ts"

lemma decode_trail:
  "decode k v w cs = Some ps \<Longrightarrow> k \<noteq> 0 \<Longrightarrow> \<exists>ts rest ps'. cs = ts @ rest \<and> length ts = k \<and> (\<forall>t \<in> set ts. t div 64 = 2) \<and>
     ps = (join v ts, w) # ps' \<and> decode 0 0 0 rest = Some ps'"
proof (induction k arbitrary: v cs)
  case (Suc k)
  then obtain t r where cs: "cs = t # r" "t div 64 = 2" by (cases cs) (auto split: if_splits)
  show ?case
  proof (cases "k = 0")
    case True
    then obtain ps' where "decode 0 0 0 r = Some ps'" "ps = (v * 64 + t mod 64, w) # ps'"
      using Suc.prems(1) cs by (auto simp: Let_def decode_start [of "v * 64 + t mod 64"])
    then show ?thesis using cs True by (intro exI [of _ "[t]"] exI [of _ r]) (simp add: join_def)
  next
    case False
    then have "decode k (v * 64 + t mod 64) w r = Some ps" using Suc.prems(1) cs by (simp add: Let_def)
    from Suc.IH [OF this False] obtain ts rest ps' where "r = ts @ rest" "length ts = k" "\<forall>t \<in> set ts. t div 64 = 2"
      "ps = (join (v * 64 + t mod 64) ts, w) # ps'" "decode 0 0 0 rest = Some ps'" by blast
    then show ?thesis using cs by (intro exI [of _ "t # ts"] exI [of _ rest] exI [of _ ps']) (simp add: join_def)
  qed
qed simp

lemma join_bound: "(v + 1) * 64 ^ length ts \<le> b \<Longrightarrow> join v ts < b"
proof (induction ts arbitrary: v)
  case (Cons t ts)
  have "v * 64 + t mod 64 + 1 \<le> (v + 1) * 64" by simp
  then have "(v * 64 + t mod 64 + 1) * 64 ^ length ts \<le> (v + 1) * 64 * 64 ^ length ts" by (rule mult_le_mono1)
  also have "\<dots> = (v + 1) * 64 ^ length (t # ts)" by (simp only: length_Cons power_Suc mult.assoc)
  also have "\<dots> \<le> b" by (rule Cons.prems)
  finally show ?case using Cons.IH [of "v * 64 + t mod 64"] by (simp add: join_def)
qed (simp add: join_def)


lemma trail_is: "t div 64 = 2 \<Longrightarrow> 0x80 + t mod 64 = t" for t :: nat
  using div_mult_mod_eq [of t 64] by simp

lemma shifted: "(h * 64 + t mod 64) div 64 = h" "(h * 64 + t mod 64) mod 64 = t mod 64" for h t :: nat
  by simp_all

lemma utf8_join2:
  assumes "h < 32" "t div 64 = 2" "n = h * 64 + t mod 64" "0x80 \<le> n"
  shows "utf8_nat n = [0xC0 + h, t] \<and> min_of n = 0x80"
proof -
  have "n < 0x800" using assms(1) mod_less_divisor [of 64 t] unfolding assms(3) by linarith
  moreover have "n div 64 = h" "n mod 64 = t mod 64" unfolding assms(3) by (rule shifted)+
  moreover have "0x80 + t mod 64 = t" by (rule trail_is [OF assms(2)])
  ultimately show ?thesis using assms(4) by (simp add: utf8_nat_def min_of_def)
qed

lemma utf8_join3:
  assumes "h < 16" "t div 64 = 2" "u div 64 = 2" "n = (h * 64 + t mod 64) * 64 + u mod 64" "0x800 \<le> n"
  shows "utf8_nat n = [0xE0 + h, t, u] \<and> min_of n = 0x800"
proof -
  have "n < 0x10000"
  proof -
    have "t mod 64 < 64" "u mod 64 < 64" by simp_all
    then have "h * 64 + t mod 64 < 1024" "u mod 64 < 64" using assms(1) by linarith+
    moreover have "x < 1024 \<Longrightarrow> y < 64 \<Longrightarrow> x * 64 + y < 0x10000" for x y :: nat by linarith
    ultimately show ?thesis unfolding assms(4) by blast
  qed
  moreover have a: "n div 64 = h * 64 + t mod 64" "n mod 64 = u mod 64" unfolding assms(4) by (rule shifted)+
  moreover have "n div 4096 = n div 64 div 64" by (simp add: div_mult2_eq [symmetric])
  then have "n div 4096 = h" "n div 64 mod 64 = t mod 64" unfolding a by (simp_all only: shifted)
  moreover have "0x80 + t mod 64 = t" "0x80 + u mod 64 = u" by (rule trail_is [OF assms(2)] trail_is [OF assms(3)])+
  ultimately show ?thesis using assms(5) by (simp add: utf8_nat_def min_of_def)
qed

lemma utf8_join4:
  assumes "t div 64 = 2" "u div 64 = 2" "x div 64 = 2"
    "n = ((h * 64 + t mod 64) * 64 + u mod 64) * 64 + x mod 64" "0x10000 \<le> n"
  shows "utf8_nat n = [0xF0 + h, t, u, x] \<and> min_of n = 0x10000"
proof -
  have a: "n div 64 = (h * 64 + t mod 64) * 64 + u mod 64" "n mod 64 = x mod 64" unfolding assms(4) by (rule shifted)+
  have q: "n div 4096 = n div 64 div 64" "n div 262144 = n div 64 div 64 div 64" by (simp_all add: div_mult2_eq [symmetric])
  have "n div 262144 = h" "n div 4096 mod 64 = t mod 64" "n div 64 mod 64 = u mod 64"
    unfolding q a by (simp_all only: shifted)
  moreover note a(2)
  moreover have "0x80 + t mod 64 = t" "0x80 + u mod 64 = u" "0x80 + x mod 64 = x"
    by (rule trail_is [OF assms(1)] trail_is [OF assms(2)] trail_is [OF assms(3)])+
  ultimately show ?thesis using assms(5) by (simp add: utf8_nat_def min_of_def)
qed


subsection \<open>One character at a time\<close>

definition code_of :: "nat \<Rightarrow> nat \<Rightarrow> bool" where
  "code_of n m \<longleftrightarrow> n < 2 ^ 31 \<and> m < 2 ^ 31 \<and> (m = 0 \<longrightarrow> n < 0x80)"

lemma lead_is:
  "0xC0 \<le> c \<Longrightarrow> c < 0xE0 \<Longrightarrow> 0xC0 + c mod 32 = c" "0xE0 \<le> c \<Longrightarrow> c < 0xF0 \<Longrightarrow> 0xE0 + c mod 16 = c"
  "0xF0 \<le> c \<Longrightarrow> c < 0xF8 \<Longrightarrow> 0xF0 + c mod 8 = c" for c :: nat
proof -
  have q: "x div k = d \<Longrightarrow> d * k + x mod k = x" for x k d :: nat using div_mult_mod_eq [of x k] by simp
  have "0xC0 \<le> c \<Longrightarrow> c < 0xE0 \<Longrightarrow> c div 32 = 6" "0xE0 \<le> c \<Longrightarrow> c < 0xF0 \<Longrightarrow> c div 16 = 14" "0xF0 \<le> c \<Longrightarrow> c < 0xF8 \<Longrightarrow> c div 8 = 30"
    by linarith+
  with q [of c 32 6] q [of c 16 14] q [of c 8 30]
  show "0xC0 \<le> c \<Longrightarrow> c < 0xE0 \<Longrightarrow> 0xC0 + c mod 32 = c" "0xE0 \<le> c \<Longrightarrow> c < 0xF0 \<Longrightarrow> 0xE0 + c mod 16 = c"
    "0xF0 \<le> c \<Longrightarrow> c < 0xF8 \<Longrightarrow> 0xF0 + c mod 8 = c" by simp_all
qed

text \<open>
  A decoded text splits into its first character and the rest; when the code of the character is a
  code point not below its bound, its bytes are its encoding.
\<close>

lemma decode_multi:
  assumes "decode k h w cs = Some ps" "k \<noteq> 0" "(h + 1) * 64 ^ k \<le> 2 ^ 31" "w \<noteq> 0" "w < 2 ^ 31"
  obtains ts rest ps' where "cs = ts @ rest" "length ts = k" "\<forall>t \<in> set ts. t div 64 = 2" "ps = (join h ts, w) # ps'"
    "decode 0 0 0 rest = Some ps'" "code_of (join h ts) w"
proof -
  from decode_trail [OF assms(1,2)] obtain ts rest ps' where r: "cs = ts @ rest" "length ts = k"
    "\<forall>t \<in> set ts. t div 64 = 2" "ps = (join h ts, w) # ps'" "decode 0 0 0 rest = Some ps'" by blast
  have "join h ts < 2 ^ 31" by (rule join_bound) (use assms(3) r(2) in simp)
  then have "code_of (join h ts) w" using assms(4,5) by (simp add: code_of_def)
  with r that show thesis by blast
qed

definition first_char :: "nat list \<Rightarrow> (nat \<times> nat) list \<Rightarrow> bool" where
  "first_char cs ps \<longleftrightarrow> (\<exists>ts rest n m ps'. cs = ts @ rest \<and> ts \<noteq> [] \<and> ps = (n, m) # ps' \<and> decode 0 0 0 rest = Some ps' \<and>
     code_of n m \<and> (m \<le> n \<and> n < 0x110000 \<longrightarrow> ts = utf8_nat n \<and> m = min_of n))"

lemma first_charI:
  assumes "decode k h w cs = Some ps" "k \<noteq> 0" "(h + 1) * 64 ^ k \<le> 2 ^ 31" "w \<noteq> 0" "w < 2 ^ 31"
    "\<And>ts n. length ts = k \<Longrightarrow> \<forall>t \<in> set ts. t div 64 = 2 \<Longrightarrow> n = join h ts \<Longrightarrow> w \<le> n \<Longrightarrow> n < 0x110000 \<Longrightarrow> c # ts = utf8_nat n \<and> w = min_of n"
  shows "first_char (c # cs) ps"
proof -
  obtain ts rest ps' where r: "cs = ts @ rest" "length ts = k" "\<forall>t \<in> set ts. t div 64 = 2" "ps = (join h ts, w) # ps'"
    "decode 0 0 0 rest = Some ps'" "code_of (join h ts) w"
    using decode_multi [OF assms(1-5)] by blast
  have "w \<le> join h ts \<and> join h ts < 0x110000 \<longrightarrow> c # ts = utf8_nat (join h ts) \<and> w = min_of (join h ts)"
    using assms(6) [OF r(2,3) refl] by blast
  with r show ?thesis unfolding first_char_def
    by (intro exI [of _ "c # ts"] exI [of _ rest] exI [of _ "join h ts"] exI [of _ w] exI [of _ ps']) simp
qed

lemma decode_first:
  assumes "decode 0 0 0 (c # cs) = Some ps" "c < 256"
  shows "first_char (c # cs) ps"
proof -
  consider "c < 0x80" | "0xC0 \<le> c" "c < 0xE0" | "0xE0 \<le> c" "c < 0xF0" | "0xF0 \<le> c" "c < 0xF8" | "0xF8 \<le> c" "c < 0xFC" | "0xFC \<le> c" "c < 0xFE"
    using assms(1) by (cases "c < 0x80"; cases "c < 0xC0 \<or> 0xFE \<le> c") (auto, linarith)
  then show ?thesis
  proof cases
    case 1
    then obtain ps' where "decode 0 0 0 cs = Some ps'" "ps = (c, 0) # ps'" using assms(1) by auto
    then show ?thesis unfolding first_char_def
      using 1 by (intro exI [of _ "[c]"] exI [of _ cs] exI [of _ c] exI [of _ 0] exI [of _ ps']) (simp add: code_of_def utf8_nat_def min_of_def)
  next
    case 2
    then have d: "decode 1 (c mod 32) 0x80 cs = Some ps" using assms(1) by simp
    show ?thesis
    proof (rule first_charI [OF d])
      fix ts n assume l: "length ts = 1" and t: "\<forall>t \<in> set ts. t div 64 = 2" and n: "n = join (c mod 32) ts" "0x80 \<le> n"
      from l obtain u where ts: "ts = [u]" by (auto simp: length_Suc_conv)
      have "utf8_nat n = [0xC0 + c mod 32, u] \<and> min_of n = 0x80"
        by (rule utf8_join2) (use t n ts in \<open>simp_all add: join_def\<close>)
      then show "c # ts = utf8_nat n \<and> 0x80 = min_of n" using lead_is(1) [OF 2] ts by simp
    qed (use mod_less_divisor [of 32 c] in simp_all)
  next
    case 3
    then have d: "decode 2 (c mod 16) 0x800 cs = Some ps" using assms(1) by simp
    show ?thesis
    proof (rule first_charI [OF d])
      fix ts n assume l: "length ts = 2" and t: "\<forall>t \<in> set ts. t div 64 = 2" and n: "n = join (c mod 16) ts" "0x800 \<le> n"
      from l obtain u v where ts: "ts = [u, v]" by (auto simp: length_Suc_conv numeral_2_eq_2)
      have "utf8_nat n = [0xE0 + c mod 16, u, v] \<and> min_of n = 0x800"
        by (rule utf8_join3) (use t n ts in \<open>simp_all add: join_def\<close>)
      then show "c # ts = utf8_nat n \<and> 0x800 = min_of n" using lead_is(2) [OF 3] ts by simp
    qed (use mod_less_divisor [of 16 c] in simp_all)
  next
    case 4
    then have d: "decode 3 (c mod 8) 0x10000 cs = Some ps" using assms(1) by simp
    show ?thesis
    proof (rule first_charI [OF d])
      fix ts n assume l: "length ts = 3" and t: "\<forall>t \<in> set ts. t div 64 = 2" and n: "n = join (c mod 8) ts" "0x10000 \<le> n"
      from l obtain u v x where ts: "ts = [u, v, x]" by (auto simp: length_Suc_conv numeral_3_eq_3)
      have "utf8_nat n = [0xF0 + c mod 8, u, v, x] \<and> min_of n = 0x10000"
        by (rule utf8_join4) (use t n ts in \<open>simp_all add: join_def\<close>)
      then show "c # ts = utf8_nat n \<and> 0x10000 = min_of n" using lead_is(3) [OF 4] ts by simp
    qed (use mod_less_divisor [of 8 c] in simp_all)
  next
    case 5
    then have d: "decode 4 (c mod 4) 0x200000 cs = Some ps" using assms(1) by simp
    show ?thesis by (rule first_charI [OF d]) (use mod_less_divisor [of 4 c] in simp_all)
  next
    case 6
    then have d: "decode 5 (c mod 2) 0x4000000 cs = Some ps" using assms(1) by simp
    show ?thesis by (rule first_charI [OF d]) (use mod_less_divisor [of 2 c] in simp_all)
  qed
qed


lemma decode_inverse:
  "decode 0 0 0 cs = Some ps \<Longrightarrow> \<forall>c \<in> set cs. c < 256 \<Longrightarrow>
     (\<forall>(n, m) \<in> set ps. code_of n m) \<and> ((\<forall>(n, m) \<in> set ps. m \<le> n \<and> n < 0x110000) \<longrightarrow>
       cs = concat (map (\<lambda>p. utf8_nat (fst p)) ps) \<and> (\<forall>(n, m) \<in> set ps. m = min_of n))"
proof (induction "length cs" arbitrary: cs ps rule: less_induct)
  case less
  show ?case
  proof (cases cs)
    case Nil
    then show ?thesis using less.prems by simp
  next
    case (Cons c cs')
    have "first_char cs ps" unfolding Cons by (rule decode_first) (use less.prems Cons in simp_all)
    then obtain ts rest n m ps' where f: "cs = ts @ rest" "ts \<noteq> []" "ps = (n, m) # ps'" "decode 0 0 0 rest = Some ps'"
      "code_of n m" "m \<le> n \<and> n < 0x110000 \<longrightarrow> ts = utf8_nat n \<and> m = min_of n" unfolding first_char_def by blast
    have "length rest < length cs" "\<forall>c \<in> set rest. c < 256" using f less.prems by simp_all
    from less.hyps [OF this(1) f(4) this(2)] f show ?thesis by auto
  qed
qed

subsection \<open>The bytes of a code\<close>

lemma of_nat_small: "n < 2 ^ 32 \<Longrightarrow> unat (of_nat n :: 32 word) = n"
  by (simp add: unsigned_of_nat take_bit_nat_eq_self)

lemma drop_of_nat: "n < 2 ^ 32 \<Longrightarrow> drop_bit k (of_nat n :: 32 word) = of_nat (n div 2 ^ k)"
proof -
  assume n: "n < 2 ^ 32"
  then have "n div 2 ^ k < 2 ^ 32" by (rule le_less_trans [OF div_le_dividend])
  moreover have "take_bit LENGTH(32) n = n" using n by (intro take_bit_nat_eq_self) simp
  ultimately show ?thesis unfolding word_unat_eq_iff unsigned_drop_bit_eq of_nat_small [OF n]
    by (simp only: of_nat_small drop_bit_eq_div)
qed

lemma byte_of_nat: "n < 2 ^ 32 \<Longrightarrow> (ucast (of_nat n :: 32 word) :: 8 word) = of_nat (n mod 256)"
  unfolding word_unat_eq_iff unsigned_ucast_eq
  by (simp only: of_nat_small unsigned_of_nat of_nat_id take_bit_eq_mod) simp

lemma le_bytes2: "n < 0x10000 \<Longrightarrow> WRITESHORT (of_nat n) = le_bytes 2 n"
  unfolding WRITESHORT_def le_bytes_def
  using byte_of_nat [of n] drop_of_nat [of n 8] byte_of_nat [of "n div 256"] by (simp add: upt_rec)

lemma high_half: "n < 0x100000 \<Longrightarrow> 0xD800 OR drop_bit 10 (of_nat n) = (of_nat (0xD800 + n div 1024) :: 32 word)"
proof -
  assume n: "n < 0x100000"
  have d: "drop_bit 10 (of_nat n :: 32 word) = of_nat (n div 1024)" using drop_of_nat [of n 10] n by simp
  have "n div 1024 < 2 ^ 10" using n by simp
  then have t: "(drop_bit 10 (of_nat n) :: 32 word) = take_bit 10 (drop_bit 10 (of_nat n))"
    unfolding d take_bit_of_nat by (simp only: take_bit_nat_eq_self)
  have o: "(0xD800 :: 32 word) OR take_bit 10 w = 0xD800 + take_bit 10 w" for w
  proof (rule disjunctive_add [symmetric])
    have "(0xD800 :: 32 word) = push_bit 11 27" by simp
    then show "\<not> bit (0xD800 :: 32 word) k \<or> \<not> bit (take_bit 10 w) k" for k by (simp only: bit_simps) auto
  qed
  have "(0xD800 :: 32 word) OR drop_bit 10 (of_nat n) = 0xD800 + drop_bit 10 (of_nat n)"
    using o [of "drop_bit 10 (of_nat n)"] unfolding t [symmetric] .
  then show ?thesis unfolding d of_nat_add by simp
qed

lemma low_half: "n < 0x100000 \<Longrightarrow> 0xDC00 OR (of_nat n AND 0x3FF) = (of_nat (0xDC00 + n mod 1024) :: 32 word)"
proof -
  assume n: "n < 0x100000"
  have m: "(0x3FF :: 32 word) = mask 10" by (simp add: mask_eq_exp_minus_1)
  have d: "take_bit 10 (of_nat n :: 32 word) = of_nat (n mod 1024)"
    by (simp only: take_bit_of_nat) (simp add: take_bit_eq_mod)
  have o: "(0xDC00 :: 32 word) OR take_bit 10 w = 0xDC00 + take_bit 10 w" for w
  proof (rule disjunctive_add [symmetric])
    have "(0xDC00 :: 32 word) = push_bit 10 55" by simp
    then show "\<not> bit (0xDC00 :: 32 word) k \<or> \<not> bit (take_bit 10 w) k" for k by (simp only: bit_simps) auto
  qed
  show ?thesis unfolding m take_bit_eq_mask [symmetric] o unfolding d of_nat_add by simp
qed


definition utf16le_of :: "nat \<Rightarrow> 8 word list" where
  "utf16le_of n = concat (map (le_bytes 2) (utf16 n))"

lemma code_words:
  assumes "n < 2 ^ 31" "m < 2 ^ 31"
  shows "refused16 (of_nat n) (of_nat m) \<longleftrightarrow> n < m \<or> \<not> scalar n" "(of_nat n :: 32 word) > 0xFFFF \<longleftrightarrow> n > 0xFFFF"
    "0x10000 \<le> n \<Longrightarrow> (of_nat n :: 32 word) - 0x10000 = of_nat (n - 0x10000)"
proof -
  have u: "unat (of_nat n :: 32 word) = n" "unat (of_nat m :: 32 word) = m" using assms by (simp_all add: of_nat_small)
  show "refused16 (of_nat n) (of_nat m) \<longleftrightarrow> n < m \<or> \<not> scalar n"
    unfolding refused16_def scalar_def word_less_nat_alt word_le_nat_alt u by auto
  show "(of_nat n :: 32 word) > 0xFFFF \<longleftrightarrow> n > 0xFFFF" unfolding word_less_nat_alt u by simp
  show "(of_nat n :: 32 word) - 0x10000 = of_nat (n - 0x10000)" if "0x10000 \<le> n"
    using that by (simp add: of_nat_diff)
qed

lemma emit_code16:
  assumes "code_of n m"
  shows "emit_code WRITESHORT finish_16le (n, m) = (if m \<le> n \<and> scalar n then Some (utf16le_of n) else None)"
proof -
  have nm: "n < 2 ^ 31" "m < 2 ^ 31" using assms by (simp_all add: code_of_def)
  note w = code_words [OF nm]
  show ?thesis
  proof (cases "m = 0")
    case True
    then have "n < 0x80" using assms by (simp add: code_of_def)
    then show ?thesis using True le_bytes2 [of n] by (simp add: emit_code_def utf16le_of_def utf16_def scalar_def)
  next
    case False
    then have "emit_code WRITESHORT finish_16le (n, m) = finish_16le (of_nat n) (of_nat m)" by (simp add: emit_code_def)
    moreover consider "n < m \<or> \<not> scalar n" | "m \<le> n" "scalar n" "n \<le> 0xFFFF" | "m \<le> n" "scalar n" "n > 0xFFFF" by linarith
    then have "finish_16le (of_nat n) (of_nat m) = (if m \<le> n \<and> scalar n then Some (utf16le_of n) else None)"
    proof cases
      case 1
      then show ?thesis unfolding finish_16le_def w(1) by auto
    next
      case 2
      then show ?thesis unfolding finish_16le_def w(1) w(2) using le_bytes2 [of n] by (simp add: utf16le_of_def utf16_def)
    next
      case 3
      let ?k = "n - 0x10000"
      have k: "?k < 0x100000" using 3 by (simp add: scalar_def)
      have b: "0xD800 + ?k div 1024 < 0x10000" "0xDC00 + ?k mod 1024 < 0x10000"
        using k by (simp_all add: less_mult_imp_div_less)
      have "utf16 n = [0xD800 + ?k div 1024, 0xDC00 + ?k mod 1024]" using 3 by (simp add: utf16_def)
      moreover have "n \<ge> 0x10000" using 3 by simp
      ultimately show ?thesis unfolding finish_16le_def w(1) w(2) w(3) [OF \<open>n \<ge> 0x10000\<close>] utf16le_of_def Let_def high_half [OF k] low_half [OF k]
          le_bytes2 [OF b(1)] le_bytes2 [OF b(2)] using 3 by simp
    qed
    ultimately show ?thesis by (rule trans)
  qed
qed

lemma emit_all_if:
  "\<forall>p \<in> set ps. f p = (if ok p then Some (g p) else None) \<Longrightarrow>
   emit_all f ps = Some out \<longleftrightarrow> (\<forall>p \<in> set ps. ok p) \<and> out = concat (map g ps)"
  by (induction ps arbitrary: out) (auto split: option.splits)

lemma utf8_unat: "n < 0x110000 \<Longrightarrow> map unat (utf8 n) = utf8_nat n"
proof -
  assume n: "n < 0x110000"
  have "x \<in> set (utf8_nat n) \<Longrightarrow> x < 256" for x
  proof -
    have m: "x mod 64 < 64" for x :: nat by simp
    show "x \<in> set (utf8_nat n) \<Longrightarrow> x < 256"
      using n m [of n] m [of "n div 64"] m [of "n div 4096"] by (auto simp: utf8_nat_def split: if_splits)
  qed
  then have "x \<in> set (utf8_nat n) \<Longrightarrow> unat (of_nat x :: 8 word) = x" for x
    by (simp add: unsigned_of_nat take_bit_nat_eq_self)
  then show ?thesis by (simp add: utf8_def map_idI)
qed

lemma utf8_unats: "\<forall>n \<in> set ns. n < 0x110000 \<Longrightarrow> map unat (concat (map utf8 ns)) = concat (map utf8_nat ns)"
  by (induction ns) (simp_all add: utf8_unat)

lemma unat_list_inject: "map unat xs = map unat ys \<longleftrightarrow> xs = ys" for xs ys :: "'a::len word list"
  by (rule inj_map_eq_map) (simp add: inj_def word_unat_eq_iff)

lemma min_of_code: "n < 0x110000 \<Longrightarrow> code_of n (min_of n) \<and> min_of n \<le> n"
  by (simp add: code_of_def min_of_def)

lemma emit_decoded:
  assumes "\<And>n m. code_of n m \<Longrightarrow> emit_code emit finish (n, m) = (if m \<le> n \<and> scalar n then Some (g n) else None)"
  shows "utf8_loop emit finish 0 0 0 bs = Some out \<longleftrightarrow>
    (\<exists>ns. (\<forall>n \<in> set ns. scalar n) \<and> bs = concat (map utf8 ns) \<and> out = concat (map g ns))"
proof -
  have loop: "utf8_loop emit finish 0 0 0 bs =
      (case decode 0 0 0 (map unat bs) of None \<Rightarrow> None | Some ps \<Rightarrow> emit_all (emit_code emit finish) ps)"
    by (subst loop_decode) simp_all
  have bytes: "\<forall>c \<in> set (map unat bs). c < 256"
  proof
    fix c assume "c \<in> set (map unat bs)"
    then obtain b :: "8 word" where "c = unat b" by auto
    then show "c < 256" using unsigned_less [of b] by simp
  qed
  have emit: "emit_all (emit_code emit finish) ps = Some out \<longleftrightarrow>
      (\<forall>(n, m) \<in> set ps. m \<le> n \<and> scalar n) \<and> out = concat (map (\<lambda>p. g (fst p)) ps)"
    if "\<forall>(n, m) \<in> set ps. code_of n m" for ps
  proof -
    have "\<forall>p \<in> set ps. emit_code emit finish p = (if (case p of (n, m) \<Rightarrow> m \<le> n \<and> scalar n) then Some (g (fst p)) else None)"
    proof
      fix p assume p: "p \<in> set ps"
      obtain n m where nm: "p = (n, m)" by (cases p)
      then have "code_of n m" using that p by blast
      then show "emit_code emit finish p = (if (case p of (n, m) \<Rightarrow> m \<le> n \<and> scalar n) then Some (g (fst p)) else None)"
        unfolding nm using assms by simp
    qed
    from emit_all_if [OF this] show ?thesis .
  qed
  show ?thesis
  proof
    assume "utf8_loop emit finish 0 0 0 bs = Some out"
    then obtain ps where d: "decode 0 0 0 (map unat bs) = Some ps" "emit_all (emit_code emit finish) ps = Some out"
      unfolding loop by (auto split: option.splits)
    note inv = decode_inverse [OF d(1) bytes]
    then have ok: "\<forall>(n, m) \<in> set ps. m \<le> n \<and> scalar n" "out = concat (map (\<lambda>p. g (fst p)) ps)" using d(2) emit by blast+
    have lt: "\<forall>n \<in> set (map fst ps). n < 0x110000 \<and> scalar n" using ok(1) by (auto simp: scalar_def)
    then have "\<forall>(n, m) \<in> set ps. m \<le> n \<and> n < 0x110000" using ok(1) by auto
    then have "map unat bs = concat (map utf8_nat (map fst ps))" using inv by (simp add: comp_def)
    also have "\<dots> = map unat (concat (map utf8 (map fst ps)))" by (rule utf8_unats [symmetric]) (use lt in blast)
    finally have "bs = concat (map utf8 (map fst ps))" unfolding unat_list_inject .
    then show "\<exists>ns. (\<forall>n \<in> set ns. scalar n) \<and> bs = concat (map utf8 ns) \<and> out = concat (map g ns)"
      using lt ok(2) by (intro exI [of _ "map fst ps"]) (simp add: comp_def)
  next
    assume "\<exists>ns. (\<forall>n \<in> set ns. scalar n) \<and> bs = concat (map utf8 ns) \<and> out = concat (map g ns)"
    then obtain ns where ns: "\<forall>n \<in> set ns. scalar n" "bs = concat (map utf8 ns)" "out = concat (map g ns)" by blast
    then have lt: "\<forall>n \<in> set ns. n < 0x110000" by (simp add: scalar_def)
    have d: "decode 0 0 0 (map unat bs) = Some (map (\<lambda>n. (n, min_of n)) ns)"
      unfolding ns(2) utf8_unats [OF lt] by (rule decode_encodings [OF lt])
    have "emit_all (emit_code emit finish) (map (\<lambda>n. (n, min_of n)) ns) = Some out"
      using emit [of "map (\<lambda>n. (n, min_of n)) ns"] lt ns(1,3) min_of_code by (auto simp: comp_def)
    then show "utf8_loop emit finish 0 0 0 bs = Some out" unfolding loop d by simp
  qed
qed

text \<open>
  C22: The conversion to UTF-16 is the right one.  The conversion of a sequence of bytes to UTF-16
  with the low byte first succeeds just when the bytes are the UTF-8 encodings of Unicode scalar
  values; the result is then their UTF-16 encodings.  In particular overlong encodings, surrogates,
  codes above 10FFFF, bytes out of place and texts that end within a character are refused.
\<close>

theorem utf8_to_16le_converts:
  "utf8_to_16le bs = Some out \<longleftrightarrow>
   (\<exists>ns. (\<forall>n \<in> set ns. scalar n) \<and> bs = concat (map utf8 ns) \<and> out = concat (map (le_bytes 2) (concat (map utf16 ns))))"
proof -
  have c: "concat (map utf16le_of ns) = concat (map (le_bytes 2) (concat (map utf16 ns)))" for ns
    by (induction ns) (simp_all add: utf16le_of_def)
  show ?thesis using emit_decoded [where g = utf16le_of, OF emit_code16, of bs out] unfolding utf8_to_16le_def c .
qed

theorem utf8_to_16le_converts_witness:
  "utf8_to_16le [0x41, 0xC3, 0xA9, 0xF0, 0x90, 0x80, 0x80] = Some [0x41, 0, 0xE9, 0, 0x00, 0xD8, 0x00, 0xDC]"
proof -
  have "\<exists>ns. (\<forall>n \<in> set ns. scalar n) \<and> [0x41, 0xC3, 0xA9, 0xF0, 0x90, 0x80, 0x80] = concat (map utf8 ns) \<and>
     [0x41, 0, 0xE9, 0, 0x00, 0xD8, 0x00, 0xDC] = concat (map (le_bytes 2) (concat (map utf16 ns)))"
    by (rule exI [of _ "[0x41, 0xE9, 0x10000]"]) (simp add: scalar_def utf8_def utf8_nat_def utf16_def le_bytes_def upt_rec)
  then show ?thesis by (simp only: utf8_to_16le_converts)
qed

text \<open>The other order swaps the halves of a pair, and the conversions to UTF-32 accept a code above 10FFFF.\<close>

lemma utf8_to_16be_swaps: "utf8_to_16be [0xF0, 0x90, 0x80, 0x80] = Some [0xDC, 0x00, 0xD8, 0x00]"
  by code_simp

lemma utf32_accepts_above:
  "utf8_to_32le [0xF4, 0x90, 0x80, 0x80] = Some [0x00, 0x00, 0x11, 0x00]" "utf8_to_16le [0xF4, 0x90, 0x80, 0x80] = None"
  by code_simp+

end
